(* ===== verification/Prelude.thy ===== *)
theory Prelude
  imports Main "HOL-Library.Word"
begin

text \<open>
  What every component of the development shares: the machine types, the two result types in which
  errors and non-termination are values, and the lemmas on 64-bit words, list updates and
  index searches that the component proofs use.

  \<^item> \<open>u64\<close> is \<open>size_t\<close> and also a pointer (\<open>addr\<close>); \<open>u32\<close> is \<open>unsigned int\<close>
    (\<open>binmap_t\<close>, \<open>bindex_t\<close>, \<open>flag_t\<close>). Arithmetic wraps as in the code.
  \<^item> \<open>('s, 'a) outcome\<close> is the result of an operation on a state \<open>'s\<close>: a value together with the new
    state, or a fault together with the state as it was when the fault was raised (an exception
    of the code does not undo the writes made before it).
  \<^item> \<open>('s, 'a) comp\<close> adds \<open>None\<close>, the operation that does not return (an endless loop or recursion).
\<close>

unbundle bit_operations_syntax

type_synonym u64 = "64 word"
type_synonym u32 = "32 word"
type_synonym addr = "64 word"

section \<open>Faults and results\<close>

text \<open>
  \<open>Memory_Corrupted\<close> and \<open>Debug_Assertion_Fail\<close> are the exceptions \<open>MemoryCorruptedException\<close> and \<open>DebugAssertionFail\<close>
  of \<open>uni_allocator/exception.h\<close> (\<open>exception_what\<close> is what they say of themselves); \<open>Assertion_Failed\<close> is a failing \<open>assert\<close> (the program aborts);
  \<open>Undefined_Behaviour\<close> is a step the C++ standard gives no meaning to (reading through
  \<open>end()\<close> or a null pointer, a remainder by zero).
\<close>

datatype fault = Memory_Corrupted | Debug_Assertion_Fail | Assertion_Failed | Undefined_Behaviour

fun exception_what :: "fault \<Rightarrow> string option" where
  "exception_what Debug_Assertion_Fail = Some ''Debug mode assertion failed''"
| "exception_what Memory_Corrupted = Some ''Memory Corrupted Exception''"
| "exception_what _ = None"

datatype ('s, 'a) outcome = Normal 'a 's | Fault fault 's

type_synonym ('s, 'a) comp = "('s, 'a) outcome option"

definition obind :: "('s, 'a) outcome \<Rightarrow> ('a \<Rightarrow> 's \<Rightarrow> ('s, 'b) outcome) \<Rightarrow> ('s, 'b) outcome" where
  "obind m k = (case m of Normal a s \<Rightarrow> k a s | Fault e s \<Rightarrow> Fault e s)"

definition cbind :: "('s, 'a) comp \<Rightarrow> ('a \<Rightarrow> 's \<Rightarrow> ('s, 'b) comp) \<Rightarrow> ('s, 'b) comp" where
  "cbind m k = (case m of None \<Rightarrow> None | Some (Normal a s) \<Rightarrow> k a s | Some (Fault e s) \<Rightarrow> Some (Fault e s))"

definition ret :: "'a \<Rightarrow> 's \<Rightarrow> ('s, 'a) comp" where
  "ret a s = Some (Normal a s)"

definition throw :: "fault \<Rightarrow> 's \<Rightarrow> ('s, 'a) comp" where
  "throw e s = Some (Fault e s)"

text \<open>A read that may fault, followed by the rest of the operation in state \<open>s\<close>.\<close>

definition get_or :: "'s \<Rightarrow> fault + 'a \<Rightarrow> ('a \<Rightarrow> ('s, 'b) outcome) \<Rightarrow> ('s, 'b) outcome" where
  "get_or s r k = (case r of Inl e \<Rightarrow> Fault e s | Inr a \<Rightarrow> k a)"

named_theorems comp_simps "rewriting of results: bind, return, throw"

lemma obind_simps [comp_simps, simp]:
  "obind (Normal a s) k = k a s"
  "obind (Fault e s) k = Fault e s"
  by (simp_all add: obind_def)

lemma cbind_simps [comp_simps, simp]:
  "cbind (ret a s) k = k a s"
  "cbind (throw e s) k = throw e s"
  "cbind None k = None"
  "cbind (Some (Normal a s)) k = k a s"
  "cbind (Some (Fault e s)) k = Some (Fault e s)"
  by (simp_all add: cbind_def ret_def throw_def)

lemma get_or_simps [comp_simps, simp]:
  "get_or s (Inl e) k = Fault e s"
  "get_or s (Inr a) k = k a"
  by (simp_all add: get_or_def)

lemma ret_throw_simps [simp]:
  "ret a s = ret b t \<longleftrightarrow> a = b \<and> s = t"
  "throw e s = throw f t \<longleftrightarrow> e = f \<and> s = t"
  "ret a s \<noteq> throw e t"
  "throw e t \<noteq> ret a s"
  "ret a s \<noteq> None"
  "throw e s \<noteq> None"
  by (auto simp: ret_def throw_def)

lemma obind_Normal_iff:
  "obind m k = Normal b t \<longleftrightarrow> (\<exists>a s. m = Normal a s \<and> k a s = Normal b t)"
  by (cases m) auto

lemma get_or_Normal_iff:
  "get_or s r k = Normal b t \<longleftrightarrow> (\<exists>a. r = Inr a \<and> k a = Normal b t)"
  by (cases r) auto

section \<open>Searching a bit position\<close>

text \<open>
  \<open>first_index p n\<close> is the least \<open>i < n\<close> with \<open>p i\<close>, and \<open>n\<close> when there is none: the counting
  builtins \<open>__builtin_ctz\<close> and \<open>__builtin_clz\<close> are this search over the bits of a word.
\<close>

definition first_index :: "(nat \<Rightarrow> bool) \<Rightarrow> nat \<Rightarrow> nat" where
  "first_index p n = length (takeWhile (\<lambda>i. \<not> p i) [0..<n])"

lemma first_index_le: "first_index p n \<le> n"
  unfolding first_index_def
  by (metis length_takeWhile_le length_upt minus_nat.diff_0)

lemma first_index_before: "i < first_index p n \<Longrightarrow> \<not> p i"
proof -
  assume i: "i < first_index p n"
  have "i < n" using i first_index_le [of p n] by simp
  moreover have "takeWhile (\<lambda>i. \<not> p i) [0..<n] ! i = [0..<n] ! i"
    using i unfolding first_index_def by (rule takeWhile_nth)
  moreover have "takeWhile (\<lambda>i. \<not> p i) [0..<n] ! i \<in> set (takeWhile (\<lambda>i. \<not> p i) [0..<n])"
    using i unfolding first_index_def by (rule nth_mem)
  ultimately show ?thesis
    by (auto dest: set_takeWhileD)
qed

lemma first_index_holds: "first_index p n < n \<Longrightarrow> p (first_index p n)"
proof -
  assume f: "first_index p n < n"
  then have "\<not> (\<not> p ([0..<n] ! first_index p n))"
    unfolding first_index_def
    using nth_length_takeWhile [of "\<lambda>i. \<not> p i" "[0..<n]"] by simp
  with f show ?thesis by simp
qed

lemma first_index_unique:
  assumes "p i" and "\<And>j. j < i \<Longrightarrow> \<not> p j" and "i < n"
  shows "first_index p n = i"
proof (rule linorder_cases [of "first_index p n" i])
  assume "first_index p n < i"
  then have "first_index p n < n" using assms(3) by simp
  then have "p (first_index p n)" by (rule first_index_holds)
  then show ?thesis using assms(2) \<open>first_index p n < i\<close> by blast
next
  assume "i < first_index p n"
  then have "\<not> p i" by (rule first_index_before)
  then show ?thesis using assms(1) by simp
qed

section \<open>Words\<close>

lemma and_not_mask_eq: "x AND NOT (mask n) = push_bit n (drop_bit n (x :: 'a::len word))"
  by (rule bit_word_eqI) (auto simp: bit_simps)

lemma unat_lt_2_64 [simp]: "unat (x :: u64) < 18446744073709551616"
proof -
  have "unat x < 2 ^ LENGTH(64)" by (rule unsigned_less)
  then show ?thesis by simp
qed

lemma unat_le_2_64 [simp]: "unat (x :: u64) \<le> 18446744073709551615"
  using unat_lt_2_64 [of x] by linarith

lemma unat_add_64: "unat ((x :: u64) + y) = (unat x + unat y) mod 18446744073709551616"
  by (simp add: unat_word_ariths)

lemma unat_add_noov:
  "unat (x :: u64) + unat y < 18446744073709551616 \<Longrightarrow> unat (x + y) = unat x + unat y"
  by (simp add: unat_add_64)

lemma unat_sub_noov: "y \<le> x \<Longrightarrow> unat ((x :: u64) - y) = unat x - unat y"
  by (rule unat_sub) (simp add: word_le_nat_alt)

lemma unat_drop_bit: "unat (drop_bit n (x :: 'a::len word)) = unat x div 2 ^ n"
  unfolding unat_drop_bit_eq by (rule drop_bit_eq_div)

lemma unat_and_mask: "unat ((x :: 'a::len word) AND mask n) = unat x mod 2 ^ n"
  unfolding take_bit_eq_mask [symmetric] unsigned_take_bit_eq by (rule take_bit_eq_mod)

lemma unat_and_not_mask: "unat ((x :: 'a::len word) AND NOT (mask n)) = 2 ^ n * (unat x div 2 ^ n)"
proof -
  have "2 ^ n * (unat x div 2 ^ n) < 2 ^ LENGTH('a)"
    by (rule le_less_trans [OF _ unsigned_less [of x]]) (simp add: mult.commute)
  then show ?thesis
    unfolding and_not_mask_eq unsigned_push_bit_eq unat_drop_bit
    by (simp only: push_bit_eq_mult take_bit_eq_mod mult.commute mod_less)
qed

lemma mask_numerals:
  "(15 :: u64) = mask 4" "(7 :: u64) = mask 3"
  by (simp_all add: mask_eq_exp_minus_1)

lemma unat_and_not_15: "unat ((x :: u64) AND NOT 15) = 16 * (unat x div 16)"
  by (simp only: mask_numerals unat_and_not_mask) simp

lemma unat_and_not_7: "unat ((x :: u64) AND NOT 7) = 8 * (unat x div 8)"
  by (simp only: mask_numerals unat_and_not_mask) simp

text \<open>The simplifier writes \<open>NOT 15\<close> as \<open>- 16\<close> and \<open>NOT 7\<close> as \<open>- 8\<close>.\<close>

lemma unat_and_minus_16: "unat ((x :: u64) AND - 16) = 16 * (unat x div 16)"
  using unat_and_not_15 [of x] by simp

lemma unat_and_minus_8: "unat ((x :: u64) AND - 8) = 8 * (unat x div 8)"
  using unat_and_not_7 [of x] by simp

lemma unat_and_15: "unat ((x :: u64) AND 15) = unat x mod 16"
  by (simp only: mask_numerals unat_and_mask) simp

end
