(* ===== verification/Chunk.thy ===== *)
theory Chunk
  imports Prelude
begin

text \<open>
  Chunks: \<open>uni_allocator/size_bits.h\<close> and \<open>uni_allocator/chunk.h\<close>. A chunk is a pointer into the
  heap; its four fields are the cells at offsets 0, 8, 16 and 24. The macros and the inline members
  of \<open>Chunk\<close> follow in the order of the header, then the lemmas on request padding, alignment and
  on the packing of a size with its three flag bits.

  The heap maps an address to the 8-byte object stored there. All accesses of the allocator are to
  8-byte fields of chunks and of the bin array, so a cell is never read in part.
\<close>

type_synonym heap = "addr \<Rightarrow> u64"

section \<open>size_bits.h\<close>

definition SIZE_T_SIZE :: u64 where "SIZE_T_SIZE = 8"
definition TWO_SIZE_T_SIZES :: u64 where "TWO_SIZE_T_SIZES = push_bit 2 SIZE_T_SIZE"
definition SIZE_T_BITSIZE :: u64 where "SIZE_T_BITSIZE = push_bit 3 SIZE_T_SIZE"
definition SIZE_T_ONE :: u64 where "SIZE_T_ONE = 1"
definition SIZE_T_TWO :: u64 where "SIZE_T_TWO = 2"
definition SIZE_T_FOUR :: u64 where "SIZE_T_FOUR = 4"
definition PINUSE_BIT :: u64 where "PINUSE_BIT = SIZE_T_ONE"
definition CINUSE_BIT :: u64 where "CINUSE_BIT = SIZE_T_TWO"
definition FLAG4_BIT :: u64 where "FLAG4_BIT = SIZE_T_FOUR"
definition INUSE_BITS :: u64 where "INUSE_BITS = PINUSE_BIT OR CINUSE_BIT"
definition FLAG_BITS :: u64 where "FLAG_BITS = PINUSE_BIT OR CINUSE_BIT OR FLAG4_BIT"

section \<open>The fields of a chunk\<close>

definition prev_foot :: "heap \<Rightarrow> addr \<Rightarrow> u64" where "prev_foot h p = h p"
definition head :: "heap \<Rightarrow> addr \<Rightarrow> u64" where "head h p = h (p + 8)"
definition fd :: "heap \<Rightarrow> addr \<Rightarrow> addr" where "fd h p = h (p + 16)"
definition bk :: "heap \<Rightarrow> addr \<Rightarrow> addr" where "bk h p = h (p + 24)"

definition set_prev_foot :: "heap \<Rightarrow> addr \<Rightarrow> u64 \<Rightarrow> heap" where
  "set_prev_foot h p v = h(p := v)"
definition set_head :: "heap \<Rightarrow> addr \<Rightarrow> u64 \<Rightarrow> heap" where
  "set_head h p v = h(p + 8 := v)"
definition set_fd :: "heap \<Rightarrow> addr \<Rightarrow> addr \<Rightarrow> heap" where
  "set_fd h p v = h(p + 16 := v)"
definition set_bk :: "heap \<Rightarrow> addr \<Rightarrow> addr \<Rightarrow> heap" where
  "set_bk h p v = h(p + 24 := v)"

text \<open>\<open>sizeof(Chunk)\<close>: four 8-byte fields, no virtual function.\<close>

definition sizeof_Chunk :: u64 where "sizeof_Chunk = 32"

section \<open>Members of Chunk\<close>

definition chunk2mem :: "addr \<Rightarrow> addr" where
  "chunk2mem p = p + TWO_SIZE_T_SIZES"

definition cinuse :: "heap \<Rightarrow> addr \<Rightarrow> u64" where
  "cinuse h p = head h p AND CINUSE_BIT"

definition pinuse :: "heap \<Rightarrow> addr \<Rightarrow> u64" where
  "pinuse h p = head h p AND PINUSE_BIT"

definition flag4inuse :: "heap \<Rightarrow> addr \<Rightarrow> u64" where
  "flag4inuse h p = head h p AND FLAG4_BIT"

definition is_inuse :: "heap \<Rightarrow> addr \<Rightarrow> bool" where
  "is_inuse h p \<longleftrightarrow> (head h p AND INUSE_BITS) \<noteq> PINUSE_BIT"

text \<open>\<open>this + n\<close> on a \<open>Chunk*\<close> steps by \<open>n * sizeof(Chunk)\<close> bytes.\<close>

definition next_chunk :: "heap \<Rightarrow> addr \<Rightarrow> addr" where
  "next_chunk h p = p + sizeof_Chunk * (head h p AND NOT FLAG_BITS)"

definition prev_chunk :: "heap \<Rightarrow> addr \<Rightarrow> addr" where
  "prev_chunk h p = p - sizeof_Chunk * prev_foot h p"

definition next_pinuse :: "heap \<Rightarrow> addr \<Rightarrow> u64" where
  "next_pinuse h p = pinuse h (next_chunk h p)"

definition chunksize :: "heap \<Rightarrow> addr \<Rightarrow> u64" where
  "chunksize h p = head h p AND NOT FLAG_BITS"

definition get_foot :: "heap \<Rightarrow> addr \<Rightarrow> u64 \<Rightarrow> u64" where
  "get_foot h p s = prev_foot h (p + s)"

definition set_foot :: "heap \<Rightarrow> addr \<Rightarrow> u64 \<Rightarrow> heap" where
  "set_foot h p s = set_prev_foot h (p + s) s"

definition set_size_and_pinuse_of_free_chunk :: "heap \<Rightarrow> addr \<Rightarrow> u64 \<Rightarrow> heap" where
  "set_size_and_pinuse_of_free_chunk h p s = set_foot (set_head h p (s OR PINUSE_BIT)) p s"

definition set_size_and_pinuse_of_inuse_chunk :: "heap \<Rightarrow> addr \<Rightarrow> u64 \<Rightarrow> heap" where
  "set_size_and_pinuse_of_inuse_chunk h p s = set_head h p (s OR PINUSE_BIT OR CINUSE_BIT)"

definition clear_pinuse :: "heap \<Rightarrow> addr \<Rightarrow> heap" where
  "clear_pinuse h p = set_head h p (head h p AND NOT PINUSE_BIT)"

definition set_free_with_pinuse :: "heap \<Rightarrow> addr \<Rightarrow> u64 \<Rightarrow> addr \<Rightarrow> heap" where
  "set_free_with_pinuse h p s nxt = set_size_and_pinuse_of_free_chunk (clear_pinuse h nxt) p s"

definition mem2chunk :: "addr \<Rightarrow> addr" where
  "mem2chunk mem = mem - TWO_SIZE_T_SIZES"

section \<open>Sizes, alignment and requests\<close>

definition MALLOC_ALIGNMENT :: u64 where "MALLOC_ALIGNMENT = 2 * 8"
definition CHUNK_OVERHEAD :: u64 where "CHUNK_OVERHEAD = SIZE_T_SIZE"
definition MCHUNK_SIZE :: u64 where "MCHUNK_SIZE = sizeof_Chunk"
definition CHUNK_ALIGN_MASK :: u64 where "CHUNK_ALIGN_MASK = MALLOC_ALIGNMENT - SIZE_T_ONE"

definition MIN_CHUNK_SIZE :: u64 where
  "MIN_CHUNK_SIZE = (MCHUNK_SIZE + CHUNK_ALIGN_MASK) AND NOT CHUNK_ALIGN_MASK"

definition align_offset :: "addr \<Rightarrow> u64" where
  "align_offset a =
     (if a AND CHUNK_ALIGN_MASK = 0 then 0
      else (MALLOC_ALIGNMENT - (a AND CHUNK_ALIGN_MASK)) AND CHUNK_ALIGN_MASK)"

definition TOP_FOOT_SIZE :: u64 where "TOP_FOOT_SIZE = SIZE_T_SIZE"

definition MAX_REQUEST :: u64 where "MAX_REQUEST = push_bit 2 (- MIN_CHUNK_SIZE)"

definition MIN_REQUEST :: u64 where
  "MIN_REQUEST = MIN_CHUNK_SIZE - CHUNK_OVERHEAD - SIZE_T_ONE"

definition pad_request :: "u64 \<Rightarrow> u64" where
  "pad_request req = (req + CHUNK_OVERHEAD + CHUNK_ALIGN_MASK) AND NOT CHUNK_ALIGN_MASK"

definition request2size :: "u64 \<Rightarrow> u64" where
  "request2size req = (if req < MIN_REQUEST then MIN_CHUNK_SIZE else pad_request req)"

definition chunk_plus_offset :: "addr \<Rightarrow> u64 \<Rightarrow> addr" where
  "chunk_plus_offset p s = p + s"

definition chunk_minus_offset :: "addr \<Rightarrow> u64 \<Rightarrow> addr" where
  "chunk_minus_offset p s = p - s"

definition ok_next :: "addr \<Rightarrow> addr \<Rightarrow> bool" where
  "ok_next p n \<longleftrightarrow> p < n"

section \<open>The values of the constants\<close>

lemma size_consts:
  "SIZE_T_SIZE = 8" "TWO_SIZE_T_SIZES = 32" "SIZE_T_BITSIZE = 64" "SIZE_T_ONE = 1"
  "PINUSE_BIT = 1" "CINUSE_BIT = 2" "FLAG4_BIT = 4" "INUSE_BITS = 3" "FLAG_BITS = 7"
  "MALLOC_ALIGNMENT = 16" "CHUNK_OVERHEAD = 8" "MCHUNK_SIZE = 32" "CHUNK_ALIGN_MASK = 15"
  "MIN_CHUNK_SIZE = 32" "TOP_FOOT_SIZE = 8" "MIN_REQUEST = 23" "sizeof_Chunk = 32"
  "MAX_REQUEST = 18446744073709551488"
  by (simp_all add: SIZE_T_SIZE_def TWO_SIZE_T_SIZES_def SIZE_T_BITSIZE_def SIZE_T_ONE_def
      SIZE_T_TWO_def SIZE_T_FOUR_def PINUSE_BIT_def CINUSE_BIT_def FLAG4_BIT_def INUSE_BITS_def
      FLAG_BITS_def MALLOC_ALIGNMENT_def CHUNK_OVERHEAD_def MCHUNK_SIZE_def CHUNK_ALIGN_MASK_def
      MIN_CHUNK_SIZE_def TOP_FOOT_SIZE_def MIN_REQUEST_def sizeof_Chunk_def MAX_REQUEST_def)

lemmas field_defs =
  prev_foot_def head_def fd_def bk_def set_prev_foot_def set_head_def set_fd_def set_bk_def

lemma offset_eq_simps [simp]:
  "((p :: addr) + numeral a = p + numeral b) \<longleftrightarrow> (numeral a = (numeral b :: addr))"
  "((p :: addr) + numeral a = p) \<longleftrightarrow> (numeral a = (0 :: addr))"
  "((p :: addr) = p + numeral a) \<longleftrightarrow> (numeral a = (0 :: addr))"
  by auto

section \<open>Request padding\<close>

lemma unat_pad_request:
  assumes "unat req + 23 < 18446744073709551616"
  shows "unat (pad_request req) = 16 * ((unat req + 23) div 16)"
proof -
  have "unat (req + 23) = unat req + 23"
    using assms by (simp add: unat_add_64)
  then show ?thesis
    by (simp add: pad_request_def size_consts unat_and_minus_16 add.assoc)
qed

lemma less_MAX_REQUEST: "bytes < MAX_REQUEST \<longleftrightarrow> unat bytes < 18446744073709551488"
  by (simp add: size_consts word_less_nat_alt)

lemma unat_request2size:
  assumes "bytes < MAX_REQUEST"
  shows "unat (request2size bytes) =
    (if unat bytes < 23 then 32 else 16 * ((unat bytes + 23) div 16))"
  using assms unat_pad_request [of bytes]
  by (simp add: request2size_def less_MAX_REQUEST size_consts word_less_nat_alt)

text \<open>
  C35: \<open>request2size\<close> (the two macros with which \<open>Alloc\<close> turns a request into a chunk size) gives,
  for every request below \<open>MAX_REQUEST\<close>, the least multiple of the alignment that is at least
  the minimal chunk and holds the request plus the chunk overhead; no addition wraps.
\<close>

theorem request2size_least:
  assumes "bytes < MAX_REQUEST"
  shows "16 dvd unat (request2size bytes) \<and>
    unat MIN_CHUNK_SIZE \<le> unat (request2size bytes) \<and>
    unat bytes + unat CHUNK_OVERHEAD \<le> unat (request2size bytes) \<and>
    (\<forall>n. 16 dvd n \<and> unat MIN_CHUNK_SIZE \<le> n \<and> unat bytes + unat CHUNK_OVERHEAD \<le> n \<longrightarrow>
      unat (request2size bytes) \<le> n)"
  using assms by (auto simp: unat_request2size size_consts elim!: dvdE)

theorem request2size_least_witness:
  "(100 :: u64) < MAX_REQUEST \<and> 16 dvd unat (request2size 100) \<and> request2size 100 = 112"
proof -
  have h: "(100 :: u64) < MAX_REQUEST" by (simp add: size_consts)
  have "request2size 100 = 112" by (simp add: request2size_def pad_request_def size_consts)
  then show ?thesis using h request2size_least [OF h] by simp
qed

text \<open>
  The payload handed to the client starts 32 bytes into the chunk (\<open>TWO_SIZE_T_SIZES\<close> shifts
  by 2, not by 1), but the chunk size is computed for a payload that starts at 16. A request fits
  below the \<open>head\<close> field of the following chunk only when it is at most 8 bytes; every larger
  request hands out bytes that hold the size and flag bits of the next chunk.
\<close>

lemma payload_overruns_chunk:
  assumes "bytes < MAX_REQUEST"
  shows "unat (request2size bytes) + unat SIZE_T_SIZE < unat (chunk2mem p - p) + unat bytes
    \<longleftrightarrow> 8 < unat bytes"
proof -
  have "unat (chunk2mem p - p) = 32" by (simp add: chunk2mem_def size_consts)
  then show ?thesis
    using assms by (simp add: unat_request2size size_consts) arith
qed

lemma unat_align_offset: "unat (align_offset a) = (16 - unat a mod 16) mod 16"
proof (cases "a AND 15 = 0")
  case True
  then have "unat a mod 16 = 0" by (metis unat_0 unat_and_15)
  with True show ?thesis by (simp add: align_offset_def size_consts)
next
  case False
  have "unat a mod 16 < 16" by simp
  then have "a AND 15 \<le> 16" by (simp add: word_le_nat_alt unat_and_15)
  then have "unat (16 - (a AND 15)) = 16 - unat a mod 16"
    by (simp add: unat_sub_noov unat_and_15)
  with False show ?thesis by (simp add: align_offset_def size_consts unat_and_15)
qed

lemma round_up_16: "(n + (16 - n mod 16) mod 16) mod 16 = (0 :: nat)"
proof -
  define q r where "q = n div 16" and "r = n mod 16"
  have n: "n = 16 * q + r" and r: "r < 16" by (simp_all add: q_def r_def)
  have "(16 * q + r + (16 - r) mod 16) mod 16 = (0 :: nat)"
  proof (cases "r = 0")
    case True
    then show ?thesis by simp
  next
    case False
    then have "(16 - r) mod 16 = 16 - r" by (intro mod_less) simp
    then have "16 * q + r + (16 - r) mod 16 = 16 * (q + 1)" using r by simp
    then show ?thesis by (metis mod_mult_self1_is_0)
  qed
  then show ?thesis unfolding r_def [symmetric] by (subst n)
qed
lemma round_up_16_least:
  assumes "(n + d) mod 16 = (0 :: nat)"
  shows "(16 - n mod 16) mod 16 \<le> d"
proof (rule ccontr)
  assume contra: "\<not> ?thesis"
  have "n mod 16 < 16" by simp
  moreover have "n mod 16 \<noteq> 0" using contra by (cases "n mod 16 = 0") simp_all
  ultimately have "n mod 16 + d < 16" "0 < n mod 16 + d" using contra by simp_all
  moreover have "(n mod 16 + d) mod 16 = 0" using assms by (simp add: mod_add_left_eq)
  ultimately show False by simp
qed

text \<open>
  \<open>align_offset\<close> is the least number of bytes that moves an address to a 16-byte boundary.
\<close>

lemma align_offset_least:
  "unat (a + align_offset a) mod 16 = 0 \<and>
   (\<forall>d. (unat a + d) mod 16 = 0 \<longrightarrow> unat (align_offset a) \<le> d)"
proof -
  have "(x mod 18446744073709551616) mod 16 = x mod (16::nat)" for x
    by (rule mod_mod_cancel) simp
  then have "unat (a + align_offset a) mod 16 = 0"
    by (simp add: unat_add_64 unat_align_offset round_up_16)
  then show ?thesis
    unfolding unat_align_offset by (simp add: round_up_16_least)
qed

section \<open>Sizes and flag bits share the head word\<close>

lemma head_bits:
  assumes "s AND 7 = (0 :: u64)"
  shows "s AND NOT 7 = s" "s AND 1 = 0" "s AND 2 = 0" "s AND 3 = 0"
    and "(s OR 1) AND NOT 7 = s" "(s OR 3) AND NOT 7 = s"
    and "(s OR 1) AND 1 = 1" "(s OR 1) AND 2 = 0" "(s OR 1) AND 3 = 1"
    and "(s OR 3) AND 1 = 1" "(s OR 3) AND 2 = 2" "(s OR 3) AND 3 = 3"
proof -
  have sub: "s AND m = 0" if "7 AND m = m" for m
    using assms that by (metis and.assoc bit.conj_zero_left)
  have "s = (s AND 7) OR (s AND NOT 7)"
    by (metis bit.conj_disj_distrib bit.disj_cancel_right and.right_neutral)
  then show s7: "s AND NOT 7 = s" using assms by simp
  show s1: "s AND 1 = 0" "s AND 2 = 0" "s AND 3 = 0" by (rule sub; simp)+
  show "(s OR 1) AND NOT 7 = s" "(s OR 3) AND NOT 7 = s"
    using s7 by (simp_all add: bit.conj_disj_distrib2)
  show "(s OR 1) AND 1 = 1" "(s OR 1) AND 2 = 0" "(s OR 1) AND 3 = 1"
    "(s OR 3) AND 1 = 1" "(s OR 3) AND 2 = 2" "(s OR 3) AND 3 = 3"
    using s1 by (simp_all add: bit.conj_disj_distrib2)
qed

definition flag_free :: "u64 \<Rightarrow> bool" where
  "flag_free s \<longleftrightarrow> s AND FLAG_BITS = 0"

lemma flag_free_iff: "flag_free s \<longleftrightarrow> unat s mod 8 = 0"
proof -
  have "flag_free s \<longleftrightarrow> unat (s AND 7) = 0"
    by (simp add: flag_free_def size_consts unat_eq_0)
  then show ?thesis by (simp only: mask_numerals unat_and_mask) simp
qed

lemmas flag_defs = chunksize_def cinuse_def pinuse_def is_inuse_def size_consts

lemma head_set_head [simp]: "head (set_head h p v) q = (if q = p then v else head h q)"
  by (simp add: head_def set_head_def)

lemma head_set_foot:
  "q + 8 \<noteq> p + s \<Longrightarrow> head (set_foot h p s) q = head h q"
  by (simp add: head_def set_foot_def set_prev_foot_def)

lemma inuse_chunk_head:
  assumes "flag_free s"
  shows "let h' = set_size_and_pinuse_of_inuse_chunk h p s in
    chunksize h' p = s \<and> pinuse h' p \<noteq> 0 \<and> cinuse h' p \<noteq> 0 \<and> is_inuse h' p"
  using head_bits [of s] assms
  by (simp add: flag_free_def set_size_and_pinuse_of_inuse_chunk_def flag_defs Let_def or.assoc)

lemma free_chunk_head:
  assumes "flag_free s" and "s \<noteq> 8"
  shows "let h' = set_size_and_pinuse_of_free_chunk h p s in
    chunksize h' p = s \<and> pinuse h' p \<noteq> 0 \<and> cinuse h' p = 0 \<and> \<not> is_inuse h' p \<and> get_foot h' p s = s"
  using head_bits [of s] assms
  by (simp add: flag_free_def set_size_and_pinuse_of_free_chunk_def flag_defs Let_def head_set_foot)
    (simp add: get_foot_def set_foot_def set_prev_foot_def prev_foot_def)

text \<open>
  A size and the in-use flags share one word. For a size whose three low bits are clear, writing
  it as an in-use or as a free chunk reads back as the same size with exactly the intended flags,
  and the free form also reads back from the foot by which the following chunk finds it.
\<close>

lemma chunk_head_round_trip:
  assumes "flag_free s" and "s \<noteq> 8"
  shows "(let h' = set_size_and_pinuse_of_inuse_chunk h p s in
      chunksize h' p = s \<and> pinuse h' p \<noteq> 0 \<and> cinuse h' p \<noteq> 0 \<and> is_inuse h' p) \<and>
    (let h' = set_size_and_pinuse_of_free_chunk h p s in
      chunksize h' p = s \<and> pinuse h' p \<noteq> 0 \<and> cinuse h' p = 0 \<and> \<not> is_inuse h' p \<and>
      get_foot h' p s = s)"
  by (rule conjI [OF inuse_chunk_head [OF assms(1)] free_chunk_head [OF assms]])

theorem mem2chunk_chunk2mem: "mem2chunk (chunk2mem p) = p \<and> chunk2mem (mem2chunk m) = m"
  by (simp add: mem2chunk_def chunk2mem_def)

text \<open>
  \<open>next_chunk\<close> adds the chunk size to a \<open>Chunk*\<close> without the cast to \<open>char*\<close>, so it moves by
  32 times the size and lands behind the chunk that \<open>chunk_plus_offset\<close> (which \<open>Free\<close> uses) reaches.
\<close>

lemma next_chunk_steps_too_far:
  assumes "0 < unat (chunksize h p)" and "unat p + 32 * unat (chunksize h p) < 18446744073709551616"
  shows "unat (next_chunk h p) = unat p + 32 * unat (chunksize h p) \<and>
    unat (chunk_plus_offset p (chunksize h p)) < unat (next_chunk h p)"
proof -
  let ?s = "chunksize h p"
  have "unat (32 * ?s) = 32 * unat ?s"
    using assms(2) by (simp add: unat_word_ariths)
  moreover have "next_chunk h p = p + 32 * ?s"
    by (simp only: next_chunk_def chunksize_def size_consts)
  ultimately have "unat (next_chunk h p) = unat p + 32 * unat ?s"
    using assms(2) by (simp add: unat_add_64)
  moreover have "unat (chunk_plus_offset p ?s) = unat p + unat ?s"
    using assms(2) by (simp add: chunk_plus_offset_def unat_add_64)
  ultimately show ?thesis using assms(1) by simp
qed

end
