(* ===== verification/Malloc_State.thy ===== *)
theory Malloc_State
  imports Chunk
begin

text \<open>
  \<open>struct MallocState\<close> of \<open>uni_allocator/uni_allocator.h\<close>: its fields as a record, the initialisers
  \<open>init_top\<close> and \<open>init_bins\<close>, the two bitmaps \<open>smallmap\<close> and \<open>treemap\<close> and the bit tricks on them.
  The contract of a bitmap is the locale \<open>bin_map\<close>, which both maps interpret.

  The array \<open>smallbins\<close> is not a field of the record: \<open>smallbin_at\<close> reinterprets a pointer into it as
  a \<open>Chunk*\<close>, so its cells belong to the same heap \<open>mem\<close> as the chunks, at offset 72 of the object,
  whose own address is \<open>gm_addr\<close>. The fields \<open>footprint\<close>, \<open>max_footprint\<close>, \<open>footprint_limit\<close>,
  \<open>mflags\<close>, \<open>extp\<close> and \<open>exts\<close> are declared in the struct and used by no operation.
\<close>

unbundle bit_operations_syntax

section \<open>Bin types, widths and sizes\<close>

definition NSMALLBINS :: u32 where "NSMALLBINS = 32"
definition NTREEBINS :: u32 where "NTREEBINS = 32"
definition SMALLBIN_SHIFT :: nat where "SMALLBIN_SHIFT = 3"
definition SMALLBIN_WIDTH :: u64 where "SMALLBIN_WIDTH = push_bit SMALLBIN_SHIFT SIZE_T_ONE"
definition TREEBIN_SHIFT :: nat where "TREEBIN_SHIFT = 8"
definition MIN_LARGE_SIZE :: u64 where "MIN_LARGE_SIZE = push_bit TREEBIN_SHIFT SIZE_T_ONE"
definition MAX_SMALL_SIZE :: u64 where "MAX_SMALL_SIZE = MIN_LARGE_SIZE - SIZE_T_ONE"
definition MAX_SMALL_REQUEST :: u64 where
  "MAX_SMALL_REQUEST = MAX_SMALL_SIZE - CHUNK_ALIGN_MASK - CHUNK_OVERHEAD"
definition MAX_SIZE_T :: u64 where "MAX_SIZE_T = NOT 0"

definition is_small :: "u64 \<Rightarrow> bool" where
  "is_small s \<longleftrightarrow> drop_bit SMALLBIN_SHIFT s < ucast NSMALLBINS"
definition small_index :: "u64 \<Rightarrow> u32" where
  "small_index s = ucast (drop_bit SMALLBIN_SHIFT s)"
definition small_index2size :: "u32 \<Rightarrow> u32" where
  "small_index2size i = push_bit SMALLBIN_SHIFT i"
definition MIN_SMALL_INDEX :: u32 where "MIN_SMALL_INDEX = small_index MIN_CHUNK_SIZE"

definition MAX_RELEASE_CHECK_RATE :: u64 where "MAX_RELEASE_CHECK_RATE = MAX_SIZE_T"
definition DEFAULT_TRIM_THRESHOLD :: u64 where "DEFAULT_TRIM_THRESHOLD = 2 * 1024 * 1024"

section \<open>The state\<close>

record mstate =
  smallmap :: u32
  treemap :: u32
  dvsize :: u64
  topsize :: u64
  least_addr :: addr
  dv :: addr
  top_chunk :: addr
  trim_check :: u64
  release_checks :: u64
  magic :: u64
  treebins :: "addr list"
  footprint :: u64
  max_footprint :: u64
  footprint_limit :: u64
  mflags :: u32
  extp :: addr
  exts :: u64
  gm_addr :: addr
  mem :: heap

text \<open>A step that only writes the heap.\<close>

definition upd_mem :: "(heap \<Rightarrow> heap) \<Rightarrow> mstate \<Rightarrow> mstate" where
  "upd_mem f s = s\<lparr>mem := f (mem s)\<rparr>"

definition SMALLBINS_OFFSET :: u64 where "SMALLBINS_OFFSET = 72"

definition smallbin_at :: "mstate \<Rightarrow> u32 \<Rightarrow> addr" where
  "smallbin_at s i = gm_addr s + SMALLBINS_OFFSET + 8 * push_bit 1 (ucast i)"

definition treebin_at :: "mstate \<Rightarrow> u32 \<Rightarrow> addr" where
  "treebin_at s i = treebins s ! unat i"

definition set_treebin_at :: "u32 \<Rightarrow> addr \<Rightarrow> mstate \<Rightarrow> mstate" where
  "set_treebin_at i v s = s\<lparr>treebins := (treebins s)[unat i := v]\<rparr>"

section \<open>Inits\<close>

definition is_initialized :: "mstate \<Rightarrow> bool" where
  "is_initialized s \<longleftrightarrow> top_chunk s \<noteq> 0"

definition init_top :: "mstate \<Rightarrow> addr \<Rightarrow> u64 \<Rightarrow> mstate" where
  "init_top s p psize =
     (let offset = align_offset (chunk2mem p);
          p = p + offset;
          psize = psize - offset;
          s1 = s\<lparr>top_chunk := p, topsize := psize\<rparr>;
          s2 = upd_mem (\<lambda>h. set_head h p (psize OR PINUSE_BIT)) s1;
          s3 = upd_mem (\<lambda>h. set_head h (chunk_plus_offset p psize) TOP_FOOT_SIZE) s2
      in s3\<lparr>trim_check := DEFAULT_TRIM_THRESHOLD\<rparr>)"

definition init_bins :: "mstate \<Rightarrow> mstate" where
  "init_bins s =
     fold (\<lambda>i s. let bin = smallbin_at s (of_nat i) in upd_mem (\<lambda>h. set_fd (set_bk h bin bin) bin bin) s)
       [0..<unat NSMALLBINS] s"

section \<open>Bitmaps\<close>

definition idx2bit :: "u32 \<Rightarrow> u32" where
  "idx2bit i = push_bit (unat i) 1"

definition mark_smallmap :: "u32 \<Rightarrow> mstate \<Rightarrow> mstate" where
  "mark_smallmap i s = s\<lparr>smallmap := smallmap s OR idx2bit i\<rparr>"
definition clear_smallmap :: "u32 \<Rightarrow> mstate \<Rightarrow> mstate" where
  "clear_smallmap i s = s\<lparr>smallmap := smallmap s AND NOT (idx2bit i)\<rparr>"
definition smallmap_is_marked :: "mstate \<Rightarrow> u32 \<Rightarrow> u32" where
  "smallmap_is_marked s i = smallmap s AND idx2bit i"

definition mark_treemap :: "u32 \<Rightarrow> mstate \<Rightarrow> mstate" where
  "mark_treemap i s = s\<lparr>treemap := treemap s OR idx2bit i\<rparr>"
definition clear_treemap :: "u32 \<Rightarrow> mstate \<Rightarrow> mstate" where
  "clear_treemap i s = s\<lparr>treemap := treemap s AND NOT (idx2bit i)\<rparr>"
definition treemap_is_marked :: "mstate \<Rightarrow> u32 \<Rightarrow> u32" where
  "treemap_is_marked s i = treemap s AND idx2bit i"

definition least_bit :: "u32 \<Rightarrow> u32" where
  "least_bit x = x AND (- x)"

definition left_bits :: "u32 \<Rightarrow> u32" where
  "left_bits x = push_bit 1 x OR - push_bit 1 x"

text \<open>
  \<open>__builtin_ctz\<close> and \<open>__builtin_clz\<close> on \<open>unsigned int\<close>. The builtins are undefined at 0, where
  the model gives 32; no caller passes 0 (the lemmas on the callers show it).
\<close>

definition builtin_ctz :: "u32 \<Rightarrow> nat" where
  "builtin_ctz x = first_index (bit x) 32"
definition builtin_clz :: "u32 \<Rightarrow> nat" where
  "builtin_clz x = first_index (\<lambda>i. bit x (31 - i)) 32"

definition compute_bit2idx :: "u32 \<Rightarrow> u32" where
  "compute_bit2idx x = of_nat (builtin_ctz x)"

section \<open>Address and bookkeeping checks\<close>

definition ok_address :: "mstate \<Rightarrow> addr \<Rightarrow> bool" where
  "ok_address s a \<longleftrightarrow> least_addr s \<le> a"

definition set_inuse_and_pinuse :: "addr \<Rightarrow> u64 \<Rightarrow> mstate \<Rightarrow> mstate" where
  "set_inuse_and_pinuse p sz s =
     (let s1 = upd_mem (\<lambda>h. set_head h p (sz OR PINUSE_BIT OR CINUSE_BIT)) s
      in upd_mem (\<lambda>h. set_head h (p + sz) (head h (p + sz) OR PINUSE_BIT)) s1)"

definition gm_set_size_and_pinuse_of_inuse_chunk :: "addr \<Rightarrow> u64 \<Rightarrow> mstate \<Rightarrow> mstate" where
  "gm_set_size_and_pinuse_of_inuse_chunk p sz s =
     upd_mem (\<lambda>h. set_head h p (sz OR PINUSE_BIT OR CINUSE_BIT)) s"

definition should_trim :: "mstate \<Rightarrow> u64 \<Rightarrow> bool" where
  "should_trim s sz \<longleftrightarrow> trim_check s < sz"

definition sys_trim :: "mstate \<Rightarrow> u64 \<Rightarrow> int" where
  "sys_trim s pad = 1"

section \<open>Marks of a bitmap\<close>

lemma bit_u32_lt: "bit (x :: u32) k \<Longrightarrow> k < 32"
  using bit_imp_le_length [of x k] by simp

lemma bit_idx2bit: "bit (idx2bit i) k \<longleftrightarrow> k = unat i \<and> k < 32"
  by (auto simp: idx2bit_def bit_simps)

lemma and_idx2bit_neq_0: "x AND idx2bit i \<noteq> 0 \<longleftrightarrow> bit x (unat i)"
proof -
  have "x AND idx2bit i \<noteq> 0 \<longleftrightarrow> (\<exists>k. bit x k \<and> bit (idx2bit i) k)"
    by (simp add: bit_eq_iff bit_and_iff) (blast dest: bit_u32_lt)
  also have "\<dots> \<longleftrightarrow> bit x (unat i)"
    by (auto simp: bit_idx2bit dest: bit_u32_lt)
  finally show ?thesis .
qed

text \<open>
  The contract of a bitmap of 32 bins: marking and clearing a bin change the mark of that bin and of
  no other. \<open>smallmap\<close> and \<open>treemap\<close> are two copies of it in the code.
\<close>

locale bin_map =
  fixes mark clear :: "u32 \<Rightarrow> 's \<Rightarrow> 's" and is_marked :: "'s \<Rightarrow> u32 \<Rightarrow> u32"
  assumes is_marked_mark: "unat i < 32 \<Longrightarrow> is_marked (mark i s) j \<noteq> 0 \<longleftrightarrow> j = i \<or> is_marked s j \<noteq> 0"
    and is_marked_clear: "is_marked (clear i s) j \<noteq> 0 \<longleftrightarrow> j \<noteq> i \<and> is_marked s j \<noteq> 0"
begin

definition marks :: "'s \<Rightarrow> u32 set" where
  "marks s = {i. is_marked s i \<noteq> 0}"

lemma marks_mark: "unat i < 32 \<Longrightarrow> marks (mark i s) = insert i (marks s)"
  by (auto simp: marks_def is_marked_mark)

lemma marks_clear: "marks (clear i s) = marks s - {i}"
  by (auto simp: marks_def is_marked_clear)

lemma marks_clear_mark: "unat i < 32 \<Longrightarrow> i \<notin> marks s \<Longrightarrow> marks (clear i (mark i s)) = marks s"
  by (simp add: marks_mark marks_clear)

end

interpretation small: bin_map mark_smallmap clear_smallmap smallmap_is_marked
  by unfold_locales
    (auto simp: mark_smallmap_def clear_smallmap_def smallmap_is_marked_def and_idx2bit_neq_0
      bit_or_iff bit_and_iff bit_not_iff bit_idx2bit word_unat_eq_iff [symmetric] dest: bit_u32_lt)

interpretation tree: bin_map mark_treemap clear_treemap treemap_is_marked
  by unfold_locales
    (auto simp: mark_treemap_def clear_treemap_def treemap_is_marked_def and_idx2bit_neq_0
      bit_or_iff bit_and_iff bit_not_iff bit_idx2bit word_unat_eq_iff [symmetric] dest: bit_u32_lt)

section \<open>Isolating and masking bits\<close>

text \<open>Two's complement negation of a word whose least set bit is \<open>l\<close>.\<close>

lemma bit_uminus_least:
  fixes y :: "'a::len word"
  assumes l: "bit y l" and below: "\<And>j. j < l \<Longrightarrow> \<not> bit y j"
  shows "bit (- y) k \<longleftrightarrow> k < LENGTH('a) \<and> (k = l \<or> l < k \<and> \<not> bit y k)"
proof -
  have len: "l < LENGTH('a)" using l by (rule bit_imp_le_length)
  let ?z = "y AND NOT (push_bit l 1)"
  have "y = ?z OR push_bit l 1"
    by (rule bit_word_eqI) (use l len in \<open>auto simp: bit_simps\<close>)
  also have "\<dots> = ?z + push_bit l 1"
    by (rule disjunctive_add [symmetric]) (auto simp: bit_simps)
  finally have y: "y = ?z + push_bit l 1" .
  have m: "push_bit l (1 :: 'a word) - 1 = mask l"
    by (simp add: mask_eq_exp_minus_1 push_bit_eq_mult)
  have "y - 1 = ?z + mask l"
    using y m by (metis add_diff_eq)
  also have "\<dots> = ?z OR mask l"
    by (rule disjunctive_add) (use below in \<open>auto simp: bit_simps\<close>)
  finally have "- y = NOT (?z OR mask l)"
    by (simp only: minus_eq_not_minus_1)
  then show ?thesis
    using l below len by (auto simp: bit_simps)
qed

lemma ctz_bit:
  assumes "x \<noteq> 0"
  shows "builtin_ctz x < 32" "bit x (builtin_ctz x)" "\<And>j. j < builtin_ctz x \<Longrightarrow> \<not> bit x j"
proof -
  show below: "\<And>j. j < builtin_ctz x \<Longrightarrow> \<not> bit x j"
    unfolding builtin_ctz_def by (rule first_index_before)
  show lt: "builtin_ctz x < 32"
  proof (rule ccontr)
    assume "\<not> builtin_ctz x < 32"
    then have "\<not> bit x j" for j
      using below [of j] bit_imp_le_length [of x j] by fastforce
    with assms show False by (simp add: bit_eq_iff)
  qed
  then show "bit x (builtin_ctz x)"
    unfolding builtin_ctz_def by (rule first_index_holds)
qed

lemma unat_of_nat_lt_32: "n < 32 \<Longrightarrow> unat (of_nat n :: u32) = n"
  by (simp add: unat_of_nat)

lemma treemap_eq_0_iff: "treemap s = 0 \<longleftrightarrow> tree.marks s = {}"
proof
  assume "tree.marks s = {}"
  then have *: "\<not> bit (treemap s) (unat i)" for i :: u32
    by (auto simp: tree.marks_def treemap_is_marked_def and_idx2bit_neq_0)
  show "treemap s = 0"
  proof (rule ccontr)
    assume "treemap s \<noteq> 0"
    then show False
      using ctz_bit [of "treemap s"] * [of "of_nat (builtin_ctz (treemap s))"]
      by (simp add: unat_of_nat_lt_32)
  qed
qed (simp add: tree.marks_def treemap_is_marked_def)

lemma least_bit_idx:
  assumes "x \<noteq> 0"
  shows "let i = compute_bit2idx (least_bit x) in
    unat i < 32 \<and> least_bit x = idx2bit i \<and> x AND idx2bit i \<noteq> 0 \<and>
    (\<forall>j. j < i \<longrightarrow> x AND idx2bit j = 0)"
proof -
  let ?l = "builtin_ctz x"
  note l = ctz_bit [OF assms]
  have u: "bit (- x) k \<longleftrightarrow> k < 32 \<and> (k = ?l \<or> ?l < k \<and> \<not> bit x k)" for k
    using bit_uminus_least [of x ?l k] l(2,3) by simp
  have lb: "least_bit x = idx2bit (of_nat ?l)"
  proof (rule bit_word_eqI)
    fix n assume "n < LENGTH(32)"
    then show "bit (least_bit x) n = bit (idx2bit (of_nat ?l)) n"
      unfolding least_bit_def bit_and_iff u bit_idx2bit
      using l by (auto simp: unat_of_nat_lt_32)
  qed
  have "builtin_ctz (idx2bit (of_nat ?l)) = ?l"
    unfolding builtin_ctz_def
    by (rule first_index_unique) (use l(1) in \<open>simp_all add: bit_idx2bit unat_of_nat_lt_32 builtin_ctz_def [symmetric]\<close>)
  then have "compute_bit2idx (least_bit x) = of_nat ?l"
    by (simp add: compute_bit2idx_def lb)
  moreover have "x AND idx2bit j = 0" if "j < of_nat ?l" for j :: u32
  proof -
    have "unat j < ?l" using that l(1) by (simp add: word_less_nat_alt unat_of_nat_lt_32)
    then show ?thesis using and_idx2bit_neq_0 [of x j] l(3) by blast
  qed
  moreover have "x AND idx2bit (of_nat ?l) \<noteq> 0"
    using l by (simp add: and_idx2bit_neq_0 unat_of_nat_lt_32)
  ultimately show ?thesis
    using l(1) lb by (simp add: Let_def unat_of_nat_lt_32)
qed

text \<open>
  \<open>least_bit\<close> and \<open>compute_bit2idx\<close> together return, for a non-empty bitmap, the least marked bin:
  the bit at the returned index is set and every bin below it is unmarked.
\<close>

lemma least_bit_index:
  assumes "x \<noteq> 0"
  shows "let i = compute_bit2idx (least_bit x) in
    unat i < 32 \<and> least_bit x = idx2bit i \<and> x AND idx2bit i \<noteq> 0 \<and>
    (\<forall>j. j < i \<longrightarrow> x AND idx2bit j = 0)"
  using assms by (rule least_bit_idx)

lemma bit_push_bit_1: "bit (push_bit 1 (x :: u32)) k \<longleftrightarrow> 0 < k \<and> k < 32 \<and> bit x (k - 1)"
  unfolding bit_push_bit_iff by auto

lemma bit_left_bits:
  assumes l: "bit x l" and below: "\<And>j. j < l \<Longrightarrow> \<not> bit x j"
  shows "bit (left_bits x) k \<longleftrightarrow> l < k \<and> k < 32"
proof (cases "Suc l < 32")
  case True
  have 1: "bit (push_bit 1 x) (Suc l)" using l True by (simp only: bit_push_bit_1) simp
  have 2: "\<And>j. j < Suc l \<Longrightarrow> \<not> bit (push_bit 1 x) j"
    using below by (auto simp only: bit_push_bit_1)
  show ?thesis
    using bit_uminus_least [OF 1 2, of k] 1 2
    by (auto simp only: left_bits_def bit_or_iff not_less less_Suc_eq_le Suc_le_eq dest: bit_u32_lt) auto
next
  case False
  have "push_bit 1 x = 0"
  proof (rule bit_word_eqI)
    fix n assume "n < LENGTH(32)"
    then show "bit (push_bit 1 x) n = bit 0 n"
      unfolding bit_push_bit_1 using below [of "n - 1"] False by auto
  qed
  then show ?thesis using False by (auto simp: left_bits_def)
qed

text \<open>
  \<open>left_bits\<close> masks exactly the bins above the least one of its argument, so that
  \<open>left_bits (idx2bit i)\<close> selects the bins with an index greater than \<open>i\<close>.
\<close>

lemma left_bits_above:
  assumes "unat i < 32"
  shows "left_bits (idx2bit i) AND idx2bit j \<noteq> 0 \<longleftrightarrow> i < j \<and> unat j < 32"
  using bit_left_bits [of "idx2bit i" "unat i"] assms
  by (simp add: and_idx2bit_neq_0 bit_idx2bit word_less_nat_alt)

end
