(* ===== verification/Small_Bins.thy ===== *)
theory Small_Bins
  imports Malloc_State
begin

text \<open>
  The small bins of \<open>MallocState\<close>: \<open>insert_small_chunk\<close>, \<open>unlink_first_small_chunk\<close>,
  \<open>unlink_small_chunk\<close> and \<open>replace_dv\<close>. Each bin is a circular doubly linked list through the
  \<open>fd\<close> and \<open>bk\<close> cells of its header and its chunks, with a mark in \<open>smallmap\<close> when it is not empty.
  The abstract view is a list of chunks per bin (\<open>small_bins\<close>); the operations refine consing to,
  popping from and removing from that list, and leave every other bin alone.
\<close>

unbundle bit_operations_syntax

section \<open>Operations\<close>

definition unlink_first_small_chunk :: "addr \<Rightarrow> addr \<Rightarrow> u32 \<Rightarrow> mstate \<Rightarrow> (mstate, unit) comp" where
  "unlink_first_small_chunk B P I s =
     (let F = fd (mem s) P
      in if B = F then ret () (clear_smallmap I s)
         else if ok_address s F \<and> bk (mem s) F = P
         then ret () (upd_mem (\<lambda>h. set_fd (set_bk h F B) B F) s)
         else throw Memory_Corrupted s)"

definition insert_small_chunk :: "addr \<Rightarrow> u64 \<Rightarrow> mstate \<Rightarrow> (mstate, unit) comp" where
  "insert_small_chunk P S s =
     (let I = small_index S; B = smallbin_at s I
      in if \<not> MIN_CHUNK_SIZE \<le> S then throw Assertion_Failed s
         else cbind
           (if smallmap_is_marked s I = 0 then ret B (mark_smallmap I s)
            else if ok_address s (fd (mem s) B) then ret (fd (mem s) B) s
            else throw Memory_Corrupted s)
           (\<lambda>F s. ret () (upd_mem (\<lambda>h. set_bk (set_fd (set_bk (set_fd h B P) F P) P F) P B) s)))"

definition replace_dv :: "addr \<Rightarrow> u64 \<Rightarrow> mstate \<Rightarrow> (mstate, unit) comp" where
  "replace_dv P S s =
     (let DVS = dvsize s
      in if \<not> is_small DVS then throw Assertion_Failed s
         else cbind (if DVS \<noteq> 0 then insert_small_chunk (dv s) DVS s else ret () s)
           (\<lambda>_ s. ret () (s\<lparr>dvsize := S, dv := P\<rparr>)))"

definition unlink_small_chunk :: "addr \<Rightarrow> u64 \<Rightarrow> mstate \<Rightarrow> (mstate, unit) comp" where
  "unlink_small_chunk P S s =
     (let F = fd (mem s) P; B = bk (mem s) P; I = small_index S
      in if F = smallbin_at s I \<or> ok_address s F \<and> bk (mem s) F = P
         then if B = F then ret () (clear_smallmap I s)
              else if B = smallbin_at s I \<or> ok_address s B \<and> fd (mem s) B = P
              then ret () (upd_mem (\<lambda>h. set_fd (set_bk h F B) B F) s)
              else throw Memory_Corrupted s
         else throw Memory_Corrupted s)"

section \<open>Rings in the heap\<close>

text \<open>\<open>links h xs\<close>: consecutive nodes of \<open>xs\<close> are joined by \<open>fd\<close> and \<open>bk\<close>.\<close>

fun links :: "heap \<Rightarrow> addr list \<Rightarrow> bool" where
  "links h (x # y # r) \<longleftrightarrow> fd h x = y \<and> bk h y = x \<and> links h (y # r)"
| "links h _ \<longleftrightarrow> True"

lemma links_append:
  "xs \<noteq> [] \<Longrightarrow> ys \<noteq> [] \<Longrightarrow>
   links h (xs @ ys) \<longleftrightarrow> links h xs \<and> fd h (last xs) = hd ys \<and> bk h (hd ys) = last xs \<and> links h ys"
proof (induction xs rule: induct_list012)
  case (2 x)
  then show ?case by (cases ys) auto
qed auto

lemma links_cong:
  "(\<And>x. x \<in> set (butlast xs) \<Longrightarrow> fd h' x = fd h x) \<Longrightarrow> (\<And>x. x \<in> set (tl xs) \<Longrightarrow> bk h' x = bk h x) \<Longrightarrow>
   links h' xs \<longleftrightarrow> links h xs"
  by (induction xs rule: induct_list012) auto

definition ring :: "heap \<Rightarrow> addr \<Rightarrow> addr list \<Rightarrow> bool" where
  "ring h b ps \<longleftrightarrow> links h (b # ps @ [b]) \<and> distinct (b # ps)"

lemma ring_cong:
  assumes "\<And>x. x \<in> set (b # ps) \<Longrightarrow> fd h' x = fd h x \<and> bk h' x = bk h x"
  shows "ring h' b ps \<longleftrightarrow> ring h b ps"
proof -
  have "links h' (b # ps @ [b]) \<longleftrightarrow> links h (b # ps @ [b])"
    by (rule links_cong) (use assms in \<open>auto dest: in_set_butlastD\<close>)
  then show ?thesis by (simp add: ring_def)
qed

text \<open>
  No \<open>fd\<close> cell of a node is the \<open>bk\<close> cell of another: true of the nodes of the allocator because
  no two of them are 8 bytes apart.
\<close>

definition apart :: "addr set \<Rightarrow> bool" where
  "apart N \<longleftrightarrow> (\<forall>x\<in>N. \<forall>y\<in>N. x \<noteq> y + 8)"

lemma fd_bk_cells:
  assumes "apart N" "x \<in> N" "y \<in> N"
  shows "x + 16 \<noteq> y + 24"
proof
  assume "x + 16 = y + 24"
  then have "x = y + 8" by (simp add: algebra_simps)
  then show False using assms by (auto simp: apart_def)
qed

lemma apart_subset: "apart N \<Longrightarrow> M \<subseteq> N \<Longrightarrow> apart M"
  by (auto simp: apart_def)

lemma links_cell_simps:
  "fd (set_fd h p v) q = (if q = p then v else fd h q)"
  "bk (set_bk h p v) q = (if q = p then v else bk h q)"
  by (simp_all add: field_defs)

lemma fd_set_bk: "apart N \<Longrightarrow> p \<in> N \<Longrightarrow> q \<in> N \<Longrightarrow> fd (set_bk h p v) q = fd h q"
  using fd_bk_cells [of N q p] by (simp add: field_defs)

lemma bk_set_fd: "apart N \<Longrightarrow> p \<in> N \<Longrightarrow> q \<in> N \<Longrightarrow> bk (set_fd h p v) q = bk h q"
  using fd_bk_cells [of N p q] by (simp add: field_defs)

lemma last_notin_butlast: "distinct xs \<Longrightarrow> xs \<noteq> [] \<Longrightarrow> last xs \<notin> set (butlast xs)"
  by (induction xs) auto

lemma hd_notin_tl: "distinct xs \<Longrightarrow> xs \<noteq> [] \<Longrightarrow> hd xs \<notin> set (tl xs)"
  by (cases xs) auto

lemma snoc_neq: "xs @ [x] \<noteq> []"
  by simp

text \<open>Unlinking the node between \<open>B\<close> and \<open>F\<close>, and linking a node behind the header.\<close>

lemma ring_neighbours:
  assumes "ring h b (xs @ p # ys)"
  shows "fd h p = hd (ys @ [b]) \<and> bk h p = last (b # xs) \<and>
    bk h (hd (ys @ [b])) = p \<and> fd h (last (b # xs)) = p \<and>
    links h (b # xs) \<and> links h (ys @ [b])"
proof -
  have l: "links h ((b # xs) @ ([p] @ (ys @ [b])))" using assms by (simp add: ring_def)
  show ?thesis
    using iffD1 [OF links_append l] links_append [of "[p]" "ys @ [b]" h] by simp
qed

lemma ring_remove:
  assumes r: "ring h b (xs @ p # ys)" and ap: "apart (set (b # xs @ p # ys))"
    and F: "F = hd (ys @ [b])" and B: "B = last (b # xs)"
  shows "ring (set_fd (set_bk h F B) B F) b (xs @ ys)"
proof -
  let ?h = "set_fd (set_bk h F B) B F" and ?N = "set (b # xs @ p # ys)"
  have d: "distinct (b # xs)" "distinct (ys @ [b])" "set (b # xs) \<inter> set ys = {}" "b \<notin> set xs"
    "distinct (b # xs @ ys)"
    using r by (auto simp: ring_def)
  have Bin: "B \<in> set (b # xs)" unfolding B by (rule last_in_set) simp
  have Fin: "F \<in> set (ys @ [b])" unfolding F by (rule hd_in_set) simp
  have N: "F \<in> ?N" "B \<in> ?N" using Bin Fin by auto
  have fd: "fd ?h x = (if x = B then F else fd h x)" if "x \<in> ?N" for x
    using fd_set_bk [OF ap N(1) that] by (simp add: links_cell_simps)
  have bk: "bk ?h x = (if x = F then B else bk h x)" if "x \<in> ?N" for x
    using bk_set_fd [OF ap N(2) that] by (simp add: links_cell_simps)
  note old = ring_neighbours [OF r]
  have "links ?h (b # xs) \<longleftrightarrow> links h (b # xs)"
  proof (rule links_cong)
    fix x assume x: "x \<in> set (butlast (b # xs))"
    then have "x \<noteq> B" using last_notin_butlast [OF d(1)] unfolding B by blast
    moreover have "x \<in> ?N" using x by (auto dest!: in_set_butlastD split: if_splits)
    ultimately show "fd ?h x = fd h x" by (simp add: fd)
  next
    fix x assume x: "x \<in> set (tl (b # xs))"
    then have "x \<noteq> F" using Fin d(3,4) by auto
    moreover have "x \<in> ?N" using x by auto
    ultimately show "bk ?h x = bk h x" by (simp add: bk)
  qed
  moreover have "links ?h (ys @ [b]) \<longleftrightarrow> links h (ys @ [b])"
  proof (rule links_cong)
    fix x assume x: "x \<in> set (butlast (ys @ [b]))"
    then have "x \<noteq> B" using Bin d(3) by auto
    moreover have "x \<in> ?N" using x by auto
    ultimately show "fd ?h x = fd h x" by (simp add: fd)
  next
    fix x assume x: "x \<in> set (tl (ys @ [b]))"
    then have "x \<noteq> F" using hd_notin_tl [OF d(2)] unfolding F by auto
    moreover have "x \<in> ?N" using x by (auto dest!: list.set_sel(2) [rotated] simp: tl_append split: list.splits)
    ultimately show "bk ?h x = bk h x" by (simp add: bk)
  qed
  moreover have "fd ?h B = F" "bk ?h F = B"
    using N by (simp_all only: fd bk if_True refl)
  ultimately have "links ?h ((b # xs) @ (ys @ [b]))"
    using old unfolding links_append [of "b # xs" "ys @ [b]", OF list.distinct(2) snoc_neq]
    by (simp only: F [symmetric] B [symmetric])
  then show ?thesis using d(5) by (simp add: ring_def)
qed

lemma ring_push:
  assumes r: "ps \<noteq> [] \<Longrightarrow> ring h b ps" and p: "p \<notin> set (b # ps)" and ap: "apart (insert p (set (b # ps)))"
    and F: "F = hd (ps @ [b])"
  shows "ring (set_bk (set_fd (set_bk (set_fd h b p) F p) p F) p b) b (p # ps)"
proof -
  let ?h = "set_bk (set_fd (set_bk (set_fd h b p) F p) p F) p b" and ?N = "insert p (set (b # ps))"
  have Fin: "F \<in> set (ps @ [b])" unfolding F by (rule hd_in_set) simp
  have N: "F \<in> ?N" "b \<in> ?N" "p \<in> ?N" using Fin by auto
  have fd: "fd ?h x = (if x = p then F else if x = b then p else fd h x)" if "x \<in> ?N" for x
    using fd_set_bk [OF ap N(1) that] fd_set_bk [OF ap N(3) that] by (simp add: links_cell_simps)
  have bk: "bk ?h x = (if x = p then b else if x = F then p else bk h x)" if "x \<in> ?N" for x
    using bk_set_fd [OF ap N(2) that] bk_set_fd [OF ap N(3) that] by (simp add: links_cell_simps)
  have d: "distinct (ps @ [b])" using r by (cases "ps = []") (auto simp: ring_def)
  have "links ?h (ps @ [b])"
  proof (cases "ps = []")
    case False
    have "links h ([b] @ (ps @ [b]))" using r [OF False] by (simp add: ring_def)
    then have "links h (ps @ [b])" by (subst (asm) links_append) auto
    moreover have "links ?h (ps @ [b]) \<longleftrightarrow> links h (ps @ [b])"
    proof (rule links_cong)
      fix x assume "x \<in> set (butlast (ps @ [b]))"
      then have "x \<in> ?N" "x \<noteq> p" "x \<noteq> b" using p d by auto
      then show "fd ?h x = fd h x" by (simp add: fd)
    next
      fix x assume x: "x \<in> set (tl (ps @ [b]))"
      then have "x \<in> set (ps @ [b])" by (metis list.set_sel(2) tl_Nil)
      then have xN: "x \<in> ?N" "x \<noteq> p" using p by auto
      have "x \<noteq> F" using x hd_notin_tl [OF d] unfolding F by auto
      then show "bk ?h x = bk h x" using bk [OF xN(1)] xN(2) by simp
    qed
    ultimately show ?thesis by blast
  qed simp
  moreover have "fd ?h b = p" "fd ?h p = F" "bk ?h p = b" "bk ?h F = p"
    using p N Fin by (auto simp: fd bk)
  ultimately have "links ?h ([b, p] @ (ps @ [b]))"
    by (subst links_append) (simp_all add: F)
  then show ?thesis using p d by (auto simp: ring_def)
qed

section \<open>The small bins as lists\<close>

definition bin_list :: "mstate \<Rightarrow> u32 \<Rightarrow> addr list \<Rightarrow> bool" where
  "bin_list s i ps \<longleftrightarrow>
     (if ps = [] then smallmap_is_marked s i = 0
      else smallmap_is_marked s i \<noteq> 0 \<and> ring (mem s) (smallbin_at s i) ps)"

definition bin_headers :: "mstate \<Rightarrow> addr set" where
  "bin_headers s = smallbin_at s ` {i. i < NSMALLBINS}"

definition bin_nodes :: "mstate \<Rightarrow> (u32 \<Rightarrow> addr list) \<Rightarrow> addr set" where
  "bin_nodes s L = bin_headers s \<union> (\<Union>i\<in>{i. i < NSMALLBINS}. set (L i))"

text \<open>
  \<open>small_bins s L\<close>: bin \<open>i\<close> holds the chunks \<open>L i\<close> in the order of its \<open>fd\<close> links. Chunks are
  in one bin only, are no bin header, pass \<open>ok_address\<close>, and no two nodes are 8 bytes apart.
\<close>

definition small_bins :: "mstate \<Rightarrow> (u32 \<Rightarrow> addr list) \<Rightarrow> bool" where
  "small_bins s L \<longleftrightarrow>
     (\<forall>i<NSMALLBINS. bin_list s i (L i)) \<and>
     (\<forall>i<NSMALLBINS. \<forall>j<NSMALLBINS. i \<noteq> j \<longrightarrow> set (L i) \<inter> set (L j) = {}) \<and>
     (\<forall>i<NSMALLBINS. \<forall>p\<in>set (L i). p \<notin> bin_headers s \<and> ok_address s p) \<and>
     apart (bin_nodes s L)"

lemma less_NSMALLBINS: "i < NSMALLBINS \<longleftrightarrow> unat i < 32"
  by (simp add: NSMALLBINS_def word_less_nat_alt)

lemma smallbin_at_inj:
  assumes "i < NSMALLBINS" "j < NSMALLBINS" "smallbin_at s i = smallbin_at s j"
  shows "i = j"
proof -
  have u: "unat (8 * push_bit 1 (ucast k :: u64)) = 16 * unat k" if "k < NSMALLBINS" for k :: u32
    using that by (simp add: less_NSMALLBINS push_bit_eq_mult unat_word_ariths unsigned_ucast_eq take_bit_eq_mod)
  have "8 * push_bit 1 (ucast i :: u64) = 8 * push_bit 1 (ucast j)"
    using assms(3) by (simp add: smallbin_at_def)
  then have "16 * unat i = 16 * unat j" using u assms(1,2) by metis
  then show ?thesis by (simp add: word_unat_eq_iff)
qed

lemma bin_nodes_I [intro]:
  "i < NSMALLBINS \<Longrightarrow> smallbin_at s i \<in> bin_nodes s L"
  "i < NSMALLBINS \<Longrightarrow> p \<in> set (L i) \<Longrightarrow> p \<in> bin_nodes s L"
  by (auto simp: bin_nodes_def bin_headers_def)

lemma small_binsD:
  assumes "small_bins s L" "i < NSMALLBINS"
  shows "bin_list s i (L i)" "\<And>p. p \<in> set (L i) \<Longrightarrow> ok_address s p"
    "\<And>p. p \<in> set (L i) \<Longrightarrow> p \<notin> bin_headers s" "apart (set (smallbin_at s i # L i))"
    "\<And>j. j < NSMALLBINS \<Longrightarrow> i \<noteq> j \<Longrightarrow> set (L i) \<inter> set (L j) = {}"
  using assms by (auto simp: small_bins_def intro: apart_subset)

section \<open>Refinement of the bin operations\<close>

lemma unat_small_index:
  assumes "is_small S"
  shows "unat (small_index S) = unat S div 8" "small_index S < NSMALLBINS"
proof -
  have u: "unat (drop_bit 3 S) = unat S div 8" by (simp add: unat_drop_bit)
  have lt: "unat S div 8 < 32"
    using assms by (simp add: is_small_def SMALLBIN_SHIFT_def NSMALLBINS_def word_less_nat_alt u)
  show "unat (small_index S) = unat S div 8"
    using lt by (simp add: small_index_def SMALLBIN_SHIFT_def unsigned_ucast_eq u take_bit_eq_mod)
  with lt show "small_index S < NSMALLBINS" by (simp add: less_NSMALLBINS)
qed

lemma is_small_iff: "is_small S \<longleftrightarrow> unat S < 256"
  by (simp add: is_small_def SMALLBIN_SHIFT_def NSMALLBINS_def word_less_nat_alt unat_drop_bit) linarith

lemma small_bins_update:
  assumes sb: "small_bins s L" and i: "i < NSMALLBINS"
    and same: "gm_addr s' = gm_addr s" "least_addr s' = least_addr s"
    and bin: "bin_list s' i ps"
    and marks: "\<And>j. j \<noteq> i \<Longrightarrow> smallmap_is_marked s' j = 0 \<longleftrightarrow> smallmap_is_marked s j = 0"
    and frame: "\<And>x. x \<in> bin_nodes s L \<Longrightarrow> x \<notin> set (smallbin_at s i # L i) \<Longrightarrow>
      fd (mem s') x = fd (mem s) x \<and> bk (mem s') x = bk (mem s) x"
    and new: "\<And>p. p \<in> set ps \<Longrightarrow> p \<notin> set (L i) \<Longrightarrow> p \<notin> bin_nodes s L \<and> ok_address s p"
    and ap: "apart (bin_nodes s L \<union> set ps)"
  shows "small_bins s' (L(i := ps))"
proof -
  have at: "smallbin_at s' = smallbin_at s" and hd: "bin_headers s' = bin_headers s"
    and ok: "ok_address s' = ok_address s"
    using same by (auto simp: smallbin_at_def bin_headers_def ok_address_def fun_eq_iff)
  have others: "bin_list s' j (L j)" if j: "j < NSMALLBINS" "j \<noteq> i" for j
  proof -
    have hdr: "smallbin_at s k \<in> bin_headers s" if "k < NSMALLBINS" for k
      using that by (simp add: bin_headers_def)
    have "smallbin_at s j \<noteq> smallbin_at s i" using smallbin_at_inj [OF j(1) i] j(2) by blast
    then have out: "x \<notin> set (smallbin_at s i # L i)" if "x \<in> set (smallbin_at s j # L j)" for x
      using that hdr [OF i] hdr [OF j(1)] small_binsD(3) [OF sb i] small_binsD(3) [OF sb j(1)]
        small_binsD(5) [OF sb i j(1)] j(2) by auto
    have "fd (mem s') x = fd (mem s) x \<and> bk (mem s') x = bk (mem s) x"
      if "x \<in> set (smallbin_at s j # L j)" for x
      by (rule frame) (use that out [OF that] j in auto)
    then have "ring (mem s') (smallbin_at s j) (L j) \<longleftrightarrow> ring (mem s) (smallbin_at s j) (L j)"
      by (rule ring_cong)
    then show ?thesis
      using small_binsD(1) [OF sb j(1)] marks [OF j(2)] by (simp add: bin_list_def at split: if_splits)
  qed
  have sub: "bin_nodes s' (L(i := ps)) \<subseteq> bin_nodes s L \<union> set ps"
    using hd by (auto simp: bin_nodes_def split: if_splits)
  have p_ok: "p \<notin> bin_headers s \<and> ok_address s p \<and> (\<forall>j<NSMALLBINS. j \<noteq> i \<longrightarrow> p \<notin> set (L j))" if "p \<in> set ps" for p
    using that new [OF that] small_binsD(2,3,5) [OF sb i]
    by (cases "p \<in> set (L i)") (auto simp: bin_nodes_def)
  show ?thesis
    unfolding small_bins_def
    using others bin p_ok small_binsD(2,3,5) [OF sb] apart_subset [OF ap sub]
    by (auto simp: hd ok)
qed

definition link_cells :: "addr set \<Rightarrow> addr set" where
  "link_cells N = (\<lambda>x. x + 16) ` N \<union> (\<lambda>x. x + 24) ` N"

text \<open>The only effects of a bin operation: \<open>smallmap\<close>, and the link cells of the nodes \<open>N\<close>.\<close>

definition same_but_links :: "addr set \<Rightarrow> mstate \<Rightarrow> mstate \<Rightarrow> bool" where
  "same_but_links N s s' \<longleftrightarrow>
     s' = s\<lparr>smallmap := smallmap s', mem := mem s'\<rparr> \<and>
     (\<forall>a. a \<notin> link_cells N \<longrightarrow> mem s' a = mem s a)"

lemma link_cells_I: "x \<in> N \<Longrightarrow> x + 16 \<in> link_cells N" "x \<in> N \<Longrightarrow> x + 24 \<in> link_cells N"
  by (auto simp: link_cells_def)

lemma bin_ops_state_simps [simp]:
  "mem (mark_smallmap i s) = mem s" "gm_addr (mark_smallmap i s) = gm_addr s"
  "least_addr (mark_smallmap i s) = least_addr s" "smallbin_at (mark_smallmap i s) = smallbin_at s"
  "mem (clear_smallmap i s) = mem s" "gm_addr (clear_smallmap i s) = gm_addr s"
  "least_addr (clear_smallmap i s) = least_addr s" "smallbin_at (clear_smallmap i s) = smallbin_at s"
  "mem (upd_mem f s) = f (mem s)" "gm_addr (upd_mem f s) = gm_addr s"
  "least_addr (upd_mem f s) = least_addr s" "smallbin_at (upd_mem f s) = smallbin_at s"
  "smallmap_is_marked (upd_mem f s) = smallmap_is_marked s"
  by (simp_all add: mark_smallmap_def clear_smallmap_def upd_mem_def smallbin_at_def fun_eq_iff
      smallmap_is_marked_def)

lemma same_but_links_intros:
  "(\<And>h a. a \<notin> link_cells N \<Longrightarrow> f h a = h a) \<Longrightarrow> same_but_links N s (upd_mem f s)"
  "same_but_links N s (clear_smallmap i s)" "same_but_links N s (mark_smallmap i s)"
  by (simp_all add: same_but_links_def upd_mem_def clear_smallmap_def mark_smallmap_def)

lemma same_but_links_trans:
  "same_but_links N s t \<Longrightarrow> same_but_links N t u \<Longrightarrow> same_but_links N s u"
  by (cases s; cases t; cases u) (simp add: same_but_links_def)

lemma smallmap_marks:
  "i < NSMALLBINS \<Longrightarrow> smallmap_is_marked (mark_smallmap i s) j = 0 \<longleftrightarrow> j \<noteq> i \<and> smallmap_is_marked s j = 0"
  "smallmap_is_marked (clear_smallmap i s) j = 0 \<longleftrightarrow> j = i \<or> smallmap_is_marked s j = 0"
  using small.is_marked_mark [of i s j] small.is_marked_clear [of i s j] by (auto simp: less_NSMALLBINS)

lemma link_write_frame:
  assumes "apart N" "x \<in> N" "y \<in> N" "z \<in> N" "z \<noteq> x" "z \<noteq> y"
  shows "fd (set_fd (set_bk h x v) y w) z = fd h z" "bk (set_fd (set_bk h x v) y w) z = bk h z"
  using assms fd_set_bk [of N x z] bk_set_fd [of N y z] by (simp_all add: links_cell_simps)

lemma insert_small_chunk_eq:
  assumes sb: "small_bins s L" and S: "is_small S" "MIN_CHUNK_SIZE \<le> S"
  defines "i \<equiv> small_index S" and "b \<equiv> smallbin_at s (small_index S)"
  shows "insert_small_chunk p S s = ret () (upd_mem
    (\<lambda>h. let F = hd (L i @ [b]) in set_bk (set_fd (set_bk (set_fd h b p) F p) p F) p b)
    (if L i = [] then mark_smallmap i s else s))"
proof (cases "L i")
  case Nil
  then show ?thesis
    using small_binsD(1) [OF sb unat_small_index(2) [OF S(1)]] S(2)
    by (simp add: insert_small_chunk_def Let_def i_def b_def bin_list_def)
next
  case (Cons q qs)
  have bl: "smallmap_is_marked s i \<noteq> 0" "ring (mem s) b (q # qs)"
    using small_binsD(1) [OF sb unat_small_index(2) [OF S(1)]] Cons
    by (simp_all add: i_def b_def bin_list_def)
  then have "fd (mem s) b = q" by (simp add: ring_def)
  moreover have "ok_address s q"
    using small_binsD(2) [OF sb unat_small_index(2) [OF S(1)]] Cons by (simp add: i_def)
  ultimately show ?thesis
    using S(2) Cons bl by (simp add: insert_small_chunk_def Let_def i_def b_def)
qed

lemma insert_small_bins:
  assumes sb: "small_bins s L" and S: "is_small S" "MIN_CHUNK_SIZE \<le> S"
    and p: "p \<notin> bin_nodes s L" "ok_address s p" "apart (insert p (bin_nodes s L))"
  shows "\<exists>s'. insert_small_chunk p S s = ret () s' \<and>
    small_bins s' (L(small_index S := p # L (small_index S))) \<and>
    same_but_links (insert p (bin_nodes s L)) s s'"
proof -
  let ?i = "small_index S" and ?N = "insert p (bin_nodes s L)"
  let ?b = "smallbin_at s ?i" and ?F = "hd (L ?i @ [smallbin_at s ?i])"
  let ?f = "\<lambda>h. set_bk (set_fd (set_bk (set_fd h ?b p) ?F p) p ?F) p ?b"
  let ?t = "if L ?i = [] then mark_smallmap ?i s else s"
  let ?s' = "upd_mem ?f ?t"
  note i = unat_small_index(2) [OF S(1)]
  have Fin: "?F \<in> set (L ?i @ [?b])" by (rule hd_in_set) simp
  then have FN: "?F \<in> ?N" "?b \<in> ?N" using i by auto
  have ring: "ring (?f (mem s)) ?b (p # L ?i)"
  proof (rule ring_push)
    show "ring (mem s) ?b (L ?i)" if "L ?i \<noteq> []"
      using small_binsD(1) [OF sb i] that by (simp add: bin_list_def)
    show "p \<notin> set (?b # L ?i)" using p(1) i by auto
    show "apart (insert p (set (?b # L ?i)))"
      by (rule apart_subset [OF p(3)]) (use i in auto)
  qed simp
  have m: "mem ?s' = ?f (mem s)" "smallbin_at ?s' = smallbin_at s" by simp_all
  have mk: "smallmap_is_marked ?s' ?i \<noteq> 0"
    using small_binsD(1) [OF sb i] by (simp add: bin_list_def smallmap_marks i)
  have "small_bins ?s' (L(?i := p # L ?i))"
  proof (rule small_bins_update [OF sb i])
    show "bin_list ?s' ?i (p # L ?i)"
      using ring mk by (simp only: bin_list_def m list.distinct if_False not_False_eq_True simp_thms)
    show "fd (mem ?s') x = fd (mem s) x \<and> bk (mem ?s') x = bk (mem s) x"
      if "x \<in> bin_nodes s L" "x \<notin> set (?b # L ?i)" for x
    proof -
      have ne: "x \<noteq> ?F" "x \<noteq> ?b" "x \<noteq> p" "x \<in> ?N" using that Fin p(1) by auto
      have *: "fd (?f h) x = fd h x \<and> bk (?f h) x = bk h x" for h
        using ne fd_set_bk [OF p(3) _ ne(4)] bk_set_fd [OF p(3) _ ne(4)] FN
        by (simp add: links_cell_simps)
      show ?thesis using * [of "mem s"] unfolding m .
    qed
    show "apart (bin_nodes s L \<union> set (p # L ?i))"
      by (rule apart_subset [OF p(3)]) (use i in auto)
  qed (use p i in \<open>auto simp: smallmap_marks\<close>)
  moreover have "same_but_links ?N s ?s'"
  proof (rule same_but_links_trans [of _ s ?t])
    show "same_but_links ?N s ?t"
      by (simp add: same_but_links_def mark_smallmap_def)
    show "same_but_links ?N ?t ?s'"
      by (rule same_but_links_intros(1))
        (use FN link_cells_I [of _ ?N] in \<open>auto simp: field_defs fun_upd_apply\<close>)
  qed
  ultimately show ?thesis
    using insert_small_chunk_eq [OF sb S] by (auto simp: Let_def)
qed

lemma same_but_links_unlink:
  assumes "F \<in> N" "B \<in> N"
  shows "same_but_links N s (upd_mem (\<lambda>h. set_fd (set_bk h F B) B F) s)"
  by (rule same_but_links_intros(1)) (use assms link_cells_I [of _ N] in \<open>auto simp: field_defs\<close>)

text \<open>Removing a chunk from its ring leaves bins that represent the list without it.\<close>

lemma small_bins_remove:
  assumes sb: "small_bins s L" and i: "i < NSMALLBINS" and L: "L i = xs @ p # ys"
    and F: "F = hd (ys @ [smallbin_at s i])" and B: "B = last (smallbin_at s i # xs)"
    and s': "s' = (if xs @ ys = [] then clear_smallmap i s
      else upd_mem (\<lambda>h. set_fd (set_bk h F B) B F) s)"
  shows "small_bins s' (L(i := xs @ ys)) \<and> same_but_links (bin_nodes s L) s s'"
proof -
  let ?b = "smallbin_at s i" and ?N = "bin_nodes s L"
  have ap: "apart ?N" using sb by (simp add: small_bins_def)
  have bl: "smallmap_is_marked s i \<noteq> 0" and r: "ring (mem s) ?b (xs @ p # ys)"
    using small_binsD(1) [OF sb i] by (simp_all add: L bin_list_def)
  have FN: "F \<in> set (?b # L i)" "B \<in> set (?b # L i)"
    using hd_in_set [of "ys @ [?b]"] last_in_set [of "?b # xs"] by (auto simp: F B L)
  then have FN': "F \<in> ?N" "B \<in> ?N" using i by auto
  have "small_bins s' (L(i := xs @ ys))"
  proof (rule small_bins_update [OF sb i])
    show "bin_list s' i (xs @ ys)"
    proof (cases "xs @ ys = []")
      case True
      then show ?thesis by (simp add: s' bin_list_def smallmap_marks)
    next
      case False
      have "ring (set_fd (set_bk (mem s) F B) B F) ?b (xs @ ys)"
        by (rule ring_remove [OF r apart_subset [OF ap] F B]) (use i L in auto)
      with bl show ?thesis unfolding s' bin_list_def if_not_P [OF False] by simp
    qed
    show "fd (mem s') x = fd (mem s) x \<and> bk (mem s') x = bk (mem s) x"
      if x: "x \<in> ?N" "x \<notin> set (?b # L i)" for x
    proof -
      have "x \<noteq> F" "x \<noteq> B" using x(2) FN by blast+
      then show ?thesis using link_write_frame [OF ap FN' x(1)] by (simp add: s')
    qed
    show "apart (?N \<union> set (xs @ ys))"
      by (rule apart_subset [OF ap]) (use i L in auto)
  qed (use L in \<open>auto simp: s' smallmap_marks\<close>)
  moreover have "same_but_links ?N s s'"
    using same_but_links_unlink [OF FN'] same_but_links_intros(2) by (simp add: s')
  ultimately show ?thesis ..
qed

lemma pop_small_bins:
  assumes sb: "small_bins s L" and i: "i < NSMALLBINS" and L: "L i = p # ps"
  shows "fd (mem s) (smallbin_at s i) = p \<and>
    (\<exists>s'. unlink_first_small_chunk (smallbin_at s i) p i s = ret () s' \<and>
      small_bins s' (L(i := ps)) \<and> same_but_links (bin_nodes s L) s s')"
proof -
  let ?b = "smallbin_at s i"
  obtain F where F: "F = hd (ps @ [?b])" by simp
  have r: "ring (mem s) ?b ([] @ p # ps)"
    using small_binsD(1) [OF sb i] by (simp add: L bin_list_def)
  have nb: "fd (mem s) p = F" "bk (mem s) F = p" "fd (mem s) ?b = p"
    using ring_neighbours [OF r] F by auto
  have "?b = F \<longleftrightarrow> ps = []" using F r by (cases ps) (auto simp: ring_def)
  moreover have "ok_address s F" if "ps \<noteq> []"
    using small_binsD(2) [OF sb i, of F] that L F by simp
  ultimately have "unlink_first_small_chunk ?b p i s =
      ret () (if [] @ ps = [] then clear_smallmap i s
        else upd_mem (\<lambda>h. set_fd (set_bk h F ?b) ?b F) s)"
    by (simp add: unlink_first_small_chunk_def Let_def nb)
  then show ?thesis
    using small_bins_remove [OF sb i, of "[]" p ps F ?b] L F nb(3) by simp
qed

lemma remove_small_bins:
  assumes sb: "small_bins s L" and S: "is_small S" and L: "L (small_index S) = xs @ p # ys"
  shows "\<exists>s'. unlink_small_chunk p S s = ret () s' \<and>
    small_bins s' (L(small_index S := xs @ ys)) \<and> same_but_links (bin_nodes s L) s s'"
proof -
  let ?i = "small_index S" let ?b = "smallbin_at s ?i"
  obtain F B where FB: "F = hd (ys @ [?b])" "B = last (?b # xs)" by simp
  note i = unat_small_index(2) [OF S]
  have r: "ring (mem s) ?b (xs @ p # ys)"
    using small_binsD(1) [OF sb i] by (simp add: L bin_list_def)
  have nb: "fd (mem s) p = F" "bk (mem s) p = B" "bk (mem s) F = p" "fd (mem s) B = p"
    using ring_neighbours [OF r] FB by auto
  have "B = F \<longleftrightarrow> xs @ ys = []"
    using FB r by (cases ys; cases xs rule: rev_cases) (auto simp: ring_def)
  moreover have "F = ?b \<or> ok_address s F"
    using small_binsD(2) [OF sb i, of F] L FB by (cases ys) auto
  moreover have "B = ?b \<or> ok_address s B"
    using small_binsD(2) [OF sb i, of B] L FB by (cases xs rule: rev_cases) auto
  ultimately have "unlink_small_chunk p S s =
      ret () (if xs @ ys = [] then clear_smallmap ?i s
        else upd_mem (\<lambda>h. set_fd (set_bk h F B) B F) s)"
    unfolding unlink_small_chunk_def Let_def nb by (auto simp del: append_is_Nil_conv)
  then show ?thesis
    using small_bins_remove [OF sb i L FB refl] by blast
qed

section \<open>The bins of a fresh state\<close>

text \<open>A \<open>MallocState\<close> at address \<open>gm\<close> whose fields are all zero, in the heap \<open>h\<close>.\<close>

definition zero_mstate :: "addr \<Rightarrow> heap \<Rightarrow> mstate" where
  "zero_mstate gm h = \<lparr>smallmap = 0, treemap = 0, dvsize = 0, topsize = 0, least_addr = 0, dv = 0,
     top_chunk = 0, trim_check = 0, release_checks = 0, magic = 0,
     treebins = replicate 32 0, footprint = 0, max_footprint = 0, footprint_limit = 0,
     mflags = 0, extp = 0, exts = 0, gm_addr = gm, mem = h\<rparr>"

lemma unat_bin_offset:
  "i < NSMALLBINS \<Longrightarrow> unat (8 * push_bit 1 (ucast i :: u64)) = 16 * unat i"
  by (simp add: less_NSMALLBINS push_bit_eq_mult unat_word_ariths unsigned_ucast_eq take_bit_eq_mod)

lemma bin_headers_apart: "apart (bin_headers s)"
proof -
  have "smallbin_at s i \<noteq> smallbin_at s j + 8" if "i < NSMALLBINS" "j < NSMALLBINS" for i j
  proof
    assume "smallbin_at s i = smallbin_at s j + 8"
    then have "8 * push_bit 1 (ucast i :: u64) = 8 * push_bit 1 (ucast j) + 8"
      by (simp add: smallbin_at_def algebra_simps)
    then have "16 * unat i = unat (8 * push_bit 1 (ucast j :: u64) + 8)"
      using unat_bin_offset [OF that(1)] by metis
    also have "\<dots> = 16 * unat j + 8"
      unfolding unat_add_64 unat_bin_offset [OF that(2)]
      using that(2) by (simp add: less_NSMALLBINS)
    finally show False by presburger
  qed
  then show ?thesis by (auto simp: apart_def bin_headers_def)
qed

lemma small_bins_empty: "smallmap s = 0 \<Longrightarrow> small_bins s (\<lambda>_. [])"
  using bin_headers_apart [of s] by (simp add: small_bins_def bin_list_def smallmap_is_marked_def bin_nodes_def)

definition init_bin :: "nat \<Rightarrow> mstate \<Rightarrow> mstate" where
  "init_bin i s = (let bin = smallbin_at s (of_nat i) in upd_mem (\<lambda>h. set_fd (set_bk h bin bin) bin bin) s)"

lemma init_bins_fold: "init_bins s = fold init_bin [0..<unat NSMALLBINS] s"
  unfolding init_bins_def init_bin_def ..

lemma fold_init_bin:
  "n \<le> 32 \<Longrightarrow> \<exists>h. fold init_bin [0..<n] s = s\<lparr>mem := h\<rparr> \<and>
    (\<forall>i. unat i < n \<longrightarrow> ring h (smallbin_at s i) [])"
proof (induction n)
  case 0
  show ?case by (rule exI [of _ "mem s"]) simp
next
  case (Suc n)
  then obtain h where u: "fold init_bin [0..<n] s = s\<lparr>mem := h\<rparr>"
    and IH: "\<And>i. unat i < n \<Longrightarrow> ring h (smallbin_at s i) []" by auto
  let ?b = "smallbin_at s (of_nat n)"
  have n: "unat (of_nat n :: u32) = n" using Suc.prems by (simp add: unat_of_nat_lt_32)
  have "ring (set_fd (set_bk h ?b ?b) ?b ?b) (smallbin_at s i) []" if i: "unat i < Suc n" for i
  proof -
    have N: "?b \<in> bin_headers s" "smallbin_at s i \<in> bin_headers s"
      using i n Suc.prems by (auto simp: bin_headers_def less_NSMALLBINS)
    show ?thesis
    proof (cases "unat i = n")
      case True
      then have "smallbin_at s i = ?b" using n by (metis word_unat_eq_iff)
      then show ?thesis
        using fd_set_bk [OF bin_headers_apart N(1,1)] bk_set_fd [OF bin_headers_apart N(1,1)]
        by (simp add: ring_def links_cell_simps)
    next
      case False
      then have "smallbin_at s i \<noteq> ?b"
        using smallbin_at_inj [of i "of_nat n" s] i n Suc.prems by (auto simp: less_NSMALLBINS)
      then show ?thesis
        using IH [of i] False i link_write_frame [OF bin_headers_apart N(1,1,2)]
        by (simp add: ring_def)
    qed
  qed
  moreover have "fold init_bin [0..<Suc n] s = s\<lparr>mem := set_fd (set_bk h ?b ?b) ?b ?b\<rparr>"
    by (simp add: u init_bin_def Let_def upd_mem_def smallbin_at_def)
  ultimately show ?case by blast
qed

text \<open>
  C34: \<open>init_bins\<close> makes every small bin an empty ring, its header linked to itself in both
  directions, and changes nothing but the heap.
\<close>

theorem init_bins_empty_rings:
  "(\<forall>i<NSMALLBINS. ring (mem (init_bins s)) (smallbin_at s i) []) \<and>
   init_bins s = s\<lparr>mem := mem (init_bins s)\<rparr>"
proof -
  have n: "unat NSMALLBINS \<le> 32" by (simp add: NSMALLBINS_def)
  have "unat i < unat NSMALLBINS" if "i < NSMALLBINS" for i
    using that by (simp only: word_less_nat_alt)
  then show ?thesis
    using fold_init_bin [OF n, of s] unfolding init_bins_fold by auto
qed

theorem init_bins_empty_rings_witness:
  "ring (mem (init_bins (zero_mstate 1048576 (\<lambda>_. 0)))) (smallbin_at (zero_mstate 1048576 (\<lambda>_. 0)) 5) []"
proof -
  have "(5 :: u32) < NSMALLBINS" by (simp add: NSMALLBINS_def)
  then show ?thesis
    using init_bins_empty_rings [of "zero_mstate 1048576 (\<lambda>_. 0)", THEN conjunct1] by blast
qed

section \<open>The refinement theorems\<close>

text \<open>The state of the examples: no bin in use, the object at 1 MiB, the chunks above 2 MiB.\<close>

definition ex_mstate :: mstate where
  "ex_mstate = (zero_mstate 1048576 (\<lambda>_. 0))\<lparr>least_addr := 2097152\<rparr>"

lemma ex_small_bins: "small_bins ex_mstate (\<lambda>_. [])"
  by (rule small_bins_empty) (simp add: ex_mstate_def zero_mstate_def)

lemma ex_header_bounds:
  assumes "i < NSMALLBINS"
  shows "unat (smallbin_at ex_mstate i) = 1048648 + 16 * unat i"
proof -
  have "smallbin_at ex_mstate i = 1048648 + 8 * push_bit 1 (ucast i)"
    by (simp add: smallbin_at_def ex_mstate_def zero_mstate_def SMALLBINS_OFFSET_def)
  then have "unat (smallbin_at ex_mstate i) =
      (unat (1048648 :: u64) + 16 * unat i) mod 18446744073709551616"
    by (simp only: unat_add_64 unat_bin_offset [OF assms])
  then show ?thesis using assms by (simp add: less_NSMALLBINS)
qed

lemma ex_new_chunk:
  "2097152 \<notin> bin_nodes ex_mstate (\<lambda>_. [])" "apart (insert 2097152 (bin_nodes ex_mstate (\<lambda>_. [])))"
proof -
  have b: "smallbin_at ex_mstate i \<noteq> 2097152" "smallbin_at ex_mstate i \<noteq> 2097160"
    "smallbin_at ex_mstate i \<noteq> 2097144" if "i < NSMALLBINS" for i
    using ex_header_bounds [OF that] that by (auto simp: less_NSMALLBINS dest!: arg_cong [where f = unat])
  then show "2097152 \<notin> bin_nodes ex_mstate (\<lambda>_. [])"
    by (auto simp: bin_nodes_def bin_headers_def)
  have "2097152 \<noteq> smallbin_at ex_mstate i + 8" if "i < NSMALLBINS" for i
    using b(3) [OF that] by (auto simp: eq_diff_eq [symmetric])
  then show "apart (insert 2097152 (bin_nodes ex_mstate (\<lambda>_. [])))"
    using bin_headers_apart [of ex_mstate] b
    by (auto simp: apart_def bin_nodes_def bin_headers_def)
qed

lemma ex_one_chunk: "\<exists>s. small_bins s ((\<lambda>_. [])(6 := [2097152]))"
proof -
  have "is_small 48" "MIN_CHUNK_SIZE \<le> 48" "ok_address ex_mstate 2097152" "small_index 48 = 6"
    by (simp_all add: is_small_iff size_consts ok_address_def ex_mstate_def zero_mstate_def
        small_index_def SMALLBIN_SHIFT_def)
  then show ?thesis
    using insert_small_bins [OF ex_small_bins _ _ ex_new_chunk(1) _ ex_new_chunk(2), of 48] by auto
qed

text \<open>
  C17: Inserting a chunk of a small size conses it to the list of its bin: on bins that
  represent \<open>L\<close>, \<open>insert_small_chunk\<close> raises nothing, the bins then represent \<open>L\<close> with the chunk at
  the front of bin \<open>small_index S\<close>, and only the bitmap and link cells have changed.
\<close>

theorem insert_small_chunk_refines:
  assumes "small_bins s L" and "is_small S" "MIN_CHUNK_SIZE \<le> S"
    and "p \<notin> bin_nodes s L" "ok_address s p" "apart (insert p (bin_nodes s L))"
  shows "\<exists>s'. insert_small_chunk p S s = ret () s' \<and>
    small_bins s' (L(small_index S := p # L (small_index S))) \<and>
    same_but_links (insert p (bin_nodes s L)) s s'"
  using assms by (rule insert_small_bins)

theorem insert_small_chunk_refines_witness:
  "\<exists>s'. insert_small_chunk 2097152 48 ex_mstate = ret () s' \<and>
    small_bins s' ((\<lambda>_. [])(6 := [2097152]))"
proof -
  have "is_small 48" "MIN_CHUNK_SIZE \<le> 48" "ok_address ex_mstate 2097152" "small_index 48 = 6"
    by (simp_all add: is_small_iff size_consts ok_address_def ex_mstate_def zero_mstate_def
        small_index_def SMALLBIN_SHIFT_def)
  then show ?thesis
    using insert_small_chunk_refines [OF ex_small_bins _ _ ex_new_chunk(1) _ ex_new_chunk(2), of 48] by auto
qed

text \<open>
  \<open>unlink_first_small_chunk\<close>, called as \<open>Alloc\<close> calls it with the header of a non-empty bin
  and the chunk its \<open>fd\<close> link names, pops the first chunk of the bin's list and raises nothing.
\<close>

lemma unlink_first_small_chunk_refines:
  assumes "small_bins s L" and "i < NSMALLBINS" and "L i = p # ps"
  shows "fd (mem s) (smallbin_at s i) = p \<and>
    (\<exists>s'. unlink_first_small_chunk (smallbin_at s i) p i s = ret () s' \<and>
      small_bins s' (L(i := ps)) \<and> same_but_links (bin_nodes s L) s s')"
  using assms by (rule pop_small_bins)

text \<open>
  C18: \<open>unlink_small_chunk\<close>, with which \<open>Free\<close> takes a neighbour out of its bin before merging,
  removes exactly that chunk from the list of the bin of its size, wherever it stands in the list,
  and raises nothing.
\<close>

theorem unlink_small_chunk_refines:
  assumes "small_bins s L" and "is_small S" and "L (small_index S) = xs @ p # ys"
  shows "\<exists>s'. unlink_small_chunk p S s = ret () s' \<and>
    small_bins s' (L(small_index S := xs @ ys)) \<and> same_but_links (bin_nodes s L) s s'"
  using assms by (rule remove_small_bins)

theorem unlink_small_chunk_refines_witness:
  "\<exists>s s'. unlink_small_chunk 2097152 48 s = ret () s' \<and>
    small_bins s ((\<lambda>_. [])(6 := [2097152])) \<and> small_bins s' (\<lambda>_. [])"
proof -
  obtain s where s: "small_bins s ((\<lambda>_. [])(6 := [2097152]))" using ex_one_chunk by blast
  have "is_small 48" "small_index 48 = 6"
    by (simp_all add: is_small_iff small_index_def SMALLBIN_SHIFT_def)
  then show ?thesis
    using s unlink_small_chunk_refines [OF s, of 48 "[]" 2097152 "[]"] by (auto simp: fun_upd_idem)
qed

end
