(* ===== verification/Tree_Bins.thy ===== *)
theory Tree_Bins
  imports Small_Bins
begin

text \<open>
  The tree bins: \<open>uni_allocator/tree_chunk.h\<close> and the operations of \<open>MallocState\<close> on large chunks.
  A tree chunk has, behind the four fields of a chunk, two children, a parent and the index of
  its bin. Each loop of the code is a \<open>partial_function\<close> on the heap that returns where the loop
  stops, with \<open>None\<close> for a loop that runs forever (a cyclic tree); the writes that follow the
  loop are in the operation itself.
\<close>

unbundle bit_operations_syntax

section \<open>Tree chunks\<close>

definition child_cell :: "addr \<Rightarrow> u64 \<Rightarrow> addr" where "child_cell p i = p + 32 + 8 * i"
definition child :: "heap \<Rightarrow> addr \<Rightarrow> u64 \<Rightarrow> addr" where "child h p i = h (child_cell p i)"
definition set_child :: "heap \<Rightarrow> addr \<Rightarrow> u64 \<Rightarrow> addr \<Rightarrow> heap" where
  "set_child h p i v = h(child_cell p i := v)"
definition parent :: "heap \<Rightarrow> addr \<Rightarrow> addr" where "parent h p = h (p + 48)"
definition set_parent :: "heap \<Rightarrow> addr \<Rightarrow> addr \<Rightarrow> heap" where "set_parent h p v = h(p + 48 := v)"
definition tindex :: "heap \<Rightarrow> addr \<Rightarrow> u32" where "tindex h p = ucast (h (p + 56))"
definition set_tindex :: "heap \<Rightarrow> addr \<Rightarrow> u32 \<Rightarrow> heap" where
  "set_tindex h p v = h(p + 56 := ucast v)"

definition leftmost_child :: "heap \<Rightarrow> addr \<Rightarrow> addr" where
  "leftmost_child h p = (if child h p 0 \<noteq> 0 then child h p 0 else child h p 1)"

section \<open>Index of a size\<close>

definition compute_tree_index :: "u64 \<Rightarrow> u32" where
  "compute_tree_index S =
     (let X = ucast (drop_bit TREEBIN_SHIFT S) :: u32
      in if X = 0 then 0
         else if 0xFFFF < X then NTREEBINS - 1
         else let K = 4 * 8 - 1 - of_nat (builtin_clz X) :: u32
              in ucast (ucast (push_bit 1 K) + (drop_bit (unat (K + (of_nat TREEBIN_SHIFT - 1))) S AND 1)))"

definition leftshift_for_tree_index :: "u32 \<Rightarrow> u32" where
  "leftshift_for_tree_index i =
     (if i = NTREEBINS - 1 then 0
      else ucast ((SIZE_T_BITSIZE - SIZE_T_ONE) - (drop_bit 1 (ucast i) + of_nat TREEBIN_SHIFT - 2)))"

text \<open>The bit that selects a child: the sign bit of the shifted size.\<close>

definition sign_bit :: "u64 \<Rightarrow> u64" where
  "sign_bit K = drop_bit (unat (SIZE_T_BITSIZE - SIZE_T_ONE)) K AND 1"

section \<open>Insertion\<close>

text \<open>
  The loop of \<open>insert_large_chunk\<close>: it stops at a chunk of the same size, \<open>(T, None)\<close>, or at a child
  cell \<open>C\<close> that is 0, \<open>(T, Some C)\<close>.
\<close>

partial_function (option) insert_descend :: "heap \<Rightarrow> u64 \<Rightarrow> addr \<Rightarrow> u64 \<Rightarrow> (addr \<times> addr option) option" where
  "insert_descend h S T K =
     (if chunksize h T \<noteq> S
      then (let C = child_cell T (sign_bit K); K = push_bit 1 K
            in if h C \<noteq> 0 then insert_descend h S (h C) K else Some (T, Some C))
      else Some (T, None))"

definition insert_large_chunk :: "addr \<Rightarrow> u64 \<Rightarrow> mstate \<Rightarrow> (mstate, unit) comp" where
  "insert_large_chunk X S s =
     (let I = compute_tree_index S;
          s = upd_mem (\<lambda>h. set_child (set_child (set_tindex h X I) X 1 0) X 0 0) s
      in if treemap_is_marked s I = 0
         then (let s = set_treebin_at I X (mark_treemap I s)
               in ret () (upd_mem (\<lambda>h. set_fd (set_bk (set_parent h X (treebin_at s I)) X X) X X) s))
         else case insert_descend (mem s) S (treebin_at s I) (push_bit (unat (leftshift_for_tree_index I)) S) of
           None \<Rightarrow> None
         | Some (T, Some C) \<Rightarrow>
             if ok_address s (mem s C)
             then ret () (upd_mem (\<lambda>h. set_fd (set_bk (set_parent (h(C := X)) X T) X X) X X) s)
             else throw Memory_Corrupted s
         | Some (T, None) \<Rightarrow>
             let F = fd (mem s) T
             in if ok_address s T \<and> ok_address s F
                then ret () (upd_mem (\<lambda>h. set_parent (set_bk (set_fd (set_fd (set_bk h F X) T X) X F) X T) X 0) s)
                else throw Memory_Corrupted s)"

definition insert_chunk :: "addr \<Rightarrow> u64 \<Rightarrow> mstate \<Rightarrow> (mstate, unit) comp" where
  "insert_chunk P S s = (if is_small S then insert_small_chunk P S s else insert_large_chunk P S s)"

section \<open>Removal\<close>

text \<open>The inner loop of \<open>unlink_large_chunk\<close>: down to a leaf \<open>R\<close>, with the cell \<open>RP\<close> that holds it.\<close>

partial_function (option) unlink_descend :: "heap \<Rightarrow> addr \<Rightarrow> addr \<Rightarrow> (addr \<times> addr) option" where
  "unlink_descend h R RP =
     (if child h R 1 \<noteq> 0 then unlink_descend h (child h R 1) (child_cell R 1)
      else if child h R 0 \<noteq> 0 then unlink_descend h (child h R 0) (child_cell R 0)
      else Some (R, RP))"

text \<open>The first half: detach \<open>X\<close> from its ring, or find the leaf that replaces it; the result is \<open>R\<close>.\<close>

definition unlink_replacement :: "addr \<Rightarrow> mstate \<Rightarrow> (mstate, addr) comp" where
  "unlink_replacement X s =
     (if bk (mem s) X \<noteq> X
      then (let F = fd (mem s) X; R = bk (mem s) X
            in if ok_address s F \<and> bk (mem s) F = X \<and> fd (mem s) R = X
               then ret R (upd_mem (\<lambda>h. set_fd (set_bk h F R) R F) s)
               else throw Memory_Corrupted s)
      else (let (R, RP) = (if child (mem s) X 1 \<noteq> 0 then (child (mem s) X 1, child_cell X 1)
                           else (child (mem s) X 0, child_cell X 0))
            in if R \<noteq> 0
               then case unlink_descend (mem s) R RP of
                   None \<Rightarrow> None
                 | Some (R, RP) \<Rightarrow>
                     if ok_address s (mem s RP) then ret R (upd_mem (\<lambda>h. h(RP := 0)) s)
                     else throw Memory_Corrupted s
               else ret 0 s))"

text \<open>One step of the second half: hang child \<open>i\<close> of \<open>X\<close> below \<open>R\<close>.\<close>

definition adopt_child :: "addr \<Rightarrow> addr \<Rightarrow> u64 \<Rightarrow> mstate \<Rightarrow> (mstate, unit) comp" where
  "adopt_child X R i s =
     (let C = child (mem s) X i
      in if C \<noteq> 0
         then if ok_address s C then ret () (upd_mem (\<lambda>h. set_parent (set_child h R i C) C R) s)
              else throw Memory_Corrupted s
         else ret () s)"

definition unlink_large_chunk :: "addr \<Rightarrow> mstate \<Rightarrow> (mstate, unit) comp" where
  "unlink_large_chunk X s =
     (let XP = parent (mem s) X
      in cbind (unlink_replacement X s) (\<lambda>R s.
         if XP \<noteq> 0
         then cbind
             (let I = tindex (mem s) X
              in if X = treebin_at s I
                 then (let s = set_treebin_at I R s in ret () (if R = 0 then clear_treemap I s else s))
                 else if ok_address s XP
                 then ret () (upd_mem (\<lambda>h. if child h XP 0 = X then set_child h XP 0 R else set_child h XP 1 R) s)
                 else throw Memory_Corrupted s)
             (\<lambda>_ s. if R \<noteq> 0
               then if ok_address s R
                    then cbind (adopt_child X R 0 (upd_mem (\<lambda>h. set_parent h R XP) s))
                           (\<lambda>_ s. adopt_child X R 1 s)
                    else throw Memory_Corrupted s
               else ret () s)
         else ret () s))"

definition unlink_chunk :: "addr \<Rightarrow> u64 \<Rightarrow> mstate \<Rightarrow> (mstate, unit) comp" where
  "unlink_chunk P S s = (if is_small S then unlink_small_chunk P S s else unlink_large_chunk P s)"

section \<open>Best fit from the trees\<close>

partial_function (option) tmalloc_small_walk :: "heap \<Rightarrow> u64 \<Rightarrow> addr \<Rightarrow> addr \<Rightarrow> u64 \<Rightarrow> (addr \<times> u64) option" where
  "tmalloc_small_walk h nb t v rsize =
     (let t = leftmost_child h t
      in if t \<noteq> 0
         then (let trem = chunksize h t - nb
               in if trem < rsize then tmalloc_small_walk h nb t t trem
                  else tmalloc_small_walk h nb t v rsize)
         else Some (v, rsize))"

definition tmalloc_small :: "u64 \<Rightarrow> mstate \<Rightarrow> (mstate, addr) comp" where
  "tmalloc_small nb s =
     (let i = compute_bit2idx (least_bit (treemap s)); t = treebin_at s i
      in case tmalloc_small_walk (mem s) nb t t (chunksize (mem s) t - nb) of
           None \<Rightarrow> None
         | Some (v, rsize) \<Rightarrow>
             let r = chunk_plus_offset v nb
             in if ok_address s v \<and> ok_next v r
                then cbind (unlink_large_chunk v s) (\<lambda>_ s.
                  if rsize < MIN_CHUNK_SIZE
                  then ret (chunk2mem v) (set_inuse_and_pinuse v (rsize + nb) s)
                  else cbind (replace_dv r rsize
                           (upd_mem (\<lambda>h. set_size_and_pinuse_of_free_chunk h r rsize)
                             (gm_set_size_and_pinuse_of_inuse_chunk v nb s)))
                         (\<lambda>_ s. ret (chunk2mem v) s))
                else throw Memory_Corrupted s)"

text \<open>
  The search loop of \<open>tmalloc_large\<close> in the bin of the size; it returns \<open>t\<close>, \<open>v\<close> and \<open>rsize\<close> as they
  are when the loop is left.
\<close>

partial_function (option) tmalloc_large_search ::
  "heap \<Rightarrow> u64 \<Rightarrow> addr \<Rightarrow> addr \<Rightarrow> u64 \<Rightarrow> addr \<Rightarrow> u64 \<Rightarrow> (addr \<times> addr \<times> u64) option" where
  "tmalloc_large_search h nb t v rsize rst sizebits =
     (let trem = chunksize h t - nb;
          v = (if trem < rsize then t else v);
          found = trem < rsize \<and> trem = 0;
          rsize = (if trem < rsize then trem else rsize)
      in if found then Some (t, v, rsize)
         else (let rt = child h t 1; t = child h t (sign_bit sizebits);
                   rst = (if rt \<noteq> 0 \<and> rt \<noteq> t then rt else rst)
               in if t = 0 then Some (rst, v, rsize)
                  else tmalloc_large_search h nb t v rsize rst (push_bit 1 sizebits)))"

partial_function (option) tmalloc_large_walk :: "heap \<Rightarrow> u64 \<Rightarrow> addr \<Rightarrow> addr \<Rightarrow> u64 \<Rightarrow> (addr \<times> u64) option" where
  "tmalloc_large_walk h nb t v rsize =
     (if t \<noteq> 0
      then (let trem = chunksize h t - nb
            in if trem < rsize then tmalloc_large_walk h nb (leftmost_child h t) t trem
               else tmalloc_large_walk h nb (leftmost_child h t) v rsize)
      else Some (v, rsize))"

definition tmalloc_large :: "u64 \<Rightarrow> mstate \<Rightarrow> (mstate, addr) comp" where
  "tmalloc_large nb s =
     (let rsize = - nb; idx = compute_tree_index nb; t = treebin_at s idx
      in case (if t \<noteq> 0
               then tmalloc_large_search (mem s) nb t 0 rsize 0 (push_bit (unat (leftshift_for_tree_index idx)) nb)
               else Some (t, 0, rsize)) of
           None \<Rightarrow> None
         | Some (t, v, rsize) \<Rightarrow>
             let t = (if t = 0 \<and> v = 0
                      then (let leftbits = left_bits (idx2bit idx) AND treemap s
                            in if leftbits \<noteq> 0
                               then treebin_at s (compute_bit2idx (least_bit leftbits)) else t)
                      else t)
             in case tmalloc_large_walk (mem s) nb t v rsize of
                  None \<Rightarrow> None
                | Some (v, rsize) \<Rightarrow>
                    if v \<noteq> 0 \<and> rsize < dvsize s - nb
                    then (let r = chunk_plus_offset v nb
                          in if ok_address s v \<and> ok_next v r
                             then cbind (unlink_large_chunk v s) (\<lambda>_ s.
                               if rsize < MIN_CHUNK_SIZE
                               then ret (chunk2mem v) (set_inuse_and_pinuse v (rsize + nb) s)
                               else cbind (insert_chunk r rsize
                                        (upd_mem (\<lambda>h. set_size_and_pinuse_of_free_chunk h r rsize)
                                          (gm_set_size_and_pinuse_of_inuse_chunk v nb s)))
                                      (\<lambda>_ s. ret (chunk2mem v) s))
                             else throw Memory_Corrupted s)
                    else ret 0 s)"

section \<open>Which sizes a tree bin holds\<close>

text \<open>The least size of bin \<open>i\<close>: two bins per power of two, from 256 on.\<close>

definition treebin_min :: "nat \<Rightarrow> nat" where
  "treebin_min i = 2 ^ (8 + i div 2) + (i mod 2) * 2 ^ (7 + i div 2)"

lemma unat_ge_bit: "bit (x :: 'a::len word) k \<Longrightarrow> 2 ^ k \<le> unat x"
proof -
  assume "bit x k"
  then have "bit (unat x) k" by (simp add: bit_unsigned_iff)
  then have "odd (unat x div 2 ^ k)" by (simp add: bit_iff_odd)
  then have "1 \<le> unat x div 2 ^ k" by (cases "unat x div 2 ^ k") auto
  then show ?thesis by (metis div_less not_less not_one_le_zero)
qed

lemma unat_less_high_bits:
  assumes "\<And>j. k \<le> j \<Longrightarrow> \<not> bit (x :: 'a::len word) j"
  shows "unat x < 2 ^ k"
proof -
  have "take_bit k (unat x) = unat x"
    by (rule bit_eqI) (use assms in \<open>auto simp: bit_take_bit_iff bit_unsigned_iff intro: leI\<close>)
  then show ?thesis by (metis take_bit_nat_less_exp)
qed

text \<open>\<open>31 - clz\<close> is the position of the highest set bit.\<close>

lemma builtin_clz_log:
  assumes "x \<noteq> 0"
  shows "builtin_clz x < 32" "2 ^ (31 - builtin_clz x) \<le> unat x" "unat x < 2 ^ (32 - builtin_clz x)"
proof -
  have below: "\<not> bit x (31 - i)" if "i < builtin_clz x" for i
    using that unfolding builtin_clz_def by (rule first_index_before)
  show lt: "builtin_clz x < 32"
  proof (rule ccontr)
    assume "\<not> builtin_clz x < 32"
    then have "\<not> bit x j" for j
      using below [of "31 - j"] bit_u32_lt [of x j] by (cases "j < 32") auto
    with assms show False by (simp add: bit_eq_iff)
  qed
  then have "bit x (31 - builtin_clz x)"
    unfolding builtin_clz_def by (rule first_index_holds)
  then show "2 ^ (31 - builtin_clz x) \<le> unat x" by (rule unat_ge_bit)
  have "\<not> bit x j" if "32 - builtin_clz x \<le> j" for j
    using below [of "31 - j"] bit_u32_lt [of x j] that lt by (cases "j < 32") auto
  then show "unat x < 2 ^ (32 - builtin_clz x)" by (rule unat_less_high_bits)
qed

lemma unat_tree_X:
  "unat S < 1099511627776 \<Longrightarrow> unat (ucast (drop_bit TREEBIN_SHIFT S) :: u32) = unat S div 256"
  by (simp add: TREEBIN_SHIFT_def unsigned_ucast_eq unat_drop_bit take_bit_eq_mod)

lemma unat_compute_tree_index:
  assumes "256 \<le> unat S" "unat S < 16777216"
  obtains K where "K \<le> 15" "2 ^ K \<le> unat S div 256" "unat S div 256 < 2 ^ Suc K"
    "unat (compute_tree_index S) = 2 * K + (unat S div 2 ^ (K + 7)) mod 2"
proof
  let ?X = "ucast (drop_bit TREEBIN_SHIFT S) :: u32"
  define K where "K = 31 - builtin_clz ?X"
  have X: "unat ?X = unat S div 256" using assms by (intro unat_tree_X) simp
  then have X0: "?X \<noteq> 0" "\<not> 0xFFFF < ?X"
    using assms by (auto simp: word_less_nat_alt unat_eq_0 [symmetric])
  note clz = builtin_clz_log [OF X0(1)]
  have Suc_K: "Suc K = 32 - builtin_clz ?X" using clz(1) by (simp add: K_def)
  show lo: "2 ^ K \<le> unat S div 256" using clz(2) X by (simp add: K_def)
  show "unat S div 256 < 2 ^ Suc K" using clz(3) X Suc_K by simp
  have "(2 :: nat) ^ K < 2 ^ 16" using lo assms(2) by simp
  then show K: "K \<le> 15" using power_less_imp_less_exp [of "2 :: nat" K 16] by simp
  have k: "4 * 8 - 1 - of_nat (builtin_clz ?X) = (of_nat K :: u32)"
    using clz(1) by (simp add: K_def of_nat_diff)
  have uK: "unat (of_nat K :: u32) = K" using K by (simp add: unat_of_nat)
  have u7: "unat (of_nat K + (of_nat TREEBIN_SHIFT - 1) :: u32) = K + 7"
    using K by (simp add: TREEBIN_SHIFT_def unat_word_ariths uK)
  have p: "unat (ucast (push_bit 1 (of_nat K :: u32)) :: u64) = 2 * K"
    using K by (simp add: push_bit_eq_mult unsigned_ucast_eq unat_word_ariths uK take_bit_eq_mod)
  have b: "unat (drop_bit (K + 7) S AND 1) = (unat S div 2 ^ (K + 7)) mod 2"
    using unat_and_mask [of "drop_bit (K + 7) S" 1] by (simp add: unat_drop_bit)
  have m: "unat S div 2 ^ (K + 7) mod 2 < 2" by simp
  show "unat (compute_tree_index S) = 2 * K + (unat S div 2 ^ (K + 7)) mod 2"
    unfolding compute_tree_index_def Let_def k u7
    using X0 p b m K by (simp add: unsigned_ucast_eq unat_add_64 take_bit_eq_mod)
qed

lemma tree_index_range:
  assumes "256 \<le> unat S" "unat S < 2 ^ 40"
  shows "let i = unat (compute_tree_index S) in
    i < 32 \<and> treebin_min i \<le> unat S \<and> (i < 31 \<longrightarrow> unat S < treebin_min (i + 1))"
proof (cases "unat S < 16777216")
  case True
  obtain K where K: "K \<le> 15" "2 ^ K \<le> unat S div 256" "unat S div 256 < 2 ^ Suc K"
    "unat (compute_tree_index S) = 2 * K + (unat S div 2 ^ (K + 7)) mod 2"
    by (rule unat_compute_tree_index [OF assms(1) True])
  let ?w = "2 ^ (K + 7) :: nat" and ?q = "unat S div 2 ^ (K + 7)"
  have lo: "2 * ?w \<le> unat S"
    using K(2) by (simp add: power_add less_eq_div_iff_mult_less_eq)
  have hi: "unat S < 4 * ?w"
    using K(3) by (simp add: power_add div_less_iff_less_mult)
  have q: "?w * ?q \<le> unat S" "unat S < ?w * (?q + 1)"
    using dividend_less_times_div [of ?w "unat S"] by (simp_all add: algebra_simps)
  have "2 \<le> ?q" using lo by (simp add: less_eq_div_iff_mult_less_eq)
  moreover have "?q < 4" using hi by (simp add: div_less_iff_less_mult)
  ultimately consider "?q = 2" | "?q = 3" by linarith
  then show ?thesis
    by cases (use K(1,4) q in \<open>auto simp: Let_def treebin_min_def power_add\<close>)
next
  case False
  let ?X = "ucast (drop_bit TREEBIN_SHIFT S) :: u32"
  have "unat ?X = unat S div 256" using assms by (intro unat_tree_X) simp
  then have "?X \<noteq> 0" "0xFFFF < ?X"
    using False by (auto simp: word_less_nat_alt unat_eq_0 [symmetric])
  then have "compute_tree_index S = 31"
    by (simp add: compute_tree_index_def NTREEBINS_def)
  then show ?thesis using False by (simp add: treebin_min_def Let_def)
qed

lemma treebin_min_mono: "i \<le> j \<Longrightarrow> treebin_min i \<le> treebin_min j"
proof (rule lift_Suc_mono_le [of treebin_min])
  show "treebin_min n \<le> treebin_min (Suc n)" for n
    by (cases "even n") (auto simp: treebin_min_def power_add elim!: evenE oddE)
qed

lemma tree_index_mono:
  assumes "256 \<le> unat S" "unat S \<le> unat R" "unat R < 2 ^ 40"
  shows "unat (compute_tree_index S) \<le> unat (compute_tree_index R)"
proof (rule ccontr)
  assume "\<not> ?thesis"
  then have lt: "unat (compute_tree_index R) + 1 \<le> unat (compute_tree_index S)" by simp
  have "unat S < 2 ^ 40" "256 \<le> unat R" using assms by simp_all
  then have "treebin_min (unat (compute_tree_index S)) \<le> unat S" "unat (compute_tree_index S) < 32"
    "unat (compute_tree_index R) < 31 \<longrightarrow> unat R < treebin_min (unat (compute_tree_index R) + 1)"
    using tree_index_range [of S] tree_index_range [of R] assms by (simp_all add: Let_def)
  then show False using treebin_min_mono [OF lt] lt assms(2) by simp
qed

text \<open>
  \<open>compute_tree_index\<close> sorts the large sizes into 32 bins, two per power of two: a size below
  2^40 goes to the bin whose range \<open>[treebin_min i, treebin_min (i + 1))\<close> contains it, and the last bin
  takes everything from \<open>treebin_min 31\<close> on.
\<close>

lemma compute_tree_index_range:
  assumes "256 \<le> unat S" "unat S < 2 ^ 40"
  shows "let i = unat (compute_tree_index S) in
    i < 32 \<and> treebin_min i \<le> unat S \<and> (i < 31 \<longrightarrow> unat S < treebin_min (i + 1))"
  by (rule tree_index_range [OF assms])

text \<open>
  The index is computed from the size cut to 32 bits behind the shift, so a chunk whose size
  is a multiple of 2^40 bytes is filed in bin 0, the bin of the sizes from 256 to 383.
\<close>

lemma compute_tree_index_truncates:
  assumes "unat S mod 2 ^ 40 = 0"
  shows "compute_tree_index S = 0"
proof -
  obtain k where "unat S = 2 ^ 40 * k" using assms by (auto elim!: dvdE simp: mod_eq_0_iff_dvd)
  then have "unat S = 256 * (4294967296 * k)" by simp
  then have "(unat S div 256) mod 4294967296 = 0" by simp
  then have "unat (ucast (drop_bit TREEBIN_SHIFT S) :: u32) = 0"
    by (simp add: TREEBIN_SHIFT_def unsigned_ucast_eq unat_drop_bit take_bit_eq_mod)
  then show ?thesis by (simp add: compute_tree_index_def unat_eq_0)
qed

lemma unat_leftshift:
  assumes "i < 31"
  shows "unat (leftshift_for_tree_index i) = 57 - unat i div 2"
proof -
  have i: "unat i < 31" using assms by (simp add: word_less_nat_alt)
  have d: "unat (drop_bit 1 (ucast i :: u64)) = unat i div 2"
    by (simp add: unat_drop_bit unsigned_ucast_eq take_bit_eq_mod i less_trans [OF i])
  have "unat (drop_bit 1 (ucast i :: u64) + of_nat TREEBIN_SHIFT - 2) = unat i div 2 + 6"
    using d i by (simp add: TREEBIN_SHIFT_def add_diff_eq [symmetric] unat_add_64)
  then have "unat ((SIZE_T_BITSIZE - SIZE_T_ONE) - (drop_bit 1 (ucast i) + of_nat TREEBIN_SHIFT - 2)) =
      57 - unat i div 2"
    using i by (subst unat_sub_noov) (simp_all add: size_consts word_le_nat_alt)
  then show ?thesis
    using assms i by (simp add: leftshift_for_tree_index_def NTREEBINS_def unsigned_ucast_eq take_bit_eq_mod)
qed

lemma sign_bit_eq: "sign_bit K = (if bit K 63 then 1 else 0)"
  by (simp add: sign_bit_def size_consts and_one_eq bit_iff_odd_drop_bit
      odd_iff_mod_2_eq_one even_iff_mod_2_eq_zero)

text \<open>
  \<open>leftshift_for_tree_index\<close> moves the highest bit in which the sizes of bin \<open>i\<close> can differ to
  the sign bit, from where the descent takes one bit per level.
\<close>

lemma tree_descent_bit:
  assumes "i < 31"
  shows "sign_bit (push_bit (unat (leftshift_for_tree_index i)) S) = (if bit S (6 + unat i div 2) then 1 else 0)"
proof -
  let ?n = "unat (leftshift_for_tree_index i)"
  have i: "unat i < 31" using assms by (simp add: word_less_nat_alt)
  have n: "?n = 57 - unat i div 2" by (rule unat_leftshift [OF assms])
  have e: "63 - ?n = 6 + unat i div 2" using n i by simp
  have "?n \<le> 63" using n by simp
  then have "bit (push_bit ?n S) 63 \<longleftrightarrow> bit S (6 + unat i div 2)"
    using e by (simp only: bit_push_bit_iff) simp
  then show ?thesis by (simp add: sign_bit_eq)
qed

section \<open>A second size never enters a tree bin\<close>

lemma insert_descend_stops_at_zero:
  assumes "insert_descend h S T K = Some (T', Some C)"
  shows "h C = 0"
proof -
  have "snd r = Some C \<longrightarrow> h C = 0" if "insert_descend h S T K = Some r" for r
    by (rule insert_descend.raw_induct [where P = "\<lambda>h S T K r. snd r = Some C \<longrightarrow> h C = 0", OF _ that])
      (auto simp: Let_def split: if_splits)
  from this [OF assms] show ?thesis by simp
qed

lemma insert_second_size:
  assumes "treemap_is_marked s (compute_tree_index S) \<noteq> 0" and "least_addr s \<noteq> 0"
    and "s1 = upd_mem (\<lambda>h. set_child (set_child (set_tindex h X (compute_tree_index S)) X 1 0) X 0 0) s"
    and "insert_descend (mem s1) S (treebin_at s (compute_tree_index S))
      (push_bit (unat (leftshift_for_tree_index (compute_tree_index S))) S) = Some (T, Some C)"
  shows "insert_large_chunk X S s = throw Memory_Corrupted s1"
proof -
  have "mem s1 C = 0" by (rule insert_descend_stops_at_zero [OF assms(4)])
  then have "\<not> ok_address s1 (mem s1 C)"
    using assms(2) by (simp add: ok_address_def assms(3))
  moreover have "treemap_is_marked s1 = treemap_is_marked s" "treebin_at s1 = treebin_at s"
    by (simp_all add: assms(3) upd_mem_def treemap_is_marked_def treebin_at_def fun_eq_iff)
  ultimately show ?thesis
    using assms(1,4) by (simp add: insert_large_chunk_def Let_def assms(3) [symmetric])
qed

text \<open>
  Where dlmalloc checks the address of the child cell, \<open>insert_large_chunk\<close> checks the null pointer
  found in it, which lies below \<open>least_addr\<close>: inserting a chunk into a marked tree bin whenever the
  descent reaches an empty child cell, that is, whenever the bin holds no chunk of the same size on
  that path, throws \<open>MemoryCorruptedException\<close> on a heap that is not corrupted.
\<close>

lemma insert_second_size_throws:
  assumes "treemap_is_marked s (compute_tree_index S) \<noteq> 0" and "least_addr s \<noteq> 0"
    and "s1 = upd_mem (\<lambda>h. set_child (set_child (set_tindex h X (compute_tree_index S)) X 1 0) X 0 0) s"
    and "insert_descend (mem s1) S (treebin_at s (compute_tree_index S))
      (push_bit (unat (leftshift_for_tree_index (compute_tree_index S))) S) = Some (T, Some C)"
  shows "insert_large_chunk X S s = throw Memory_Corrupted s1"
  using assms by (rule insert_second_size)

lemma ex_tree_index: "compute_tree_index 272 = 0"
  by code_simp

text \<open>One chunk of 256 bytes in tree bin 0.\<close>

definition ex_tree_mstate :: mstate where
  "ex_tree_mstate = ex_mstate\<lparr>treemap := 1, treebins := 2097152 # replicate 31 0,
     mem := (\<lambda>_. 0)(2097160 := 257, 2097168 := 2097152, 2097176 := 2097152, 2097200 := 2097152)\<rparr>"

end
