(* ===== verification/Uni_Heap.thy ===== *)
theory Uni_Heap
  imports Tree_Bins
begin

text \<open>
  The heap of \<open>UniAllocator\<close>: a segment tiled by chunks up to the \<open>top\<close> chunk. \<open>hrep\<close> relates the list of chunks to
  the head and foot words in memory; it is kept by any step that replaces some chunks by others with
  the same bounds and writes the heads and feet they need.
\<close>

unbundle bit_operations_syntax

section \<open>Tilings\<close>

text \<open>A chunk of the abstract heap: its address, whether it is in use, and its size.\<close>

type_synonym uchunk = "addr \<times> bool \<times> u64"

fun tiled :: "addr \<Rightarrow> uchunk list \<Rightarrow> addr \<Rightarrow> bool" where
  "tiled a [] e \<longleftrightarrow> e = a"
| "tiled a ((b, u, n) # cs) e \<longleftrightarrow>
     b = a \<and> 32 \<le> unat n \<and> 16 dvd unat n \<and> unat a + unat n < 2 ^ 64 \<and> tiled (a + n) cs e"

lemma tiled_append: "tiled a (xs @ ys) e \<longleftrightarrow> (\<exists>m. tiled a xs m \<and> tiled m ys e)"
  by (induction a xs e rule: tiled.induct) auto

lemma tiled_step: "32 \<le> unat n \<Longrightarrow> unat (a :: addr) + unat n < 2 ^ 64 \<Longrightarrow> unat (a + n) = unat a + unat n"
  by (intro unat_add_noov) simp

lemma tiled_le: "tiled a cs e \<Longrightarrow> unat a \<le> unat e"
  by (induction a cs e rule: tiled.induct) (auto simp: tiled_step)

lemma tiled_bounds:
  "tiled a cs e \<Longrightarrow> (x, u, n) \<in> set cs \<Longrightarrow>
   unat a \<le> unat x \<and> 32 \<le> unat n \<and> unat x + unat n \<le> unat e"
proof (induction a cs e rule: tiled.induct)
  case (2 a b v m cs e)
  then show ?case using tiled_le [of "a + m" cs e] by (auto simp: tiled_step)
qed simp

lemma tiled_aligned:
  "tiled a cs e \<Longrightarrow> 16 dvd unat a \<Longrightarrow> 16 dvd unat e \<and> (\<forall>(x, u, n) \<in> set cs. 16 dvd unat x \<and> 16 dvd unat n)"
proof (induction a cs e rule: tiled.induct)
  case (2 a b v m cs e)
  then have "16 dvd unat (a + m)" by (simp add: tiled_step)
  then show ?case using 2 by simp
qed simp

lemma tiled_mid:
  assumes "tiled a (xs @ (p, u, n) # ys) e"
  shows "tiled a xs p" "tiled (p + n) ys e" "32 \<le> unat n" "16 dvd unat n" "unat p + unat n < 18446744073709551616"
    "unat (p + n) = unat p + unat n"
  using assms by (auto simp: tiled_append tiled_step)

text \<open>Two chunks do not overlap.\<close>

lemma tiled_apart:
  assumes "tiled a (xs @ (p, u, n) # ys) e" "(x, v, m) \<in> set xs \<union> set ys"
  shows "unat x + unat m \<le> unat p \<or> unat p + unat n \<le> unat x"
  using assms(2) tiled_bounds [OF tiled_mid(1) [OF assms(1)], of x v m]
    tiled_bounds [OF tiled_mid(2) [OF assms(1)], of x v m] tiled_mid(6) [OF assms(1)] by auto

lemma tiled_unique:
  assumes "tiled a cs e" "(x, u, n) \<in> set cs" "(x, v, m) \<in> set cs"
  shows "u = v \<and> n = m"
proof -
  obtain xs ys where cs: "cs = xs @ (x, u, n) # ys" using assms(2) by (meson split_list)
  have "(x, v, m) \<notin> set xs \<union> set ys"
    using tiled_apart [of a xs x u n ys e x v m] tiled_bounds [OF assms(1,3)] tiled_mid(3) assms(1) cs by fastforce
  then show ?thesis using assms(3) cs by auto
qed

section \<open>Heads and feet\<close>

definition head_word :: "bool \<Rightarrow> bool \<Rightarrow> u64 \<Rightarrow> u64" where
  "head_word pu u n = n OR (if pu then PINUSE_BIT else 0) OR (if u then CINUSE_BIT else 0)"

fun heads :: "heap \<Rightarrow> bool \<Rightarrow> uchunk list \<Rightarrow> bool" where
  "heads h pu [] \<longleftrightarrow> True"
| "heads h pu ((a, u, n) # cs) \<longleftrightarrow>
     head h a = head_word pu u n \<and> (u \<or> prev_foot h (a + n) = n) \<and> heads h u cs"

abbreviation used :: "uchunk \<Rightarrow> bool" where "used x \<equiv> fst (snd x)"

definition last_use :: "bool \<Rightarrow> uchunk list \<Rightarrow> bool" where
  "last_use pu cs = (if cs = [] then pu else used (last cs))"

text \<open>No two neighbours are free, and the last chunk is in use: the top chunk behind it is free.\<close>

definition spaced :: "uchunk list \<Rightarrow> bool" where
  "spaced cs \<longleftrightarrow> successively (\<lambda>x y. used x \<or> used y) cs \<and> last_use True cs"

lemma last_use_simps [simp]:
  "last_use pu [] = pu" "last_use pu ((a, u, n) # cs) = last_use u cs"
  "last_use pu (xs @ ys) = last_use (last_use pu xs) ys"
  by (simp_all add: last_use_def)

lemma heads_append [simp]: "heads h pu (xs @ ys) \<longleftrightarrow> heads h pu xs \<and> heads h (last_use pu xs) ys"
  by (induction h pu xs rule: heads.induct) auto

lemma spaced_Nil [simp]: "spaced []"
  by (simp add: spaced_def)

lemma spaced_append:
  "spaced (xs @ ys) \<longleftrightarrow> successively (\<lambda>x y. used x \<or> used y) xs \<and> successively (\<lambda>x y. used x \<or> used y) ys \<and>
     (xs \<noteq> [] \<and> ys \<noteq> [] \<longrightarrow> used (last xs) \<or> used (hd ys)) \<and> last_use (last_use True xs) ys"
  by (auto simp: spaced_def successively_append_iff)

lemmas spaced_simps = spaced_append successively_append_iff successively_Cons last_use_def

text \<open>What the flags of a head say.\<close>

lemma flag_free_16: "16 dvd unat n \<Longrightarrow> flag_free n"
  unfolding flag_free_iff by (auto elim!: dvdE)

lemma head_word_simps:
  assumes "flag_free n"
  shows "head_word pu u n AND NOT FLAG_BITS = n"
    "head_word pu u n AND PINUSE_BIT \<noteq> 0 \<longleftrightarrow> pu" "head_word pu u n AND CINUSE_BIT \<noteq> 0 \<longleftrightarrow> u"
    "head_word pu u n AND INUSE_BITS = INUSE_BITS \<longleftrightarrow> pu \<and> u"
    "head_word pu u n AND INUSE_BITS \<noteq> PINUSE_BIT \<longleftrightarrow> \<not> (pu \<and> \<not> u)"
    "head_word pu u n OR PINUSE_BIT = head_word True u n"
    "head_word pu u n AND NOT PINUSE_BIT = head_word False u n"
proof -
  have n: "n AND NOT 7 = n" "n AND 1 = 0" "n AND 2 = 0" "n AND 3 = 0" "n AND 7 = 0"
    using head_bits(1-4) [of n] assms by (auto simp: flag_free_def size_consts)
  show "head_word pu u n AND NOT FLAG_BITS = n"
    "head_word pu u n AND PINUSE_BIT \<noteq> 0 \<longleftrightarrow> pu" "head_word pu u n AND CINUSE_BIT \<noteq> 0 \<longleftrightarrow> u"
    "head_word pu u n AND INUSE_BITS = INUSE_BITS \<longleftrightarrow> pu \<and> u"
    "head_word pu u n AND INUSE_BITS \<noteq> PINUSE_BIT \<longleftrightarrow> \<not> (pu \<and> \<not> u)"
    using n by (auto simp: head_word_def size_consts bit.conj_disj_distrib2 split: if_splits)
  show "head_word pu u n OR PINUSE_BIT = head_word True u n"
    by (rule bit_word_eqI) (auto simp: head_word_def size_consts bit_or_iff)
  have "n = (n AND 1) OR (n AND NOT 1)" by (metis bit.conj_disj_distrib bit.disj_cancel_right and.right_neutral)
  then have "n AND - 2 = n" using n(2) by simp
  then show "head_word pu u n AND NOT PINUSE_BIT = head_word False u n"
    by (auto simp: head_word_def size_consts bit.conj_disj_distrib2 split: if_splits)
qed

section \<open>The representation\<close>

definition hrep :: "heap \<Rightarrow> addr \<Rightarrow> uchunk list \<Rightarrow> addr \<Rightarrow> u64 \<Rightarrow> bool" where
  "hrep h base cs tp tsz \<longleftrightarrow>
     tiled base cs tp \<and> base \<noteq> 0 \<and> 16 dvd unat base \<and> unat tp + unat tsz + 16 < 2 ^ 64 \<and>
     8 dvd unat tsz \<and> tsz \<noteq> 0 \<and> heads h True cs \<and> spaced cs \<and> head h tp = head_word True False tsz"

text \<open>The words that \<open>hrep\<close> reads: the first two of every chunk.\<close>

lemma unat_add_8: "unat (a :: addr) + 8 < 2 ^ 64 \<Longrightarrow> unat (a + 8) = unat a + 8"
  by (subst unat_add_noov) simp_all

lemma heads_frame:
  assumes "heads h pu cs"
    and "\<And>x u n. (x, u, n) \<in> set cs \<Longrightarrow> h' (x + 8) = h (x + 8) \<and> h' (x + n) = h (x + n)"
  shows "heads h' pu cs"
  using assms
proof (induction h pu cs rule: heads.induct)
  case (2 h pu a u n cs)
  have "h' (a + 8) = h (a + 8)" "h' (a + n) = h (a + n)" using 2(3) [of a u n] by simp_all
  moreover have "heads h' u cs"
  proof (rule 2(1))
    show "heads h u cs" using 2(2) by simp
    show "h' (x + 8) = h (x + 8) \<and> h' (x + m) = h (x + m)" if "(x, v, m) \<in> set cs" for x v m
      using 2(3) [of x v m] that by simp
  qed
  ultimately show ?case using 2(2) by (simp add: head_def prev_foot_def)
qed simp

lemma hrep_wf:
  assumes "hrep h base cs tp tsz" "(a, u, n) \<in> set cs"
  shows "a \<noteq> 0" "16 dvd unat a" "16 dvd unat n" "32 \<le> unat n" "flag_free n" "unat base \<le> unat a"
    "unat a + unat n \<le> unat tp" "unat (a + n) = unat a + unat n"
proof -
  have t: "tiled base cs tp" "16 dvd unat base" "base \<noteq> 0" using assms(1) by (simp_all add: hrep_def)
  note b = tiled_bounds [OF t(1) assms(2)] and al = tiled_aligned [OF t(1,2)]
  show "16 dvd unat a" "16 dvd unat n" using al assms(2) by auto
  then show "flag_free n" by (intro flag_free_16)
  show "32 \<le> unat n" "unat base \<le> unat a" and tp: "unat a + unat n \<le> unat tp" using b by auto
  show "a \<noteq> 0" using b t(3) by (auto simp: unat_eq_0 [symmetric] simp del: unat_eq_0)
  show "unat (a + n) = unat a + unat n"
    using tp unat_lt_2_64 [of tp] by (intro unat_add_noov) linarith
qed

lemma hrep_head:
  assumes "hrep h base (xs @ (a, u, n) # ys) tp tsz"
  shows "head h a = head_word (last_use True xs) u n" "u \<or> prev_foot h (a + n) = n"
  using assms by (auto simp: hrep_def)

text \<open>
  The chunks \<open>mid\<close> between \<open>a\<close> and \<open>e\<close> are replaced by \<open>mid'\<close>: it suffices that only the words from the head at \<open>a\<close>
  up to the head at \<open>e\<close> are written, that they describe \<open>mid'\<close>, and that the head at \<open>e\<close> has the right flags.
\<close>

lemma hrep_replace:
  assumes rep: "hrep h base (xs @ mid @ ys) tp tsz"
    and mid: "tiled base xs a" "tiled a mid e" "tiled a mid' e" "mid' \<noteq> []"
    and frame: "\<And>c. h' c \<noteq> h c \<Longrightarrow> unat a + 8 \<le> unat c \<and> unat c < unat e + 16"
    and hd: "heads h' (last_use True xs) mid'" "spaced (xs @ mid' @ ys)"
    and nxt: "case ys of [] \<Rightarrow> head h' tp = head_word True False tsz
      | (b, v, m) # _ \<Rightarrow> head h' b = head_word (last_use True mid') v m"
  shows "hrep h' base (xs @ mid' @ ys) tp tsz"
proof -
  have t: "tiled base (xs @ mid @ ys) tp" "unat tp + unat tsz + 16 < 2 ^ 64"
    and hs: "heads h True (xs @ mid @ ys)" and htop: "head h tp = head_word True False tsz"
    using rep by (simp_all add: hrep_def)
  obtain a' e' where "tiled base xs a'" "tiled a' mid e'" "tiled e' ys tp" using t(1) by (auto simp: tiled_append)
  moreover have uniq: "x = y" if "tiled b zs x" "tiled b zs y" for b zs x y
    using that by (induction b zs x rule: tiled.induct) auto
  ultimately have ys: "tiled e ys tp" using mid(1,2) uniq by blast
  have le: "unat a \<le> unat e" "unat e \<le> unat tp" using tiled_le mid(2) ys by blast+
  have same: "h' c = h c" if "unat c < unat a + 8 \<or> unat e + 16 \<le> unat c" for c
    using frame [of c] that by linarith
  have "heads h' True xs"
  proof (rule heads_frame)
    show "heads h True xs" using hs by simp
    fix x u n assume x: "(x, u, n) \<in> set xs"
    note b = tiled_bounds [OF mid(1) x]
    have "unat (x + 8) = unat x + 8" "unat (x + n) = unat x + unat n"
      using b le t(2) by (intro unat_add_8 unat_add_noov; simp)+
    then show "h' (x + 8) = h (x + 8) \<and> h' (x + n) = h (x + n)" using b by (auto intro!: same)
  qed
  moreover have "heads h' (last_use True mid') ys \<and> head h' tp = head_word True False tsz"
  proof (cases ys)
    case Nil
    then show ?thesis using nxt by simp
  next
    case (Cons y zs)
    obtain b v m where y: "y = (b, v, m)" by (cases y)
    have b: "b = e" "tiled (e + m) zs tp" "32 \<le> unat m" "unat (e + m) = unat e + unat m" "unat (e + m) \<le> unat tp"
      using ys Cons y tiled_le [of "e + m" zs tp] by (auto simp: tiled_step)
    have "heads h' v zs"
    proof (rule heads_frame)
      show "heads h v zs" using hs Cons y by simp
      fix x u n assume x: "(x, u, n) \<in> set zs"
      note bx = tiled_bounds [OF b(2) x]
      have "unat (x + 8) = unat x + 8" "unat (x + n) = unat x + unat n"
        using bx t(2) by (intro unat_add_8 unat_add_noov; simp)+
      then show "h' (x + 8) = h (x + 8) \<and> h' (x + n) = h (x + n)" using bx b by (auto intro!: same)
    qed
    moreover have "v \<or> prev_foot h' (e + m) = m"
      using hs Cons y b by (auto simp: prev_foot_def same)
    moreover have "unat (tp + 8) = unat tp + 8" using t(2) by (intro unat_add_8) simp
    then have "head h' tp = head h tp" using b by (simp add: head_def same)
    ultimately show ?thesis using nxt Cons y b(1) htop by simp
  qed
  ultimately show ?thesis
    using rep mid hd ys unfolding hrep_def by (auto simp: tiled_append last_use_def)
qed

section \<open>The steps of \<open>Alloc\<close> and \<open>Free\<close> on heads and feet\<close>

lemma spaced_next:
  assumes "spaced (xs @ (a, False, n) # ys)"
  shows "\<exists>b m zs. ys = (b, True, m) # zs"
  using assms by (cases ys) (auto simp: spaced_simps split: if_splits)

lemma spaced_prev: "spaced (xs @ (a, False, n) # ys) \<Longrightarrow> last_use True xs"
  by (auto simp: spaced_simps)

text \<open>What is known of the words around a chunk.\<close>

lemma hrep_mid:
  assumes "hrep h base (xs @ (a, u, n) # ys) tp tsz"
  shows "tiled base xs a" "tiled a [(a, u, n)] (a + n)" "tiled (a + n) ys tp" "32 \<le> unat n" "16 dvd unat n"
    "unat (a + n) = unat a + unat n" "unat a + unat n \<le> unat tp" "unat tp + unat tsz + 16 < 18446744073709551616"
    "unat (a + 8) = unat a + 8" "unat (a + n + 8) = unat a + unat n + 8" "flag_free n"
proof -
  have t: "tiled base (xs @ (a, u, n) # ys) tp" "unat tp + unat tsz + 16 < 18446744073709551616"
    using assms by (simp_all add: hrep_def)
  note m = tiled_mid [OF t(1)]
  show "tiled base xs a" "tiled (a + n) ys tp" "32 \<le> unat n" "16 dvd unat n" "unat (a + n) = unat a + unat n"
    "tiled a [(a, u, n)] (a + n)"
    using m by simp_all
  show le: "unat a + unat n \<le> unat tp" using tiled_le [OF m(2)] m(6) by simp
  show "unat tp + unat tsz + 16 < 18446744073709551616" by (rule t(2))
  show "unat (a + 8) = unat a + 8" using le t(2) m(3) by (intro unat_add_8) simp
  show "unat (a + n + 8) = unat a + unat n + 8" using le t(2) m(6) by (subst unat_add_8) simp_all
  show "flag_free n" using m(4) by (rule flag_free_16)
qed

lemma hrep_take:
  assumes rep: "hrep h base (xs @ (a, False, n) # ys) tp tsz"
  shows "hrep (set_head (set_head h a (n OR PINUSE_BIT OR CINUSE_BIT)) (a + n) (head h (a + n) OR PINUSE_BIT))
    base (xs @ (a, True, n) # ys) tp tsz" (is "hrep ?h _ _ _ _")
proof -
  note m = hrep_mid [OF rep]
  have sp: "spaced (xs @ (a, False, n) # ys)" using rep by (simp add: hrep_def)
  obtain b k zs where ys: "ys = (b, True, k) # zs" using spaced_next [OF sp] by blast
  have b: "b = a + n" "16 dvd unat k" using m(3) ys by auto
  have hb: "head h (a + n) = head_word False True k"
    using hrep_head(1) [of h base "xs @ [(a, False, n)]" "a + n" True k zs] rep ys b by simp
  have "hrep ?h base (xs @ [(a, True, n)] @ ys) tp tsz"
  proof (rule hrep_replace [of h base xs "[(a, False, n)]" ys tp tsz a "a + n"])
    show "unat a + 8 \<le> unat c \<and> unat c < unat (a + n) + 16" if "?h c \<noteq> h c" for c
      using that m by (auto simp: set_head_def split: if_splits)
    show "heads ?h (last_use True xs) [(a, True, n)]"
      using spaced_prev [OF sp] m(4,6) by (auto simp: head_word_def or.assoc)
    show "spaced (xs @ [(a, True, n)] @ ys)" using sp ys by (auto simp: spaced_simps split: if_splits)
    show "case ys of [] \<Rightarrow> head ?h tp = head_word True False tsz
      | (b, v, m) # _ \<Rightarrow> head ?h b = head_word (last_use True [(a, True, n)]) v m"
      using ys b hb head_word_simps(6) [of k False True] flag_free_16 [of k] by simp
  qed (use rep m in simp_all)
  then show ?thesis by simp
qed

text \<open>A free chunk of \<open>n\<close> bytes is cut: its first \<open>k\<close> bytes are in use, the rest is free.\<close>

lemma hrep_cut:
  assumes rep: "hrep h base (xs @ (a, False, n) # ys) tp tsz"
    and k: "16 dvd unat k" "32 \<le> unat k" "unat k + 32 \<le> unat n"
  shows "hrep (set_size_and_pinuse_of_free_chunk (set_size_and_pinuse_of_inuse_chunk h a k) (a + k) (n - k))
    base (xs @ (a, True, k) # (a + k, False, n - k) # ys) tp tsz" (is "hrep ?h _ _ _ _")
proof -
  note m = hrep_mid [OF rep]
  have sp: "spaced (xs @ (a, False, n) # ys)" using rep by (simp add: hrep_def)
  obtain b l zs where ys: "ys = (b, True, l) # zs" using spaced_next [OF sp] by blast
  have b: "b = a + n" using m(3) ys by auto
  have hb: "head h (a + n) = head_word False True l"
    using hrep_head(1) [of h base "xs @ [(a, False, n)]" "a + n" True l zs] rep ys b by simp
  have ak: "unat (a + k) = unat a + unat k" "unat (n - k) = unat n - unat k"
    using k m(7,8) by (auto intro!: unat_add_noov unat_sub_noov simp: word_le_nat_alt)
  have ak8: "unat (a + k + 8) = unat a + unat k + 8" using ak k m(7,8) by (subst unat_add_8) simp_all
  have an: "a + k + (n - k) = a + n" by simp
  have eqs: "a + k + 8 \<noteq> a + 8" "a + n \<noteq> a + 8" "a + n \<noteq> a + k + 8" "a + n + 8 \<noteq> a + k + 8" "a + n + 8 \<noteq> a + 8"
  proof -
    have "unat x \<noteq> unat y \<Longrightarrow> x \<noteq> y" for x y :: addr by auto
    note ne = this
    show "a + k + 8 \<noteq> a + 8" "a + n \<noteq> a + 8" "a + n \<noteq> a + k + 8" "a + n + 8 \<noteq> a + k + 8" "a + n + 8 \<noteq> a + 8"
      by (rule ne, unfold m(6,9,10) ak8, use m(4) k in linarith)+
  qed
  have "hrep ?h base (xs @ [(a, True, k), (a + k, False, n - k)] @ ys) tp tsz"
  proof (rule hrep_replace [of h base xs "[(a, False, n)]" ys tp tsz a "a + n"])
    show "unat a + 8 \<le> unat c \<and> unat c < unat (a + n) + 16" if "?h c \<noteq> h c" for c
      using that m ak8 k an by (auto simp: set_head_def set_foot_def set_prev_foot_def
          set_size_and_pinuse_of_free_chunk_def set_size_and_pinuse_of_inuse_chunk_def split: if_splits)
    show "tiled a [(a, True, k), (a + k, False, n - k)] (a + n)"
      using k ak m an by (auto simp: dvd_diff_nat)
    show "heads ?h (last_use True xs) [(a, True, k), (a + k, False, n - k)]"
      using spaced_prev [OF sp] eqs an
      by (simp add: head_word_def or.assoc head_def prev_foot_def set_head_def set_foot_def set_prev_foot_def
          set_size_and_pinuse_of_free_chunk_def set_size_and_pinuse_of_inuse_chunk_def)
    show "spaced (xs @ [(a, True, k), (a + k, False, n - k)] @ ys)"
      using sp ys by (auto simp: spaced_simps split: if_splits)
    show "case ys of [] \<Rightarrow> head ?h tp = head_word True False tsz
      | (b, v, l) # _ \<Rightarrow> head ?h b = head_word (last_use True [(a, True, k), (a + k, False, n - k)]) v l"
      using ys b hb eqs an
      by (simp add: head_def set_head_def set_foot_def set_prev_foot_def
          set_size_and_pinuse_of_free_chunk_def set_size_and_pinuse_of_inuse_chunk_def)
  qed (use rep m in simp_all)
  then show ?thesis by simp
qed

text \<open>A chunk is cut off the top.\<close>

lemma hrep_grow:
  assumes rep: "hrep h base cs tp tsz" and k: "16 dvd unat k" "32 \<le> unat k" "k < tsz"
  shows "hrep (set_head (set_head h (tp + k) ((tsz - k) OR PINUSE_BIT)) tp (k OR PINUSE_BIT OR CINUSE_BIT))
    base (cs @ [(tp, True, k)]) (tp + k) (tsz - k)" (is "hrep ?h _ _ _ _")
proof -
  have r: "tiled base cs tp" "base \<noteq> 0" "16 dvd unat base" "unat tp + unat tsz + 16 < 18446744073709551616"
    "8 dvd unat tsz" "heads h True cs" "spaced cs"
    using rep by (simp_all add: hrep_def)
  have tk: "unat (tp + k) = unat tp + unat k" "unat (tsz - k) = unat tsz - unat k"
    using k r(4) by (auto intro!: unat_add_noov unat_sub_noov simp: word_le_nat_alt word_less_nat_alt)
  have tp8: "unat (tp + 8) = unat tp + 8" using r(4) by (subst unat_add_8) simp_all
  have tk8: "unat (tp + k + 8) = unat tp + unat k + 8"
    using tk k r(4) by (subst unat_add_8) (simp_all add: word_less_nat_alt)
  have "heads ?h True cs"
  proof (rule heads_frame [OF r(6)])
    fix x u n assume x: "(x, u, n) \<in> set cs"
    note b = tiled_bounds [OF r(1) x]
    have "unat (x + 8) = unat x + 8" "unat (x + n) = unat x + unat n"
      using b r(4) by (intro unat_add_8 unat_add_noov; simp)+
    then have "x + 8 \<noteq> tp + 8" "x + 8 \<noteq> tp + k + 8" "x + n \<noteq> tp + 8" "x + n \<noteq> tp + k + 8"
      using b tk tp8 tk8 by (auto dest!: arg_cong [where f = unat])
    then show "?h (x + 8) = h (x + 8) \<and> ?h (x + n) = h (x + n)" by (simp add: set_head_def)
  qed
  moreover have "last_use True cs" using r(7) by (simp add: spaced_def)
  moreover have "spaced (cs @ [(tp, True, k)])" using r(7) by (auto simp: spaced_simps spaced_def)
  moreover have "tp + k \<noteq> tp" "k \<noteq> 0" using k by auto
  moreover have "tiled tp [(tp, True, k)] (tp + k)" using k r(4) by (simp add: word_less_nat_alt)
  moreover have "8 dvd unat tsz - unat k" using r(5) k(1) dvd_trans [of 8 16 "unat k"] by (simp add: dvd_diff_nat)
  ultimately show ?thesis using r k tk
    by (auto simp: hrep_def tiled_append head_word_def or.assoc word_less_nat_alt)
qed

lemma tiled_size:
  assumes "tiled a mid e" "mid \<noteq> []" "unat e < 18446744073709551616"
  shows "32 \<le> unat (e - a)" "16 dvd unat (e - a)" "unat (e - a) = unat e - unat a" "a + (e - a) = e"
proof -
  obtain x u n where x: "(x, u, n) \<in> set mid" using assms(2) by (cases mid) auto
  show s: "unat (e - a) = unat e - unat a"
    using tiled_le [OF assms(1)] by (intro unat_sub_noov) (simp add: word_le_nat_alt)
  show "32 \<le> unat (e - a)" using tiled_bounds [OF assms(1) x] s by linarith
  have "16 dvd unat e - unat a" using assms(1)
  proof (induction a mid e rule: tiled.induct)
    case (2 a b u n cs e)
    then have "unat (a + n) = unat a + unat n" "unat (a + n) \<le> unat e" "16 dvd unat n" "16 dvd unat e - unat (a + n)"
      using tiled_le [of "a + n" cs e] by (auto simp: tiled_step)
    moreover have "unat e - unat a = (unat e - unat (a + n)) + unat n" using calculation by simp
    ultimately show ?case using dvd_add by metis
  qed simp
  then show "16 dvd unat (e - a)" using s by simp
qed simp


text \<open>Some neighbouring chunks \<open>mid\<close> become one free chunk, between two chunks in use.\<close>

lemma hrep_free_one:
  assumes rep: "hrep h base (xs @ mid @ ys) tp tsz" and mid: "tiled base xs a" "tiled a mid e" "mid \<noteq> []"
    and nb: "last_use True xs" "ys = (e, True, k) # zs"
    and h': "h' = set_size_and_pinuse_of_free_chunk (set_head h e (head_word False True k)) a (e - a)"
  shows "hrep h' base (xs @ (a, False, e - a) # ys) tp tsz"
proof -
  have t: "tiled base (xs @ mid @ ys) tp" "unat tp + unat tsz + 16 < 18446744073709551616"
    "spaced (xs @ mid @ ys)" using rep by (simp_all add: hrep_def)
  note s = tiled_size [OF mid(2,3) unat_lt_2_64]
  obtain m where m: "tiled e ys tp" using t(1) mid(1,2) nb(2) by (auto simp: tiled_append)
  have le: "unat a + 32 \<le> unat e" "unat e + 32 \<le> unat tp"
    using s tiled_le [OF mid(2)] m nb(2) tiled_bounds [OF m, of e True k] by auto
  have e8: "unat (a + 8) = unat a + 8" "unat (e + 8) = unat e + 8"
    using le t(2) by (auto intro!: unat_add_8)
  have ne: "e + 8 \<noteq> a + 8" "e \<noteq> a + 8" "e \<noteq> a" using e8 le by auto
  have "hrep h' base (xs @ [(a, False, e - a)] @ ys) tp tsz"
  proof (rule hrep_replace [of h base xs mid ys tp tsz a e])
    show "unat a + 8 \<le> unat c \<and> unat c < unat e + 16" if "h' c \<noteq> h c" for c
      using that e8 le s(4) by (auto simp: h' set_head_def set_foot_def set_prev_foot_def
          set_size_and_pinuse_of_free_chunk_def split: if_splits)
    show "tiled a [(a, False, e - a)] e"
      using s le t(2) unat_lt_2_64 [of e] by simp
    show "heads h' (last_use True xs) [(a, False, e - a)]"
      using ne s(4) nb(1) by (simp add: h' head_word_def head_def prev_foot_def set_head_def set_foot_def
          set_prev_foot_def set_size_and_pinuse_of_free_chunk_def)
    show "spaced (xs @ [(a, False, e - a)] @ ys)"
      using t(3) nb by (auto simp: spaced_simps split: if_splits)
    show "case ys of [] \<Rightarrow> head h' tp = head_word True False tsz
      | (b, v, m) # _ \<Rightarrow> head h' b = head_word (last_use True [(a, False, e - a)]) v m"
      using nb(2) ne s(4) by (simp add: h' head_def set_head_def set_foot_def set_prev_foot_def
          set_size_and_pinuse_of_free_chunk_def)
  qed (use rep mid in simp_all)
  then show ?thesis by simp
qed

text \<open>The last chunks become part of the top chunk.\<close>

lemma hrep_shrink:
  assumes rep: "hrep h base (xs @ mid) tp tsz" and mid: "tiled base xs a" "tiled a mid tp" "mid \<noteq> []"
    and nb: "last_use True xs" and N: "N = tsz + (tp - a)"
  shows "hrep (set_head h a (N OR PINUSE_BIT)) base xs a N" (is "hrep ?h _ _ _ _")
proof -
  have r: "base \<noteq> 0" "16 dvd unat base" "unat tp + unat tsz + 16 < 18446744073709551616"
    "8 dvd unat tsz" "heads h True (xs @ mid)" "spaced (xs @ mid)"
    using rep by (simp_all add: hrep_def)
  note s = tiled_size [OF mid(2,3) unat_lt_2_64]
  have le: "unat a \<le> unat tp" by (rule tiled_le [OF mid(2)])
  have N': "unat N = unat tsz + (unat tp - unat a)"
    using r(3) s(3) le by (simp add: N unat_add_noov)
  then have nz: "N \<noteq> 0" using s(1,3) by auto
  have "8 dvd unat tp - unat a" using s(2,3) dvd_trans [of 8 16 "unat tp - unat a"] by simp
  then have "8 dvd unat N" using N' r(4) by simp
  moreover have "heads ?h True xs"
  proof (rule heads_frame)
    show "heads h True xs" using r(5) by simp
    fix x u n assume x: "(x, u, n) \<in> set xs"
    note b = tiled_bounds [OF mid(1) x]
    have "unat (x + 8) = unat x + 8" "unat (x + n) = unat x + unat n" "unat (a + 8) = unat a + 8"
      using b r(3) le by (intro unat_add_8 unat_add_noov; simp)+
    then have "x + 8 \<noteq> a + 8" "x + n \<noteq> a + 8"
      using b by (auto dest!: arg_cong [where f = unat])
    then show "?h (x + 8) = h (x + 8) \<and> ?h (x + n) = h (x + n)" by (simp add: set_head_def)
  qed
  moreover have "spaced xs" using r(6) nb by (simp add: spaced_def successively_append_iff)
  ultimately show ?thesis using r(1-3) mid(1) N' le nz
    by (simp add: hrep_def head_word_def)
qed

end
