(* ===== verification/Bin_Store.thy ===== *)
theory Bin_Store
  imports Tree_Bins
begin

text \<open>
  The bins of \<open>MallocState\<close> as a store of free chunks. \<open>store s F\<close> says that the bins hold exactly the
  chunks \<open>F\<close> (address and size), each in the bin of its size: the small ones in rings, and those of a
  tree bin, which are all of one size, in a ring below its root. Since a second size in a tree bin makes
  \<open>insert_large_chunk\<close> throw, no tree ever has more.
\<close>

unbundle bit_operations_syntax

section \<open>Cells of different chunks\<close>

text \<open>The first 64 bytes behind \<open>p\<close> and \<open>q\<close> share no cell.\<close>

definition remote :: "addr \<Rightarrow> addr \<Rightarrow> bool" where
  "remote p q \<longleftrightarrow> (\<forall>j k. j < 64 \<and> k < 64 \<longrightarrow> p + j \<noteq> q + k)"

lemma remote_sym: "remote p q \<Longrightarrow> remote q p"
  unfolding remote_def by metis

lemma remote_cells [simp]:
  "remote p q \<Longrightarrow> (numeral j :: addr) < 64 \<Longrightarrow> (numeral k :: addr) < 64 \<Longrightarrow> p + numeral j \<noteq> q + numeral k"
  "remote p q \<Longrightarrow> p \<noteq> q"
proof -
  assume f: "remote p q"
  show "p \<noteq> q" using f [unfolded remote_def, rule_format, of 0 0] by simp
qed (simp add: remote_def)

lemma remoteI:
  assumes "unat p + 64 \<le> unat q \<or> unat q + 64 \<le> unat p" "unat p + 64 < 2 ^ 64" "unat q + 64 < 2 ^ 64"
  shows "remote p q"
  unfolding remote_def
proof (intro allI impI)
  fix j k :: addr assume "j < 64 \<and> k < 64"
  then have jk: "unat j < 64" "unat k < 64" by (simp_all add: word_less_nat_alt)
  then have "unat (p + j) = unat p + unat j" "unat (q + k) = unat q + unat k"
    using assms by (simp_all add: unat_add_noov)
  then show "p + j \<noteq> q + k" using jk assms(1) by (auto dest: arg_cong [where f = unat])
qed

section \<open>A tree bin of one size\<close>

definition leaf :: "heap \<Rightarrow> u32 \<Rightarrow> addr \<Rightarrow> bool" where
  "leaf h i p \<longleftrightarrow> child h p 0 = 0 \<and> child h p 1 = 0 \<and> tindex h p = i"

fun tree_bin :: "mstate \<Rightarrow> u32 \<Rightarrow> addr list \<Rightarrow> bool" where
  "tree_bin s i [] \<longleftrightarrow> treemap_is_marked s i = 0 \<and> treebin_at s i = 0"
| "tree_bin s i (t # ts) \<longleftrightarrow>
     treemap_is_marked s i \<noteq> 0 \<and> treebin_at s i = t \<and> ring (mem s) t ts \<and> parent (mem s) t \<noteq> 0 \<and>
     (\<forall>p\<in>set ts. parent (mem s) p = 0) \<and> (\<forall>p\<in>set (t # ts). leaf (mem s) i p)"

definition same_cells :: "heap \<Rightarrow> heap \<Rightarrow> addr \<Rightarrow> bool" where
  "same_cells h h' p \<longleftrightarrow> h' (p + 16) = h (p + 16) \<and> h' (p + 24) = h (p + 24) \<and> h' (p + 32) = h (p + 32) \<and>
     h' (p + 40) = h (p + 40) \<and> h' (p + 48) = h (p + 48) \<and> h' (p + 56) = h (p + 56)"

lemma child_cells [simp]: "child_cell p 0 = p + 32" "child_cell p 1 = p + 40"
  by (simp_all add: child_cell_def)

lemmas cell_defs = child_def parent_def tindex_def set_child_def set_parent_def set_tindex_def

lemma same_cells_fields:
  assumes "same_cells h h' p"
  shows "fd h' p = fd h p" "bk h' p = bk h p" "parent h' p = parent h p" "leaf h' i p = leaf h i p"
  using assms by (simp_all add: same_cells_def leaf_def cell_defs fd_def bk_def)

lemma tree_bin_cong:
  assumes "\<And>p. p \<in> set ps \<Longrightarrow> same_cells (mem s) (mem s') p"
    and "treemap_is_marked s' i = 0 \<longleftrightarrow> treemap_is_marked s i = 0" "treebin_at s' i = treebin_at s i"
  shows "tree_bin s' i ps \<longleftrightarrow> tree_bin s i ps"
proof (cases ps)
  case (Cons t ts)
  have "ring (mem s') t ts \<longleftrightarrow> ring (mem s) t ts"
    by (rule ring_cong) (use assms(1) Cons in \<open>auto simp: same_cells_fields\<close>)
  moreover have "parent (mem s') p = parent (mem s) p \<and> leaf (mem s') i p = leaf (mem s) i p"
    if "p \<in> set ps" for p using same_cells_fields [OF assms(1) [OF that]] by blast
  ultimately show ?thesis using assms(2,3) Cons by simp
qed (use assms in simp)

text \<open>A ring can be entered at any of its nodes.\<close>

lemma ring_rotate:
  assumes "ring h b (qs @ [r])"
  shows "ring h r (b # qs)"
proof -
  have "links h ((b # qs) @ [r, b])" "distinct (b # qs @ [r])" using assms by (simp_all add: ring_def)
  moreover have "links h ((b # qs) @ [r])" "fd h r = b" "bk h b = r"
    using calculation(1) links_append [of "b # qs" "[r, b]" h] links_append [of "b # qs" "[r]" h] by auto
  moreover have "links h ([r] @ (b # qs @ [r]))"
    using calculation by (subst links_append) auto
  ultimately show ?thesis by (auto simp: ring_def)
qed

section \<open>Nodes that share no cell\<close>

definition scattered :: "addr set \<Rightarrow> bool" where
  "scattered N \<longleftrightarrow> (\<forall>x\<in>N. \<forall>y\<in>N. x = y \<or> remote x y)"

lemma scattered_subset: "scattered N \<Longrightarrow> M \<subseteq> N \<Longrightarrow> scattered M"
  by (auto simp: scattered_def)

lemma scattered_apart: "scattered N \<Longrightarrow> apart N"
  unfolding apart_def
proof (intro ballI notI)
  fix x y assume N: "scattered N" "x \<in> N" "y \<in> N" and eq: "x = y + 8"
  have "x \<noteq> y" unfolding eq by simp
  then have "remote x y" using N by (auto simp: scattered_def)
  from this [unfolded remote_def, rule_format, of 0 8] eq show False by simp
qed

lemma scattered_writes:
  assumes "scattered N" "x \<in> N" "y \<in> N"
  shows "fd (set_parent h x v) y = fd h y" "bk (set_parent h x v) y = bk h y"
    "leaf (set_parent h x v) i y = leaf h i y" "parent (set_parent h x v) y = (if y = x then v else parent h y)"
    "leaf (set_fd h x v) i y = leaf h i y" "parent (set_fd h x v) y = parent h y"
    "leaf (set_bk h x v) i y = leaf h i y" "parent (set_bk h x v) y = parent h y"
proof -
  have "y = x \<or> remote y x" using assms by (auto simp: scattered_def)
  then show "fd (set_parent h x v) y = fd h y" "bk (set_parent h x v) y = bk h y"
    "leaf (set_parent h x v) i y = leaf h i y" "parent (set_parent h x v) y = (if y = x then v else parent h y)"
    "leaf (set_fd h x v) i y = leaf h i y" "parent (set_fd h x v) y = parent h y"
    "leaf (set_bk h x v) i y = leaf h i y" "parent (set_bk h x v) y = parent h y"
    by (elim disjE; simp add: leaf_def cell_defs field_defs)+
qed

lemma ring_set_parent:
  assumes "scattered N" "x \<in> N" "set (b # ps) \<subseteq> N"
  shows "ring (set_parent h x v) b ps \<longleftrightarrow> ring h b ps"
  by (rule ring_cong) (use assms in \<open>auto simp: scattered_writes(1,2) [OF assms(1,2)]\<close>)

text \<open>The operations change the two bitmaps, the roots and the heap, and the heap only in the cells \<open>C\<close>.\<close>

definition bins_step :: "addr set \<Rightarrow> mstate \<Rightarrow> mstate \<Rightarrow> bool" where
  "bins_step C s s' \<longleftrightarrow>
     s' = s\<lparr>smallmap := smallmap s', treemap := treemap s', treebins := treebins s', mem := mem s'\<rparr> \<and>
     (\<forall>c. c \<notin> C \<longrightarrow> mem s' c = mem s c)"

lemma bins_step_refl [simp]: "bins_step C s s"
  by (simp add: bins_step_def)

lemma bins_step_trans: "bins_step C s t \<Longrightarrow> bins_step C t u \<Longrightarrow> bins_step C s u"
  by (cases s; cases t; cases u) (simp add: bins_step_def)

lemma bins_step_mono: "bins_step C s t \<Longrightarrow> C \<subseteq> D \<Longrightarrow> bins_step D s t"
  by (auto simp: bins_step_def)

section \<open>Insertion of a large chunk\<close>

lemma sign_bit_01: "sign_bit K = 0 \<or> sign_bit K = 1"
  by (simp add: sign_bit_eq)

lemma insert_descend_leaf:
  assumes "leaf h i t"
  shows "insert_descend h S t K =
    Some (t, if chunksize h t = S then None else Some (child_cell t (sign_bit K)))"
  using assms sign_bit_01 [of K] by (subst insert_descend.simps) (auto simp: leaf_def child_def Let_def)

definition tree_cells :: "addr \<Rightarrow> addr set" where
  "tree_cells p = {p + 16, p + 24, p + 32, p + 40, p + 48, p + 56}"

lemma ucast_32_64 [simp]: "ucast (ucast (i :: u32) :: u64) = i"
  by (rule bit_word_eqI) (simp add: bit_simps)

lemma insert_into_empty_tree_bin:
  assumes T: "tree_bin s i []" and i: "i = compute_tree_index S" "unat i < 32" "length (treebins s) = 32" and X: "X \<noteq> 0"
  shows "\<exists>s'. insert_large_chunk X S s = ret () s' \<and> tree_bin s' i [X] \<and>
    bins_step (tree_cells X) s s' \<and> smallmap s' = smallmap s \<and>
    treebins s' = (treebins s)[unat i := X] \<and> treemap s' = treemap s OR idx2bit i"
proof -
  let ?s1 = "upd_mem (\<lambda>h. set_child (set_child (set_tindex h X i) X 1 0) X 0 0) s"
  let ?s2 = "set_treebin_at i X (mark_treemap i ?s1)"
  let ?s' = "upd_mem (\<lambda>h. set_fd (set_bk (set_parent h X (treebin_at ?s2 i)) X X) X X) ?s2"
  have "treemap_is_marked ?s1 i = 0" using T by (simp add: treemap_is_marked_def upd_mem_def)
  then have "insert_large_chunk X S s = ret () ?s'"
    by (simp add: insert_large_chunk_def Let_def i(1) [symmetric])
  moreover have "treebin_at ?s2 i = X"
    using i(2,3) by (simp add: treebin_at_def set_treebin_at_def mark_treemap_def upd_mem_def)
  moreover have "treemap_is_marked ?s' i \<noteq> 0"
    using tree.is_marked_mark [of i ?s1 i] i(2)
    by (simp add: treemap_is_marked_def upd_mem_def set_treebin_at_def mark_treemap_def)
  moreover have "leaf (mem ?s') i X" "ring (mem ?s') X []" "parent (mem ?s') X \<noteq> 0" "treebin_at ?s' i = X"
    using X i calculation(2) by (simp_all add: leaf_def cell_defs field_defs upd_mem_def ring_def set_treebin_at_def
        mark_treemap_def treebin_at_def)
  moreover have "bins_step (tree_cells X) s ?s'"
    by (auto simp: bins_step_def tree_cells_def cell_defs field_defs upd_mem_def set_treebin_at_def mark_treemap_def)
  moreover have "smallmap ?s' = smallmap s" "treebins ?s' = (treebins s)[unat i := X]" "treemap ?s' = treemap s OR idx2bit i"
    by (simp_all add: upd_mem_def set_treebin_at_def mark_treemap_def)
  ultimately show ?thesis by (intro exI [of _ ?s']) simp
qed

text \<open>The order in which \<open>insert_large_chunk\<close> links a chunk behind the root.\<close>

lemma ring_push_tree:
  assumes r: "ring h b ps" and p: "p \<notin> set (b # ps)" and ap: "apart (insert p (set (b # ps)))"
  shows "ring (set_bk (set_fd (set_fd (set_bk h (fd h b) p) b p) p (fd h b)) p b) b (p # ps)"
proof -
  have F: "fd h b = hd (ps @ [b])" using r by (cases ps) (auto simp: ring_def)
  then have "fd h b \<in> insert p (set (b # ps))" using hd_in_set [of "ps @ [b]"] by auto
  then have "fd h b + 24 \<noteq> b + 16" using fd_bk_cells [OF ap, of b "fd h b"] by auto
  then have "set_fd (set_bk h (fd h b) p) b p = set_bk (set_fd h b p) (fd h b) p"
    by (simp add: set_fd_def set_bk_def fun_upd_twist)
  then show ?thesis using ring_push [OF r p ap F] by simp
qed

text \<open>The first writes of \<open>insert_large_chunk\<close>, into the chunk that is inserted.\<close>

definition new_leaf :: "addr \<Rightarrow> u32 \<Rightarrow> mstate \<Rightarrow> mstate" where
  "new_leaf X i s = upd_mem (\<lambda>h. set_child (set_child (set_tindex h X i) X 1 0) X 0 0) s"

lemma new_leaf_simps [simp]:
  "treemap_is_marked (new_leaf X i s) j = treemap_is_marked s j" "treebin_at (new_leaf X i s) j = treebin_at s j"
  "ok_address (new_leaf X i s) a = ok_address s a" "smallmap (new_leaf X i s) = smallmap s"
  "treemap (new_leaf X i s) = treemap s" "treebins (new_leaf X i s) = treebins s"
  "c \<notin> tree_cells X \<Longrightarrow> mem (new_leaf X i s) c = mem s c"
  by (simp_all add: new_leaf_def upd_mem_def treemap_is_marked_def treebin_at_def ok_address_def cell_defs tree_cells_def)

lemma upd_mem_tree_simps [simp]:
  "treemap_is_marked (upd_mem f s) j = treemap_is_marked s j" "treebin_at (upd_mem f s) j = treebin_at s j"
  "treemap (upd_mem f s) = treemap s" "treebins (upd_mem f s) = treebins s" "smallmap (upd_mem f s) = smallmap s"
  "ok_address (upd_mem f s) a = ok_address s a" "bins_step C s (upd_mem f s) \<longleftrightarrow> (\<forall>c. c \<notin> C \<longrightarrow> f (mem s) c = mem s c)"
  by (auto simp: upd_mem_def treemap_is_marked_def treebin_at_def ok_address_def bins_step_def)

lemma new_leaf_step: "bins_step (tree_cells X) s (new_leaf X i s)"
  by (simp add: bins_step_def) (simp add: new_leaf_def upd_mem_def)

lemma leaf_new_leaf: "leaf (mem (new_leaf X i s)) i X"
  by (simp add: new_leaf_def leaf_def cell_defs)

lemma tree_bin_new_leaf:
  assumes "tree_bin s j ps" "\<And>p. p \<in> set ps \<Longrightarrow> remote p X"
  shows "tree_bin (new_leaf X i s) j ps"
proof -
  have "same_cells (mem s) (mem (new_leaf X i s)) p" if "p \<in> set ps" for p
    using assms(2) [OF that] by (simp add: same_cells_def new_leaf_def cell_defs)
  then show ?thesis using assms(1) by (subst tree_bin_cong [of _ s]) simp_all
qed

lemma chunksize_new_leaf: "t + 8 \<notin> tree_cells X \<Longrightarrow> chunksize (mem (new_leaf X i s)) t = chunksize (mem s) t"
  by (simp add: chunksize_def head_def)

lemma insert_behind_root:
  assumes T: "tree_bin s i (t # ts)" and i: "i = compute_tree_index S" and sz: "chunksize (mem s) t = S"
    and sc: "scattered (insert X (set (t # ts)))" and X: "X \<notin> set (t # ts)"
    and ok: "\<And>x. x \<in> set (t # ts) \<Longrightarrow> ok_address s x" and hd: "t + 8 \<notin> tree_cells X"
  shows "\<exists>s'. insert_large_chunk X S s = ret () s' \<and> tree_bin s' i (t # X # ts) \<and>
    bins_step (\<Union> (tree_cells ` insert X (set (t # ts)))) s s' \<and> smallmap s' = smallmap s \<and>
    treebins s' = treebins s \<and> treemap s' = treemap s"
proof -
  let ?N = "insert X (set (t # ts))"
  obtain u where u: "u = new_leaf X i s" by simp
  let ?F = "fd (mem u) t"
  let ?h = "set_parent (set_bk (set_fd (set_fd (set_bk (mem u) ?F X) t X) X ?F) X t) X 0"
  let ?s' = "upd_mem (\<lambda>h. set_parent (set_bk (set_fd (set_fd (set_bk h ?F X) t X) X ?F) X t) X 0) u"
  have T1: "tree_bin u i (t # ts)"
    unfolding u by (rule tree_bin_new_leaf [OF T]) (use sc X in \<open>auto simp: scattered_def\<close>)
  then have r: "ring (mem u) t ts" by simp
  have F: "?F \<in> set (t # ts)" using r hd_in_set [of "ts @ [t]"] by (cases ts) (auto simp: ring_def)
  have N: "?F \<in> ?N" "t \<in> ?N" "X \<in> ?N" using F by simp_all
  have "insert_large_chunk X S s = ret () ?s'"
  proof -
    have "chunksize (mem u) t = S" "leaf (mem u) i t" "ok_address u t" "ok_address u ?F"
      using T1 sz ok [OF F] ok [of t] chunksize_new_leaf [OF hd] by (simp_all add: u)
    then show ?thesis
      unfolding insert_large_chunk_def Let_def i [symmetric] new_leaf_def [symmetric] u [symmetric]
      using T1 by (simp add: insert_descend_leaf)
  qed
  moreover have "tree_bin ?s' i (t # X # ts)"
  proof -
    have "ring ?h t (X # ts)"
      using ring_push_tree [OF r X scattered_apart [OF sc]] ring_set_parent [OF sc N(3), of t "X # ts"] by auto
    moreover have "leaf ?h i y" if "y \<in> ?N" for y
    proof -
      have "leaf (mem u) i y" using T1 that leaf_new_leaf by (auto simp: u)
      then show ?thesis using that N by (simp only: scattered_writes [OF sc])
    qed
    moreover have "parent ?h y = (if y = X then 0 else parent (mem u) y)" if "y \<in> ?N" for y
      using that N by (simp only: scattered_writes [OF sc])
    moreover have "mem ?s' = ?h" by simp
    ultimately show ?thesis using T1 X unfolding tree_bin.simps by (auto simp del: bin_ops_state_simps(9))
  qed
  moreover have "bins_step (\<Union> (tree_cells ` ?N)) s ?s'"
  proof (rule bins_step_trans)
    show "bins_step (\<Union> (tree_cells ` ?N)) s u"
      unfolding u by (rule bins_step_mono [OF new_leaf_step]) auto
    have "?h c = mem u c" if "c \<notin> tree_cells X" "c \<notin> tree_cells ?F" "c \<notin> tree_cells t" for c
      using that by (simp add: tree_cells_def cell_defs set_fd_def set_bk_def)
    then show "bins_step (\<Union> (tree_cells ` ?N)) u ?s'"
      using F by (auto simp: bins_step_def upd_mem_def)
  qed
  moreover have "smallmap ?s' = smallmap s \<and> treebins ?s' = treebins s \<and> treemap ?s' = treemap s"
    by (simp add: u upd_mem_def)
  ultimately show ?thesis by blast
qed

text \<open>A chunk of another size makes the insertion throw: the child cell where the descent stops holds 0.\<close>

lemma insert_other_size:
  assumes T: "tree_bin s i (t # ts)" and i: "i = compute_tree_index S" and size: "chunksize (mem s) t \<noteq> S"
    and remote: "\<And>x. x \<in> set (t # ts) \<Longrightarrow> remote x X" and hd: "t + 8 \<notin> tree_cells X" and l: "least_addr s \<noteq> 0"
  shows "\<exists>s1. insert_large_chunk X S s = throw Memory_Corrupted s1"
proof -
  define s1 where "s1 = upd_mem (\<lambda>h. set_child (set_child (set_tindex h X i) X 1 0) X 0 0) s"
  have m1: "mem s1 = set_child (set_child (set_tindex (mem s) X i) X 1 0) X 0 0" by (simp add: s1_def)
  have "leaf (mem s) i t" "treebin_at s i = t" "treemap_is_marked s i \<noteq> 0" using T by simp_all
  moreover have "leaf (mem s1) i t \<longleftrightarrow> leaf (mem s) i t"
    using remote [of t] by (simp add: m1 leaf_def cell_defs)
  moreover have "chunksize (mem s1) t \<noteq> S"
    using size hd by (simp add: m1 chunksize_def head_def cell_defs tree_cells_def)
  ultimately have "insert_descend (mem s1) S (treebin_at s i) K = Some (t, Some (child_cell t (sign_bit K)))" for K
    by (simp add: insert_descend_leaf)
  then have "insert_large_chunk X S s = throw Memory_Corrupted s1"
    using insert_second_size [of s S s1 X t] l T s1_def i by simp
  then show ?thesis by blast
qed

section \<open>Removal of a large chunk\<close>

lemma scattered_unlink:
  assumes sc: "scattered N" and N: "F \<in> N" "R \<in> N" "y \<in> N"
  shows "leaf (set_fd (set_bk h F a) R b) i y = leaf h i y" "parent (set_fd (set_bk h F a) R b) y = parent h y"
  using N by (simp_all only: scattered_writes [OF sc])

lemma unlink_cells:
  "c \<notin> tree_cells F \<Longrightarrow> c \<notin> tree_cells R \<Longrightarrow> set_fd (set_bk h F a) R b c = h c"
  by (simp add: tree_cells_def set_fd_def set_bk_def)

lemma unlink_from_ring:
  assumes T: "tree_bin s i (t # xs @ X # ys)" and sc: "scattered (set (t # xs @ X # ys))"
    and ok: "\<And>x. x \<in> set (t # xs @ X # ys) \<Longrightarrow> ok_address s x"
  shows "\<exists>s'. unlink_large_chunk X s = ret () s' \<and> tree_bin s' i (t # xs @ ys) \<and>
    bins_step (\<Union> (tree_cells ` set (t # xs @ X # ys))) s s' \<and> smallmap s' = smallmap s \<and>
    treebins s' = treebins s \<and> treemap s' = treemap s"
proof -
  let ?N = "set (t # xs @ X # ys)"
  obtain F R where FR: "F = hd (ys @ [t])" "R = last (t # xs)" by simp
  have r: "ring (mem s) t (xs @ X # ys)" and P: "parent (mem s) X = 0" using T by simp_all
  have nb: "fd (mem s) X = F" "bk (mem s) X = R" "bk (mem s) F = X" "fd (mem s) R = X"
    using ring_neighbours [OF r] FR by auto
  have FRN: "F \<in> ?N" "R \<in> ?N" using hd_in_set [of "ys @ [t]"] last_in_set [of "t # xs"] by (auto simp: FR)
  have RX: "R \<noteq> X" using r last_in_set [of "t # xs"] by (auto simp: FR ring_def)
  let ?s' = "upd_mem (\<lambda>h. set_fd (set_bk h F R) R F) s"
  have "parent (mem ?s') X = 0" using P scattered_unlink(2) [OF sc FRN, of X] by simp
  then have "unlink_large_chunk X s = ret () ?s'"
    using RX P ok [OF FRN(1)] by (simp add: unlink_large_chunk_def unlink_replacement_def Let_def nb)
  moreover have "ring (set_fd (set_bk (mem s) F R) R F) t (xs @ ys)"
    by (rule ring_remove [OF r scattered_apart [OF sc] FR])
  then have "tree_bin ?s' i (t # xs @ ys)"
    using T scattered_unlink [OF sc FRN] unfolding tree_bin.simps by simp
  moreover have "bins_step (\<Union> (tree_cells ` ?N)) s ?s'"
    using FRN by (auto intro!: unlink_cells)
  ultimately show ?thesis by (intro exI [of _ ?s']) simp
qed

lemma unlink_only_root:
  assumes T: "tree_bin s i [X]" and i: "unat i < 32" "length (treebins s) = 32"
  shows "unlink_large_chunk X s = ret () (clear_treemap i (set_treebin_at i 0 s))"
  using T by (simp add: unlink_large_chunk_def unlink_replacement_def Let_def ring_def leaf_def)

lemma unlink_root:
  assumes T: "tree_bin s i (X # qs @ [R])" and sc: "scattered (set (X # qs @ [R]))"
    and ok: "\<And>x. x \<in> set (X # qs @ [R]) \<Longrightarrow> ok_address s x" "R \<noteq> 0"
    and i: "unat i < 32" "length (treebins s) = 32"
  shows "\<exists>s'. unlink_large_chunk X s = ret () s' \<and> tree_bin s' i (R # qs) \<and>
    bins_step (\<Union> (tree_cells ` set (X # qs @ [R]))) s s' \<and> smallmap s' = smallmap s \<and>
    treebins s' = (treebins s)[unat i := R] \<and> treemap s' = treemap s"
proof -
  let ?N = "set (X # qs @ [R])"
  obtain F where F: "F = hd (qs @ [R])" by simp
  have r0: "ring (mem s) X (qs @ [R])" and P: "parent (mem s) X \<noteq> 0" and lf: "leaf (mem s) i X" "treebin_at s i = X"
    using T by simp_all
  have r: "ring (mem s) R ([] @ X # qs)" using ring_rotate [OF r0] by simp
  have nb: "fd (mem s) X = F" "bk (mem s) X = R" "bk (mem s) F = X" "fd (mem s) R = X"
    using ring_neighbours [OF r] F by auto
  have FRN: "F \<in> ?N" "R \<in> ?N" using hd_in_set [of "qs @ [R]"] by (auto simp: F)
  have RX: "R \<noteq> X" using r by (auto simp: ring_def)
  let ?P = "parent (mem s) X"
  let ?h = "set_parent (set_fd (set_bk (mem s) F R) R F) R ?P"
  let ?s1 = "upd_mem (\<lambda>h. set_fd (set_bk h F R) R F) s"
  let ?s' = "upd_mem (\<lambda>h. set_parent h R ?P) (set_treebin_at i R ?s1)"
  have lf': "leaf ?h i y = leaf (mem s) i y" if "y \<in> ?N" for y
    using FRN that by (simp only: scattered_writes [OF sc])
  have P': "parent ?h y = (if y = R then ?P else parent (mem s) y)" if "y \<in> ?N" for y
    using FRN that by (simp only: scattered_writes [OF sc])
  have "unlink_large_chunk X s = ret () ?s'"
  proof -
    have "unlink_replacement X s = ret R ?s1"
      using RX ok(1) [OF FRN(1)] by (simp add: unlink_replacement_def Let_def nb)
    moreover have "leaf (mem ?s1) i X" using lf scattered_unlink(1) [OF sc FRN, of X] by simp
    then have "tindex (mem ?s1) X = i" by (simp add: leaf_def)
    moreover have "treebin_at ?s1 i = X" "ok_address (set_treebin_at i R ?s1) R"
      using lf ok(1) [OF FRN(2)] by (simp_all add: set_treebin_at_def ok_address_def)
    moreover have "leaf (mem ?s') i X" using lf(1) lf' [of X] by (simp add: set_treebin_at_def)
    then have "adopt_child X R 0 ?s' = ret () ?s'" "adopt_child X R 1 ?s' = ret () ?s'"
      by (simp_all add: adopt_child_def leaf_def)
    ultimately show ?thesis
      using P ok(2) unfolding unlink_large_chunk_def Let_def
      by (simp only: cbind_simps if_True if_False simp_thms refl)
  qed
  moreover have "tree_bin ?s' i (R # qs)"
  proof -
    have "apart (set (R # [] @ X # qs))" by (rule scattered_apart [OF scattered_subset [OF sc]]) auto
    then have "ring (set_fd (set_bk (mem s) F R) R F) R ([] @ qs)"
      by (rule ring_remove [OF r]) (simp_all add: F)
    then have "ring ?h R qs" using ring_set_parent [OF sc FRN(2), of R qs] by auto
    moreover have "mem ?s' = ?h" "treebin_at ?s' i = R" "treemap_is_marked ?s' i = treemap_is_marked s i"
      using i by (simp_all add: set_treebin_at_def treebin_at_def treemap_is_marked_def)
    moreover have "R \<notin> set qs" using r by (simp add: ring_def)
    ultimately show ?thesis using T P lf' P' unfolding tree_bin.simps by auto
  qed
  moreover have "bins_step (\<Union> (tree_cells ` ?N)) s ?s'"
  proof -
    have "?h c = mem s c" if "c \<notin> tree_cells F" "c \<notin> tree_cells R" for c
      using that unlink_cells [OF that] by (simp add: tree_cells_def set_parent_def)
    then show ?thesis using FRN by (auto simp: bins_step_def upd_mem_def set_treebin_at_def)
  qed
  moreover have "smallmap ?s' = smallmap s \<and> treebins ?s' = (treebins s)[unat i := R] \<and> treemap ?s' = treemap s"
    by (simp add: set_treebin_at_def upd_mem_def)
  ultimately show ?thesis by blast
qed

section \<open>The tree bins as sets\<close>

text \<open>What an operation on tree bin \<open>i\<close> leaves alone.\<close>

definition tree_step :: "u32 \<Rightarrow> addr set \<Rightarrow> mstate \<Rightarrow> mstate \<Rightarrow> bool" where
  "tree_step i N s s' \<longleftrightarrow> bins_step (\<Union> (tree_cells ` N)) s s' \<and> smallmap s' = smallmap s \<and>
     length (treebins s') = length (treebins s) \<and>
     (\<forall>j. j \<noteq> i \<longrightarrow> treebin_at s' j = treebin_at s j \<and> (treemap_is_marked s' j = 0 \<longleftrightarrow> treemap_is_marked s j = 0))"

lemma tree_stepI:
  assumes "bins_step (\<Union> (tree_cells ` N)) s s'" "smallmap s' = smallmap s"
    and "treebins s' = treebins s \<or> (\<exists>x. treebins s' = (treebins s)[unat i := x])"
    and "treemap s' = treemap s \<or> treemap s' = treemap s OR idx2bit i \<or> treemap s' = treemap s AND NOT (idx2bit i)"
    and "unat i < 32"
  shows "tree_step i N s s'"
proof -
  have "treebin_at s' j = treebin_at s j" if "j \<noteq> i" for j
    using assms(3) that by (auto simp: treebin_at_def nth_list_update word_unat_eq_iff)
  moreover have "treemap_is_marked s' j = 0 \<longleftrightarrow> treemap_is_marked s j = 0" if "j \<noteq> i" for j
    using assms(4) tree.is_marked_mark [OF assms(5), of s j] tree.is_marked_clear [of i s j] that
    by (auto simp: treemap_is_marked_def mark_treemap_def clear_treemap_def)
  ultimately show ?thesis using assms(1-3) by (auto simp: tree_step_def)
qed

lemma tree_bin_insert:
  assumes T: "tree_bin s i ps" and i: "i = compute_tree_index S" "unat i < 32" "length (treebins s) = 32"
    and X: "X \<notin> set ps" "X \<noteq> 0" and sc: "scattered (insert X (set ps))"
    and ok: "\<And>x. x \<in> set ps \<Longrightarrow> ok_address s x" and hd: "\<And>t. t \<in> set ps \<Longrightarrow> t + 8 \<notin> tree_cells X"
    and sz: "\<And>t. t \<in> set ps \<Longrightarrow> chunksize (mem s) t = S"
  shows "\<exists>s' ps'. insert_large_chunk X S s = ret () s' \<and> tree_bin s' i ps' \<and> set ps' = insert X (set ps) \<and>
    tree_step i (insert X (set ps)) s s'"
proof (cases ps)
  case Nil
  obtain s' where s': "insert_large_chunk X S s = ret () s'" "tree_bin s' i [X]" "bins_step (tree_cells X) s s'"
    "smallmap s' = smallmap s" "treebins s' = (treebins s)[unat i := X]" "treemap s' = treemap s OR idx2bit i"
    using insert_into_empty_tree_bin [OF T [unfolded Nil] i X(2)] by blast
  then have "tree_step i (insert X (set ps)) s s'"
    using Nil by (intro tree_stepI [OF _ _ _ _ i(2)]) auto
  then show ?thesis using s' Nil by (intro exI [of _ s'] exI [of _ "[X]"]) simp
next
  case (Cons t ts)
  obtain s' where s': "insert_large_chunk X S s = ret () s'" "tree_bin s' i (t # X # ts)"
    "bins_step (\<Union> (tree_cells ` insert X (set (t # ts)))) s s'" "smallmap s' = smallmap s"
    "treebins s' = treebins s" "treemap s' = treemap s"
    using insert_behind_root [of s i t ts S X] T i sz X sc ok hd Cons by auto
  then have "tree_step i (insert X (set ps)) s s'"
    using Cons by (intro tree_stepI [OF _ _ _ _ i(2)]) auto
  then show ?thesis using s' Cons by (intro exI [of _ s'] exI [of _ "t # X # ts"]) auto
qed

lemma tree_bin_remove:
  assumes T: "tree_bin s i ps" and X: "X \<in> set ps" and i: "unat i < 32" "length (treebins s) = 32"
    and sc: "scattered (set ps)" and ok: "\<And>x. x \<in> set ps \<Longrightarrow> ok_address s x \<and> x \<noteq> 0"
  shows "\<exists>s' ps'. unlink_large_chunk X s = ret () s' \<and> tree_bin s' i ps' \<and> set ps' = set ps - {X} \<and>
    tree_step i (set ps) s s'"
proof -
  obtain t ts where ps: "ps = t # ts" using X by (cases ps) auto
  have d: "distinct ps" using T ps by (simp add: ring_def)
  consider (only) "X = t" "ts = []" | (root) qs R where "X = t" "ts = qs @ [R]" | (other) xs ys where "ts = xs @ X # ys"
    using X ps by (cases ts rule: rev_cases) (auto dest: split_list)
  then show ?thesis
  proof cases
    case only
    let ?s' = "clear_treemap i (set_treebin_at i 0 s)"
    have "unlink_large_chunk X s = ret () ?s'" using T ps only by (intro unlink_only_root [OF _ i]) simp
    moreover have "tree_bin ?s' i []"
      using i tree.is_marked_clear [of i "set_treebin_at i 0 s" i]
      by (simp add: treebin_at_def clear_treemap_def set_treebin_at_def)
    moreover have "tree_step i (set ps) s ?s'"
      by (intro tree_stepI [OF _ _ _ _ i(1)]) (auto simp: bins_step_def clear_treemap_def set_treebin_at_def)
    ultimately show ?thesis using only ps by (intro exI [of _ ?s'] exI [of _ "[]"]) simp
  next
    case root
    obtain s' where s': "unlink_large_chunk X s = ret () s'" "tree_bin s' i (R # qs)"
      "bins_step (\<Union> (tree_cells ` set (X # qs @ [R]))) s s'" "smallmap s' = smallmap s"
      "treebins s' = (treebins s)[unat i := R]" "treemap s' = treemap s"
      using unlink_root [of s i X qs R] T ps root sc ok i by auto
    then have "tree_step i (set ps) s s'" using root ps by (intro tree_stepI [OF _ _ _ _ i(1)]) auto
    then show ?thesis using s' ps root d by (intro exI [of _ s'] exI [of _ "R # qs"]) auto
  next
    case other
    obtain s' where s': "unlink_large_chunk X s = ret () s'" "tree_bin s' i (t # xs @ ys)"
      "bins_step (\<Union> (tree_cells ` set (t # xs @ X # ys))) s s'" "smallmap s' = smallmap s"
      "treebins s' = treebins s" "treemap s' = treemap s"
      using unlink_from_ring [of s i t xs X ys] T ps other sc ok by auto
    then have "tree_step i (set ps) s s'" using other ps by (intro tree_stepI [OF _ _ _ _ i(1)]) auto
    then show ?thesis using s' ps other d by (intro exI [of _ s'] exI [of _ "t # xs @ ys"]) auto
  qed
qed

lemma tree_index_lt: "unat (compute_tree_index S) < 32"
proof -
  let ?X = "ucast (drop_bit TREEBIN_SHIFT S) :: u32"
  consider "?X = 0" | "0xFFFF < ?X" | "?X \<noteq> 0" "\<not> 0xFFFF < ?X" by blast
  then show ?thesis
  proof cases
    case 3
    define K where "K = 31 - builtin_clz ?X"
    note clz = builtin_clz_log [OF 3(1)]
    have "2 ^ K \<le> unat ?X" using clz(2) by (simp add: K_def)
    also have "\<dots> < 2 ^ 16" using 3(2) by (simp add: word_less_nat_alt)
    finally have K: "K \<le> 15" using power_less_imp_less_exp [of "2 :: nat" K 16] by simp
    have k: "4 * 8 - 1 - of_nat (builtin_clz ?X) = (of_nat K :: u32)"
      using clz(1) by (simp add: K_def of_nat_diff)
    have uK: "unat (of_nat K :: u32) = K" using K by (simp add: unat_of_nat)
    have p: "unat (ucast (push_bit 1 (of_nat K :: u32)) :: u64) = 2 * K"
      using K by (simp add: push_bit_eq_mult unsigned_ucast_eq unat_word_ariths uK take_bit_eq_mod)
    have b: "unat (y AND 1 :: u64) < 2" for y using unat_and_mask [of y 1] by simp
    show ?thesis
      unfolding compute_tree_index_def Let_def k
      using 3 p K b [of "drop_bit (unat (of_nat K + (of_nat TREEBIN_SHIFT - 1) :: u32)) S"]
      by (simp add: unsigned_ucast_eq unat_add_64 take_bit_eq_mod)
  qed (simp_all add: compute_tree_index_def NTREEBINS_def Let_def)
qed

section \<open>The store\<close>

definition gm_cells :: "mstate \<Rightarrow> addr set" where
  "gm_cells s = {c. unat (gm_addr s) + 72 \<le> unat c \<and> unat c < unat (gm_addr s) + 616}"

definition body :: "addr \<times> u64 \<Rightarrow> addr set" where
  "body x = {c. unat (fst x) + 16 \<le> unat c \<and> unat c < unat (fst x) + unat (snd x)}"

definition bin_cells :: "mstate \<Rightarrow> (addr \<times> u64) set \<Rightarrow> addr set" where
  "bin_cells s F = gm_cells s \<union> \<Union> (body ` F)"

text \<open>A set of chunks that can be in the bins: aligned, above \<open>least_addr\<close>, disjoint, and away from the headers.\<close>

definition bin_chunk :: "mstate \<Rightarrow> addr \<times> u64 \<Rightarrow> bool" where
  "bin_chunk s x \<longleftrightarrow> least_addr s \<le> fst x \<and> 16 dvd unat (fst x) \<and> 16 dvd unat (snd x) \<and> 32 \<le> unat (snd x) \<and>
     unat (fst x) + unat (snd x) + 16 < 2 ^ 64 \<and>
     (unat (fst x) + unat (snd x) \<le> unat (gm_addr s) + 72 \<or> unat (gm_addr s) + 616 \<le> unat (fst x))"

definition overlap :: "addr \<times> u64 \<Rightarrow> addr \<times> u64 \<Rightarrow> bool" where
  "overlap x y \<longleftrightarrow> unat (fst x) < unat (fst y) + unat (snd y) \<and> unat (fst y) < unat (fst x) + unat (snd x)"

definition regular :: "mstate \<Rightarrow> (addr \<times> u64) set \<Rightarrow> bool" where
  "regular s F \<longleftrightarrow> least_addr s \<noteq> 0 \<and> unat (gm_addr s) + 616 < 2 ^ 64 \<and>
     (\<forall>x\<in>F. bin_chunk s x \<and> (\<forall>y\<in>F. x = y \<or> \<not> overlap x y))"

definition small_ok :: "(u32 \<Rightarrow> addr list) \<Rightarrow> (addr \<times> u64) set \<Rightarrow> bool" where
  "small_ok L F \<longleftrightarrow> (\<forall>i<NSMALLBINS. \<forall>p. p \<in> set (L i) \<longleftrightarrow> (p, 8 * ucast i) \<in> F)"

definition tree_ok :: "mstate \<Rightarrow> (u32 \<Rightarrow> addr list) \<Rightarrow> (addr \<times> u64) set \<Rightarrow> bool" where
  "tree_ok s T F \<longleftrightarrow> (\<forall>i<NTREEBINS. tree_bin s i (T i) \<and>
     (\<forall>p. p \<in> set (T i) \<longleftrightarrow> (\<exists>n. 256 \<le> unat n \<and> compute_tree_index n = i \<and> (p, n) \<in> F)) \<and>
     (\<exists>N. \<forall>p n. 256 \<le> unat n \<longrightarrow> compute_tree_index n = i \<longrightarrow> (p, n) \<in> F \<longrightarrow> n = N))"

definition store :: "mstate \<Rightarrow> (addr \<times> u64) set \<Rightarrow> bool" where
  "store s F \<longleftrightarrow> regular s F \<and> length (treebins s) = 32 \<and>
     (\<exists>L T. small_bins s L \<and> small_ok L F \<and> tree_ok s T F)"

lemma less_NTREEBINS: "i < NTREEBINS \<longleftrightarrow> unat i < 32"
  by (simp add: NTREEBINS_def word_less_nat_alt)

lemma regular_subset: "regular s F \<Longrightarrow> E \<subseteq> F \<Longrightarrow> regular s E"
  unfolding regular_def by blast

lemma regularD:
  assumes "regular s F"
  shows "least_addr s \<noteq> 0" "unat (gm_addr s) + 616 < 18446744073709551616" "x \<in> F \<Longrightarrow> bin_chunk s x"
    "x \<in> F \<Longrightarrow> y \<in> F \<Longrightarrow> x \<noteq> y \<Longrightarrow> \<not> overlap x y"
  using assms by (auto simp: regular_def)

lemma bin_chunkD:
  assumes "bin_chunk s (p, n)"
  shows "ok_address s p" "16 dvd unat p" "16 dvd unat n" "32 \<le> unat n" "unat p + unat n + 16 < 18446744073709551616"
    "unat p + unat n \<le> unat (gm_addr s) + 72 \<or> unat (gm_addr s) + 616 \<le> unat p"
  using assms by (auto simp: bin_chunk_def ok_address_def)

lemma regular_unique:
  assumes "regular s F" "(p, n) \<in> F" "(p, m) \<in> F"
  shows "n = m"
proof (rule ccontr)
  assume "n \<noteq> m"
  then have "\<not> overlap (p, n) (p, m)" using regularD(4) [OF assms] by simp
  then show False
    using bin_chunkD(4) [OF regularD(3) [OF assms(1,2)]] bin_chunkD(4) [OF regularD(3) [OF assms(1,3)]]
    by (simp add: overlap_def)
qed

lemma regular_same: "gm_addr s' = gm_addr s \<Longrightarrow> least_addr s' = least_addr s \<Longrightarrow> regular s' F \<longleftrightarrow> regular s F"
  by (simp add: regular_def bin_chunk_def)

lemma bins_step_same:
  assumes "bins_step C s s'"
  shows "gm_addr s' = gm_addr s" "least_addr s' = least_addr s" "dv s' = dv s" "dvsize s' = dvsize s"
    "top_chunk s' = top_chunk s" "topsize s' = topsize s" "smallbin_at s' = smallbin_at s"
    "ok_address s' = ok_address s" "bin_cells s' = bin_cells s" "regular s' = regular s" "bin_headers s' = bin_headers s"
    "bin_nodes s' = bin_nodes s"
    "\<And>c. c \<notin> C \<Longrightarrow> mem s' c = mem s c"
proof -
  have *: "gm_addr s' = gm_addr s \<and> least_addr s' = least_addr s \<and> dv s' = dv s \<and> dvsize s' = dvsize s \<and>
    top_chunk s' = top_chunk s \<and> topsize s' = topsize s"
    using assms by (cases s; cases s') (auto simp: bins_step_def)
  then show "gm_addr s' = gm_addr s" "least_addr s' = least_addr s" "dv s' = dv s" "dvsize s' = dvsize s"
    "top_chunk s' = top_chunk s" "topsize s' = topsize s" "smallbin_at s' = smallbin_at s"
    "ok_address s' = ok_address s" "bin_cells s' = bin_cells s" "regular s' = regular s" "bin_headers s' = bin_headers s"
    "bin_nodes s' = bin_nodes s"
    by (auto simp: smallbin_at_def ok_address_def fun_eq_iff bin_cells_def gm_cells_def regular_def bin_chunk_def
        bin_headers_def bin_nodes_def)
  show "\<And>c. c \<notin> C \<Longrightarrow> mem s' c = mem s c" using assms by (simp add: bins_step_def)
qed

section \<open>Which cells the bins use\<close>

lemma unat_offset:
  "unat (p :: addr) + unat (k :: u64) < 18446744073709551616 \<Longrightarrow> unat (p + k) = unat p + unat k"
  by (rule unat_add_noov) simp

lemma smallbin_bounds:
  assumes "unat (gm_addr s) + 616 < 18446744073709551616" "i < NSMALLBINS"
  shows "unat (smallbin_at s i) = unat (gm_addr s) + 72 + 16 * unat i" "unat i < 32"
proof -
  show i: "unat i < 32" using assms(2) by (simp add: less_NSMALLBINS)
  have "unat (gm_addr s + 72) = unat (gm_addr s) + 72" using assms(1) by (simp add: unat_offset)
  then show "unat (smallbin_at s i) = unat (gm_addr s) + 72 + 16 * unat i"
    unfolding smallbin_at_def SMALLBINS_OFFSET_def
    using assms(1) i unat_bin_offset [OF assms(2)] by (subst unat_offset) simp_all
qed

lemma header_cells:
  assumes "regular s F"
  shows "link_cells (bin_headers s) \<subseteq> gm_cells s"
proof -
  have "smallbin_at s i + 16 \<in> gm_cells s \<and> smallbin_at s i + 24 \<in> gm_cells s" if "i < NSMALLBINS" for i
    using smallbin_bounds [OF regularD(2) [OF assms] that] regularD(2) [OF assms]
    by (simp add: gm_cells_def unat_offset)
  then show ?thesis by (auto simp: link_cells_def bin_headers_def)
qed

lemma chunk_link_cells:
  assumes "regular s F" "(p, n) \<in> F"
  shows "p + 16 \<in> body (p, n)" "p + 24 \<in> body (p, n)"
  using bin_chunkD [OF regularD(3) [OF assms]] by (simp_all add: body_def unat_offset)

lemma chunk_tree_cells:
  assumes "regular s F" "(p, n) \<in> F" "256 \<le> unat n"
  shows "tree_cells p \<subseteq> body (p, n)"
  using bin_chunkD [OF regularD(3) [OF assms(1,2)]] assms(3) by (simp add: tree_cells_def body_def unat_offset)

lemma body_disjoint:
  assumes "regular s F" "x \<in> F"
  shows "y \<in> F \<Longrightarrow> x \<noteq> y \<Longrightarrow> body x \<inter> body y = {}" "body x \<inter> gm_cells s = {}"
  using regularD(3,4) [OF assms] by (fastforce simp: body_def gm_cells_def overlap_def bin_chunk_def)+

lemma regular_remote:
  assumes "regular s F" "(p, n) \<in> F" "(q, m) \<in> F" "p \<noteq> q" "256 \<le> unat n" "256 \<le> unat m"
  shows "remote p q"
proof (rule remoteI)
  have "\<not> overlap (p, n) (q, m)" using regularD(4) [OF assms(1-3)] assms(4) by simp
  then show "unat p + 64 \<le> unat q \<or> unat q + 64 \<le> unat p" using assms(5,6) by (auto simp: overlap_def)
  show "unat p + 64 < 2 ^ 64" "unat q + 64 < 2 ^ 64"
    using bin_chunkD(5) [OF regularD(3) [OF assms(1,2)]] bin_chunkD(5) [OF regularD(3) [OF assms(1,3)]] assms(5,6)
    by simp_all
qed

text \<open>No chunk of \<open>F\<close> and no header is 8 bytes behind another.\<close>

lemma nodes_apart:
  assumes r: "regular s F" and N: "N \<subseteq> bin_headers s \<union> fst ` F"
  shows "apart N"
proof (rule apart_subset [OF _ N])
  have chunk: "\<exists>n. (p, n) \<in> F \<and> bin_chunk s (p, n)" if "p \<in> fst ` F" for p
    using that regularD(3) [OF r] by auto
  have "x \<noteq> y + 8" if x: "x \<in> bin_headers s \<union> fst ` F" and y: "y \<in> bin_headers s \<union> fst ` F" for x y
  proof
    assume eq: "x = y + 8"
    consider (hh) "x \<in> bin_headers s" "y \<in> bin_headers s" | (cc) "x \<in> fst ` F" "y \<in> fst ` F"
      | (hc) "x \<in> bin_headers s" "y \<in> fst ` F" | (ch) "y \<in> bin_headers s" "x \<in> fst ` F"
      using x y by blast
    then show False
    proof cases
      case hh
      then show False using bin_headers_apart [of s] eq by (auto simp: apart_def)
    next
      case cc
      obtain n m where nm: "bin_chunk s (x, n)" "bin_chunk s (y, m)" using chunk cc by blast
      have "unat x = unat y + 8" using bin_chunkD [OF nm(2)] by (simp add: eq unat_offset)
      then show False using bin_chunkD(2) [OF nm(1)] bin_chunkD(2) [OF nm(2)] by presburger
    next
      case hc
      obtain i where i: "i < NSMALLBINS" "x = smallbin_at s i" using hc(1) by (auto simp: bin_headers_def)
      obtain m where m: "bin_chunk s (y, m)" using chunk hc by blast
      have "unat x = unat y + 8" using bin_chunkD [OF m] by (simp add: eq unat_offset)
      then show False
        using bin_chunkD(4,6) [OF m] smallbin_bounds [OF regularD(2) [OF r] i(1)] i(2) by auto
    next
      case ch
      obtain i where i: "i < NSMALLBINS" "y = smallbin_at s i" using ch(1) by (auto simp: bin_headers_def)
      obtain n where n: "bin_chunk s (x, n)" using chunk ch by blast
      have "unat x = unat y + 8"
        using smallbin_bounds [OF regularD(2) [OF r] i(1)] regularD(2) [OF r] i(2) by (simp add: eq unat_offset)
      then show False
        using bin_chunkD(4,6) [OF n] smallbin_bounds [OF regularD(2) [OF r] i(1)] i(2) by auto
    qed
  qed
  then show "apart (bin_headers s \<union> fst ` F)" by (simp add: apart_def)
qed

section \<open>Frames\<close>

lemma small_bins_cong:
  assumes sb: "small_bins s L" and same: "gm_addr s' = gm_addr s" "least_addr s' = least_addr s" "smallmap s' = smallmap s"
    and cells: "\<And>c. c \<in> link_cells (bin_nodes s L) \<Longrightarrow> mem s' c = mem s c"
  shows "small_bins s' L"
proof -
  have at: "smallbin_at s' = smallbin_at s" "bin_headers s' = bin_headers s" "bin_nodes s' L = bin_nodes s L"
    "ok_address s' = ok_address s" "smallmap_is_marked s' = smallmap_is_marked s"
    using same by (auto simp: smallbin_at_def bin_headers_def bin_nodes_def ok_address_def smallmap_is_marked_def fun_eq_iff)
  have "bin_list s' i (L i)" if i: "i < NSMALLBINS" for i
  proof -
    have "x \<in> bin_nodes s L" if "x \<in> set (smallbin_at s i # L i)" for x using that i by auto
    then have "ring (mem s') (smallbin_at s i) (L i) \<longleftrightarrow> ring (mem s) (smallbin_at s i) (L i)"
      by (intro ring_cong) (auto simp: fd_def bk_def cells link_cells_I)
    then show ?thesis using small_binsD(1) [OF sb i] by (simp add: bin_list_def at)
  qed
  then show ?thesis using sb unfolding small_bins_def at by blast
qed

text \<open>The chunks that a small bin, or a tree bin, can hold.\<close>

abbreviation small_part :: "(addr \<times> u64) set \<Rightarrow> (addr \<times> u64) set" where
  "small_part F \<equiv> {x \<in> F. unat (snd x) < 256}"

abbreviation large_part :: "(addr \<times> u64) set \<Rightarrow> (addr \<times> u64) set" where
  "large_part F \<equiv> {x \<in> F. 256 \<le> unat (snd x)}"

lemma unat_small_size: "i < NSMALLBINS \<Longrightarrow> unat (8 * ucast i :: u64) = 8 * unat i"
  by (simp add: less_NSMALLBINS unat_word_ariths unsigned_ucast_eq take_bit_eq_mod)

lemma small_index_size:
  assumes "unat S < 256" "8 dvd unat S"
  shows "8 * ucast (small_index S) = S" "small_index S < NSMALLBINS"
proof -
  have i: "is_small S" using assms(1) by (simp add: is_small_iff)
  show "small_index S < NSMALLBINS" by (rule unat_small_index(2) [OF i])
  then have "unat (8 * ucast (small_index S) :: u64) = unat S"
    using assms(2) unat_small_index(1) [OF i] by (simp add: unat_small_size)
  then show "8 * ucast (small_index S) = S" by (simp only: word_unat_eq_iff)
qed

lemma small_ok_nodes:
  assumes "small_ok L F"
  shows "bin_nodes s L \<subseteq> bin_headers s \<union> fst ` small_part F"
proof -
  have "p \<in> fst ` small_part F" if "i < NSMALLBINS" "p \<in> set (L i)" for i p
  proof -
    have "(p, 8 * ucast i) \<in> small_part F"
      using assms that by (simp add: small_ok_def unat_small_size) (simp add: less_NSMALLBINS)
    then show ?thesis by force
  qed
  then show ?thesis by (auto simp: bin_nodes_def)
qed

lemma link_cells_mono: "M \<subseteq> N \<Longrightarrow> link_cells M \<subseteq> link_cells N"
  by (auto simp: link_cells_def)

lemma link_cells_Un: "link_cells (M \<union> N) = link_cells M \<union> link_cells N"
  by (auto simp: link_cells_def)

lemma bin_cells_parts:
  "gm_cells s \<union> \<Union> (body ` small_part F) \<subseteq> bin_cells s F" "\<Union> (body ` large_part F) \<subseteq> bin_cells s F"
  by (auto simp: bin_cells_def)

lemma small_cells:
  assumes "regular s F" "N \<subseteq> bin_headers s \<union> fst ` small_part F"
  shows "link_cells N \<subseteq> gm_cells s \<union> \<Union> (body ` small_part F)"
proof -
  have "p + 16 \<in> \<Union> (body ` small_part F) \<and> p + 24 \<in> \<Union> (body ` small_part F)" if p: "p \<in> fst ` small_part F" for p
  proof -
    obtain x where x: "x \<in> small_part F" "p = fst x" using p by blast
    then have "(p, snd x) \<in> F" by simp
    then have "p + 16 \<in> body x \<and> p + 24 \<in> body x" using chunk_link_cells [OF assms(1), of p "snd x"] x(2) by simp
    then show ?thesis using x(1) by blast
  qed
  then have "link_cells (fst ` small_part F) \<subseteq> \<Union> (body ` small_part F)"
    unfolding link_cells_def by blast
  then have "link_cells (bin_headers s) \<union> link_cells (fst ` small_part F) \<subseteq> gm_cells s \<union> \<Union> (body ` small_part F)"
    by (rule Un_mono [OF header_cells [OF assms(1)]])
  with link_cells_mono [OF assms(2)] show ?thesis unfolding link_cells_Un by (rule subset_trans)
qed

lemma large_cells:
  assumes "regular s F" "N \<subseteq> fst ` large_part F"
  shows "\<Union> (tree_cells ` N) \<subseteq> \<Union> (body ` large_part F)"
  using assms(2) chunk_tree_cells [OF assms(1)] by fastforce

lemma small_large_disjoint:
  assumes "regular s F"
  shows "(gm_cells s \<union> \<Union> (body ` small_part F)) \<inter> \<Union> (body ` large_part F) = {}"
  using body_disjoint [OF assms] by fastforce

lemma tree_okD:
  assumes "tree_ok s T F" "i < NTREEBINS"
  shows "tree_bin s i (T i)" "p \<in> set (T i) \<longleftrightarrow> (\<exists>n. 256 \<le> unat n \<and> compute_tree_index n = i \<and> (p, n) \<in> F)"
    "\<lbrakk>256 \<le> unat n; compute_tree_index n = i; (p, n) \<in> F; 256 \<le> unat m; compute_tree_index m = i; (q, m) \<in> F\<rbrakk> \<Longrightarrow> n = m"
    "\<exists>N. \<forall>p n. 256 \<le> unat n \<longrightarrow> compute_tree_index n = i \<longrightarrow> (p, n) \<in> F \<longrightarrow> n = N"
  using assms unfolding tree_ok_def by blast+

lemma tree_ok_cong:
  assumes T: "tree_ok s T F" and same: "treemap s' = treemap s" "treebins s' = treebins s" "large_part F' = large_part F"
    and cells: "\<And>x c. x \<in> large_part F \<Longrightarrow> c \<in> tree_cells (fst x) \<Longrightarrow> mem s' c = mem s c"
  shows "tree_ok s' T F'"
proof -
  have F': "(p, n) \<in> F' \<longleftrightarrow> (p, n) \<in> F" if "256 \<le> unat n" for p n
  proof -
    have "(p, n) \<in> large_part F' \<longleftrightarrow> (p, n) \<in> large_part F" using same(3) by (rule arg_cong)
    then show ?thesis using that by simp
  qed
  have "tree_bin s' i (T i)" if i: "i < NTREEBINS" for i
  proof -
    have "same_cells (mem s) (mem s') p" if "p \<in> set (T i)" for p
    proof -
      have "\<exists>n. 256 \<le> unat n \<and> compute_tree_index n = i \<and> (p, n) \<in> F" using that unfolding tree_okD(2) [OF T i] .
      then obtain n where "256 \<le> unat n" "(p, n) \<in> F" by blast
      then show ?thesis using cells [of "(p, n)"] by (simp add: same_cells_def tree_cells_def)
    qed
    then show ?thesis using T i same(1,2)
      by (subst tree_bin_cong [of _ s]) (auto simp: tree_okD(1) treemap_is_marked_def treebin_at_def)
  qed
  moreover have "p \<in> set (T i) \<longleftrightarrow> (\<exists>n. 256 \<le> unat n \<and> compute_tree_index n = i \<and> (p, n) \<in> F')"
    if "i < NTREEBINS" for i p unfolding tree_okD(2) [OF T that] using F' by blast
  moreover have "\<exists>N. \<forall>p n. 256 \<le> unat n \<longrightarrow> compute_tree_index n = i \<longrightarrow> (p, n) \<in> F' \<longrightarrow> n = N"
    if i: "i < NTREEBINS" for i
  proof (cases "\<exists>p n. 256 \<le> unat n \<and> compute_tree_index n = i \<and> (p, n) \<in> F")
    case True
    then obtain q m where "256 \<le> unat m" "compute_tree_index m = i" "(q, m) \<in> F" by blast
    then show ?thesis using tree_okD(3) [OF T i] F' by (intro exI [of _ m]) blast
  next
    case False
    then show ?thesis using F' by blast
  qed
  ultimately show ?thesis unfolding tree_ok_def by blast
qed

section \<open>Operations on the store\<close>

lemma storeI:
  "\<lbrakk>regular s F; length (treebins s) = 32; small_bins s L; small_ok L F; tree_ok s T F\<rbrakk> \<Longrightarrow> store s F"
  unfolding store_def by blast

lemma storeE:
  assumes "store s F"
  obtains L T where "regular s F" "length (treebins s) = 32" "small_bins s L" "small_ok L F" "tree_ok s T F"
  using assms unfolding store_def by blast

text \<open>The store depends on its own cells only.\<close>

lemma store_cong:
  assumes st: "store s F" and same: "gm_addr s' = gm_addr s" "least_addr s' = least_addr s" "smallmap s' = smallmap s"
      "treemap s' = treemap s" "treebins s' = treebins s"
    and cells: "\<And>c. c \<in> bin_cells s F \<Longrightarrow> mem s' c = mem s c"
  shows "store s' F"
proof (rule storeE [OF st])
  fix L T assume a: "regular s F" "length (treebins s) = 32" "small_bins s L" "small_ok L F" "tree_ok s T F"
  have "link_cells (bin_nodes s L) \<subseteq> bin_cells s F"
    using small_cells [OF a(1) small_ok_nodes [OF a(4)]] bin_cells_parts(1) by (rule subset_trans)
  then have "small_bins s' L" by (intro small_bins_cong [OF a(3) same(1-3)] cells) (rule subsetD)
  moreover have "tree_ok s' T F"
  proof (rule tree_ok_cong [OF a(5) same(4,5) refl])
    fix x c assume x: "x \<in> large_part F" "c \<in> tree_cells (fst x)"
    then have "c \<in> body x" using chunk_tree_cells [OF a(1), of "fst x" "snd x"] by auto
    then show "mem s' c = mem s c" using x(1) by (intro cells) (auto simp: bin_cells_def)
  qed
  moreover have "regular s' F" using a(1) regular_same [OF same(1,2)] by simp
  ultimately show ?thesis using a(2,4) same(5) by (intro storeI) simp_all
qed

lemma same_but_links_step:
  assumes "same_but_links N s s'" "link_cells N \<subseteq> C"
  shows "bins_step C s s'" "treemap s' = treemap s" "treebins s' = treebins s"
  using assms by (cases s; cases s'; auto simp: same_but_links_def bins_step_def)+

lemma small_step_tree:
  assumes T: "tree_ok s T F" and r: "regular s E" and sub: "F \<subseteq> E" and l: "same_but_links N s s'"
    and N: "N \<subseteq> bin_headers s \<union> fst ` small_part E" and F': "large_part F' = large_part F"
  shows "tree_ok s' T F'"
proof (rule tree_ok_cong [OF T _ _ F'])
  show "treemap s' = treemap s" "treebins s' = treebins s" using same_but_links_step [OF l subset_refl] by simp_all
  fix x c assume x: "x \<in> large_part F" "c \<in> tree_cells (fst x)"
  then have "c \<in> body x" using chunk_tree_cells [OF r, of "fst x" "snd x"] sub by auto
  then have "c \<notin> gm_cells s \<union> \<Union> (body ` small_part E)"
    using small_large_disjoint [OF r] x(1) sub by blast
  then have "c \<notin> link_cells N" using small_cells [OF r N] by blast
  then show "mem s' c = mem s c" using l by (simp add: same_but_links_def)
qed

lemma small_ok_insert:
  assumes ok: "small_ok L F" and S: "unat S < 256" "8 dvd unat S" and j: "j = small_index S"
  shows "small_ok (L(j := p # L j)) (insert (p, S) F)"
proof -
  have "8 * ucast i = S \<longleftrightarrow> i = j" if i: "i < NSMALLBINS" for i
    using small_index_size [OF S] unat_small_size [OF i] unat_small_size [of j] unfolding j
    by (metis mult_left_cancel word_unat_eq_iff zero_neq_numeral)
  then show ?thesis using ok by (auto simp: small_ok_def)
qed

lemma small_ok_remove:
  assumes ok: "small_ok L F" and j: "j < NSMALLBINS" and L': "set ps = set (L j) - {p}"
  shows "small_ok (L(j := ps)) (F - {(p, 8 * ucast j)})"
proof -
  have "8 * ucast i = (8 * ucast j :: u64) \<longleftrightarrow> i = j" if i: "i < NSMALLBINS" for i
    using unat_small_size [OF i] unat_small_size [OF j]
    by (metis mult_left_cancel word_unat_eq_iff zero_neq_numeral)
  then show ?thesis using ok j L' by (auto simp: small_ok_def)
qed

lemma regular_new:
  assumes r: "regular s (insert (p, S) F)" and new: "(p, S) \<notin> F"
  shows "p \<notin> fst ` F" "p \<notin> bin_headers s" "ok_address s p" "p \<noteq> 0"
proof -
  have x: "bin_chunk s (p, S)" by (rule regularD(3) [OF r]) simp
  show "p \<notin> fst ` F"
  proof
    assume "p \<in> fst ` F"
    then obtain n where n: "(p, n) \<in> F" by auto
    then have "n = S" using regular_unique [OF r, of p n S] by simp
    with n new show False by simp
  qed
  show "p \<notin> bin_headers s"
  proof
    assume "p \<in> bin_headers s"
    then obtain i where "i < NSMALLBINS" "p = smallbin_at s i" by (auto simp: bin_headers_def)
    then show False
      using smallbin_bounds [OF regularD(2) [OF r], of i] bin_chunkD(4,6) [OF x] by auto
  qed
  show "ok_address s p" by (rule bin_chunkD(1) [OF x])
  then show "p \<noteq> 0" using regularD(1) [OF r] by (auto simp: ok_address_def)
qed

lemma store_insert_small:
  assumes st: "store s F" and r: "regular s (insert (p, S) F)" and S: "unat S < 256" and new: "(p, S) \<notin> F"
  shows "\<exists>s'. insert_small_chunk p S s = ret () s' \<and> store s' (insert (p, S) F) \<and>
    bins_step (bin_cells s (insert (p, S) F)) s s'"
proof (rule storeE [OF st])
  fix L T assume a: "regular s F" "length (treebins s) = 32" "small_bins s L" "small_ok L F" "tree_ok s T F"
  let ?E = "insert (p, S) F" and ?j = "small_index S"
  have x: "bin_chunk s (p, S)" by (rule regularD(3) [OF r]) simp
  have sm: "is_small S" "MIN_CHUNK_SIZE \<le> S" "8 dvd unat S"
    using S bin_chunkD(3,4) [OF x] dvd_trans [of 8 16 "unat S"]
    by (simp_all add: is_small_iff size_consts word_le_nat_alt)
  note new' = regular_new [OF r new]
  have N: "insert p (bin_nodes s L) \<subseteq> bin_headers s \<union> fst ` small_part ?E"
  proof -
    have "p \<in> fst ` small_part ?E" by (rule image_eqI [of _ _ "(p, S)"]) (use S in simp_all)
    moreover have "fst ` small_part F \<subseteq> fst ` small_part ?E" by (rule image_mono) auto
    ultimately show ?thesis using small_ok_nodes [OF a(4), of s] by blast
  qed
  have "fst ` small_part ?E \<subseteq> fst ` ?E" by (rule image_mono) auto
  then have ap: "apart (insert p (bin_nodes s L))"
    by (intro nodes_apart [OF r] subset_trans [OF N] Un_mono subset_refl)
  have "p \<notin> bin_nodes s L" using new'(1,2) small_ok_nodes [OF a(4), of s] by auto
  then obtain s' where s': "insert_small_chunk p S s = ret () s'" "small_bins s' (L(?j := p # L ?j))"
    "same_but_links (insert p (bin_nodes s L)) s s'"
    using insert_small_bins [OF a(3) sm(1,2) _ new'(3) ap] by blast
  have step: "bins_step (bin_cells s ?E) s s'"
    by (rule same_but_links_step(1) [OF s'(3)])
      (rule subset_trans [OF small_cells [OF r N] bin_cells_parts(1)])
  have "tree_ok s' T ?E"
    by (rule small_step_tree [OF a(5) r _ s'(3) N]) (use S in auto)
  moreover have "small_ok (L(?j := p # L ?j)) ?E" by (rule small_ok_insert [OF a(4) S sm(3) refl])
  moreover have "regular s' ?E" using r bins_step_same(10) [OF step] by simp
  moreover have "length (treebins s') = 32" using a(2) same_but_links_step(3) [OF s'(3) subset_refl] by simp
  ultimately have "store s' ?E" using s'(2) by (intro storeI)
  then show ?thesis using s'(1) step by blast
qed

text \<open>Both ways of taking a chunk out of a small bin.\<close>

lemma store_small_removed:
  assumes a: "regular s F" "length (treebins s) = 32" "small_ok L F" "tree_ok s T F"
    and j: "j < NSMALLBINS" "set ps = set (L j) - {p}"
    and s': "small_bins s' (L(j := ps))" "same_but_links (bin_nodes s L) s s'"
  shows "store s' (F - {(p, 8 * ucast j)}) \<and> bins_step (bin_cells s F) s s'"
proof -
  let ?E = "F - {(p, 8 * ucast j)}"
  note N = small_ok_nodes [OF a(3), of s]
  have step: "bins_step (bin_cells s F) s s'"
    by (rule same_but_links_step(1) [OF s'(2)])
      (rule subset_trans [OF small_cells [OF a(1) N] bin_cells_parts(1)])
  have "unat (8 * ucast j :: u64) < 256" using unat_small_size [OF j(1)] j(1) by (simp add: less_NSMALLBINS)
  then have "large_part ?E = large_part F" by auto
  then have "tree_ok s' T ?E" by (rule small_step_tree [OF a(4) a(1) subset_refl s'(2) N])
  moreover have "regular s' ?E"
    using regular_subset [OF a(1), of ?E] bins_step_same(10) [OF step] by auto
  moreover have "length (treebins s') = 32" using a(2) same_but_links_step(3) [OF s'(2) subset_refl] by simp
  ultimately show ?thesis
    using s'(1) step small_ok_remove [OF a(3) j] by (intro conjI storeI)
qed

lemma store_remove_small:
  assumes st: "store s F" and p: "(p, S) \<in> F" and S: "unat S < 256"
  shows "\<exists>s'. unlink_small_chunk p S s = ret () s' \<and> store s' (F - {(p, S)}) \<and> bins_step (bin_cells s F) s s'"
proof (rule storeE [OF st])
  fix L T assume a: "regular s F" "length (treebins s) = 32" "small_bins s L" "small_ok L F" "tree_ok s T F"
  let ?j = "small_index S"
  have "8 dvd unat S" using bin_chunkD(3) [OF regularD(3) [OF a(1) p]] dvd_trans [of 8 16 "unat S"] by simp
  note j = small_index_size [OF S this]
  have "p \<in> set (L ?j)" using a(4) p j by (simp add: small_ok_def)
  then obtain xs ys where L: "L ?j = xs @ p # ys" by (meson split_list)
  have "distinct (L ?j)" using small_binsD(1) [OF a(3) j(2)] by (auto simp: bin_list_def ring_def split: if_splits)
  then have ps: "set (xs @ ys) = set (L ?j) - {p}" using L by auto
  have "is_small S" using S by (simp add: is_small_iff)
  then obtain s' where s': "unlink_small_chunk p S s = ret () s'" "small_bins s' (L(?j := xs @ ys))"
    "same_but_links (bin_nodes s L) s s'"
    using remove_small_bins [OF a(3) _ L] by blast
  show ?thesis
    using s'(1) store_small_removed [OF a(1,2,4,5) j(2) ps s'(2,3)] unfolding j(1) by blast
qed

lemma store_pop_small:
  assumes st: "store s F" and i: "i < NSMALLBINS" "smallmap_is_marked s i \<noteq> 0"
  shows "\<exists>p s'. p = fd (mem s) (smallbin_at s i) \<and> (p, 8 * ucast i) \<in> F \<and>
    unlink_first_small_chunk (smallbin_at s i) p i s = ret () s' \<and>
    store s' (F - {(p, 8 * ucast i)}) \<and> bins_step (bin_cells s F) s s'"
proof (rule storeE [OF st])
  fix L T assume a: "regular s F" "length (treebins s) = 32" "small_bins s L" "small_ok L F" "tree_ok s T F"
  have "L i \<noteq> []" using small_binsD(1) [OF a(3) i(1)] i(2) by (auto simp: bin_list_def split: if_splits)
  then obtain p ps where L: "L i = p # ps" by (cases "L i") auto
  have "distinct (L i)" using small_binsD(1) [OF a(3) i(1)] L by (simp add: bin_list_def ring_def)
  then have ps: "set ps = set (L i) - {p}" using L by auto
  obtain s' where s': "unlink_first_small_chunk (smallbin_at s i) p i s = ret () s'" "small_bins s' (L(i := ps))"
    "same_but_links (bin_nodes s L) s s'" and p: "fd (mem s) (smallbin_at s i) = p"
    using pop_small_bins [OF a(3) i(1) L] by blast
  have "p \<in> set (L i)" using L by simp
  then have "(p, 8 * ucast i) \<in> F" using a(4) i(1) by (simp add: small_ok_def)
  then show ?thesis
    using s'(1) p store_small_removed [OF a(1,2,4,5) i(1) ps s'(2,3)] by blast
qed

subsection \<open>Large chunks\<close>

definition sized :: "heap \<Rightarrow> (addr \<times> u64) set \<Rightarrow> bool" where
  "sized h F \<longleftrightarrow> (\<forall>(p, n)\<in>F. chunksize h p = n)"

lemma tree_nodes:
  assumes "tree_ok s T F" "i < NTREEBINS"
  shows "set (T i) \<subseteq> fst ` large_part F"
proof
  fix p assume "p \<in> set (T i)"
  then have "\<exists>n. 256 \<le> unat n \<and> compute_tree_index n = i \<and> (p, n) \<in> F" unfolding tree_okD(2) [OF assms] .
  then obtain n where "256 \<le> unat n" "(p, n) \<in> F" by blast
  then show "p \<in> fst ` large_part F" by (intro image_eqI [of _ _ "(p, n)"]) simp_all
qed

lemma large_scattered:
  assumes r: "regular s F" and N: "N \<subseteq> fst ` large_part F"
  shows "scattered N" "\<And>x. x \<in> N \<Longrightarrow> ok_address s x \<and> x \<noteq> 0"
proof -
  have *: "\<exists>n. 256 \<le> unat n \<and> (p, n) \<in> F" if p: "p \<in> N" for p
  proof -
    obtain x where "x \<in> large_part F" "p = fst x" using p N by blast
    then show ?thesis by (intro exI [of _ "snd x"]) simp
  qed
  show "scattered N" unfolding scattered_def using * regular_remote [OF r] by metis
  show "ok_address s x \<and> x \<noteq> 0" if x: "x \<in> N" for x
  proof -
    obtain n where "(x, n) \<in> F" using * [OF x] by blast
    then have "ok_address s x" by (rule bin_chunkD(1) [OF regularD(3) [OF r]])
    then show ?thesis using regularD(1) [OF r] by (auto simp: ok_address_def)
  qed
qed

lemma large_step_small:
  assumes sb: "small_bins s L" and ok: "small_ok L F" and r: "regular s E" and sub: "F \<subseteq> E"
    and st: "tree_step i N s s'" and N: "N \<subseteq> fst ` large_part E"
  shows "small_bins s' L" "bins_step (bin_cells s E) s s'"
proof -
  have b: "bins_step (\<Union> (tree_cells ` N)) s s'" and m: "smallmap s' = smallmap s"
    using st by (simp_all add: tree_step_def)
  note same = bins_step_same [OF b]
  show "small_bins s' L"
  proof (rule small_bins_cong [OF sb same(1,2) m])
    fix c assume c: "c \<in> link_cells (bin_nodes s L)"
    have "bin_nodes s L \<subseteq> bin_headers s \<union> fst ` small_part E"
      using sub by (intro subset_trans [OF small_ok_nodes [OF ok]] Un_mono subset_refl image_mono) auto
    then have "c \<in> gm_cells s \<union> \<Union> (body ` small_part E)" using small_cells [OF r] c by blast
    then have "c \<notin> \<Union> (tree_cells ` N)"
      using small_large_disjoint [OF r] large_cells [OF r N] by blast
    then show "mem s' c = mem s c" by (rule same(13))
  qed
  show "bins_step (bin_cells s E) s s'"
    by (rule bins_step_mono [OF b]) (rule subset_trans [OF large_cells [OF r N] bin_cells_parts(2)])
qed

text \<open>The other tree bins keep their chunks.\<close>

lemma tree_step_other:
  assumes T: "tree_ok s T F" and r: "regular s E" and sub: "F \<subseteq> E"
    and st: "tree_step i (insert X (set (T i))) s s'" and X: "(X, S) \<in> E" "256 \<le> unat S" "compute_tree_index S = i"
    and j: "j < NTREEBINS" "j \<noteq> i" and i: "i < NTREEBINS"
  shows "tree_bin s' j (T j)"
proof -
  have "same_cells (mem s) (mem s') p" if "p \<in> set (T j)" for p
  proof -
    have "\<exists>n. 256 \<le> unat n \<and> compute_tree_index n = j \<and> (p, n) \<in> F" using that unfolding tree_okD(2) [OF T j(1)] .
    then obtain n where n: "256 \<le> unat n" "compute_tree_index n = j" "(p, n) \<in> F" by blast
    have "body (p, n) \<inter> tree_cells q = {}" if q: "q \<in> insert X (set (T i))" for q
    proof -
      have "\<exists>m. 256 \<le> unat m \<and> compute_tree_index m = i \<and> (q, m) \<in> E"
        using q X tree_okD(2) [OF T i] sub by blast
      then obtain m where m: "256 \<le> unat m" "compute_tree_index m = i" "(q, m) \<in> E" by blast
      have "(p, n) \<noteq> (q, m)" using n(2) m(2) j(2) by auto
      then show ?thesis
        using body_disjoint(1) [OF r, of "(p, n)" "(q, m)"] chunk_tree_cells [OF r m(3,1)] n(3) sub m(3) by blast
    qed
    then have "c \<notin> \<Union> (tree_cells ` insert X (set (T i)))" if "c \<in> tree_cells p" for c
      using chunk_tree_cells [OF r, of p n] n sub that by blast
    then have "mem s' c = mem s c" if "c \<in> tree_cells p" for c
      using st that by (simp add: tree_step_def bins_step_def)
    then show ?thesis by (simp add: same_cells_def tree_cells_def)
  qed
  then show ?thesis
    using st j tree_okD(1) [OF T j(1)] by (subst tree_bin_cong [of _ s]) (auto simp: tree_step_def)
qed

text \<open>Another size is in the tree bin of \<open>S\<close>.\<close>

definition clash :: "u64 \<Rightarrow> (addr \<times> u64) set \<Rightarrow> bool" where
  "clash S F \<longleftrightarrow> 256 \<le> unat S \<and>
     (\<exists>q n. (q, n) \<in> F \<and> 256 \<le> unat n \<and> n \<noteq> S \<and> compute_tree_index n = compute_tree_index S)"

lemma clash_mono: "clash S F \<Longrightarrow> F \<subseteq> G \<Longrightarrow> clash S G"
  unfolding clash_def by blast

lemma head_not_in_body:
  assumes "regular s E" "(p, S) \<in> E" "(t, n) \<in> E" "t \<noteq> p"
  shows "t + 8 \<notin> body (p, S)"
proof -
  have "\<not> overlap (t, n) (p, S)" using regularD(4) [OF assms(1,3,2)] assms(4) by simp
  moreover have "unat (t + 8) = unat t + 8" "32 \<le> unat n"
    using bin_chunkD [OF regularD(3) [OF assms(1,3)]] by (simp_all add: unat_offset)
  ultimately show ?thesis by (auto simp: body_def overlap_def)
qed

lemma tree_ok_insert:
  assumes T: "tree_ok s T F" and i: "i < NTREEBINS" "i = compute_tree_index S" and S: "256 \<le> unat S"
    and other: "\<And>j. j < NTREEBINS \<Longrightarrow> j \<noteq> i \<Longrightarrow> tree_bin s' j (T j)"
    and bin: "tree_bin s' i ps" "set ps = insert p (set (T i))" and nc: "\<not> clash S F"
  shows "tree_ok s' (T(i := ps)) (insert (p, S) F)"
  unfolding tree_ok_def
proof (intro allI impI conjI)
  fix j assume j: "j < NTREEBINS"
  show "tree_bin s' j ((T(i := ps)) j)" using other [OF j] bin(1) by (cases "j = i") simp_all
  show "q \<in> set ((T(i := ps)) j) \<longleftrightarrow> (\<exists>n. 256 \<le> unat n \<and> compute_tree_index n = j \<and> (q, n) \<in> insert (p, S) F)" for q
  proof (cases "j = i")
    case True
    have "q \<in> set (T i) \<longleftrightarrow> (\<exists>n. 256 \<le> unat n \<and> compute_tree_index n = i \<and> (q, n) \<in> F)" by (rule tree_okD(2) [OF T i(1)])
    then show ?thesis using True bin(2) i(2) S by auto
  next
    case False
    have "q \<in> set (T j) \<longleftrightarrow> (\<exists>n. 256 \<le> unat n \<and> compute_tree_index n = j \<and> (q, n) \<in> F)" by (rule tree_okD(2) [OF T j])
    then show ?thesis using False i(2) by auto
  qed
  show "\<exists>N. \<forall>q n. 256 \<le> unat n \<longrightarrow> compute_tree_index n = j \<longrightarrow> (q, n) \<in> insert (p, S) F \<longrightarrow> n = N"
  proof (cases "j = i")
    case True
    then show ?thesis using nc S i(2) by (intro exI [of _ S]) (auto simp: clash_def)
  next
    case False
    obtain N where N: "\<forall>q n. 256 \<le> unat n \<longrightarrow> compute_tree_index n = j \<longrightarrow> (q, n) \<in> F \<longrightarrow> n = N"
      using tree_okD(4) [OF T j] by blast
    have "n = N" if "256 \<le> unat n" "compute_tree_index n = j" "(q, n) \<in> insert (p, S) F" for q n
      using that N False i(2) by auto
    then show ?thesis by blast
  qed
qed

lemma store_insert_large:
  assumes st: "store s F" and r: "regular s (insert (p, S) F)" and S: "256 \<le> unat S" and new: "(p, S) \<notin> F"
    and sz: "sized (mem s) F"
  shows "if clash S F then \<exists>s1. insert_large_chunk p S s = throw Memory_Corrupted s1
    else \<exists>s'. insert_large_chunk p S s = ret () s' \<and> store s' (insert (p, S) F) \<and>
      bins_step (bin_cells s (insert (p, S) F)) s s'"
proof (rule storeE [OF st])
  fix L T assume a: "regular s F" "length (treebins s) = 32" "small_bins s L" "small_ok L F" "tree_ok s T F"
  let ?E = "insert (p, S) F"
  define i where i: "i = compute_tree_index S"
  have i32: "unat i < 32" "i < NTREEBINS" using tree_index_lt [of S] by (simp_all add: i less_NTREEBINS)
  note new' = regular_new [OF r new]
  have Ti: "t \<in> set (T i) \<longleftrightarrow> (\<exists>n. 256 \<le> unat n \<and> compute_tree_index n = i \<and> (t, n) \<in> F)" for t
    by (rule tree_okD(2) [OF a(5) i32(2)])
  have N: "insert p (set (T i)) \<subseteq> fst ` large_part ?E"
  proof -
    have "p \<in> fst ` large_part ?E" by (rule image_eqI [of _ _ "(p, S)"]) (use S in simp_all)
    moreover have "fst ` large_part F \<subseteq> fst ` large_part ?E" by (rule image_mono) auto
    ultimately show ?thesis using tree_nodes [OF a(5) i32(2)] by blast
  qed
  note sc = large_scattered [OF r N]
  have X: "p \<notin> set (T i)"
  proof
    assume "p \<in> set (T i)"
    then have "p \<in> fst ` large_part F" using tree_nodes [OF a(5) i32(2)] by blast
    with new'(1) show False by blast
  qed
  have hd: "t + 8 \<notin> tree_cells p" if "t \<in> set (T i)" for t
  proof -
    have "\<exists>n. (t, n) \<in> F" using that Ti by blast
    then obtain n where "(t, n) \<in> ?E" by blast
    then have "t + 8 \<notin> body (p, S)" using head_not_in_body [OF r, of p S t n] X that by auto
    then show ?thesis using chunk_tree_cells [OF r, of p S] S by auto
  qed
  have chunk: "\<exists>n. (t, n) \<in> F \<and> 256 \<le> unat n \<and> compute_tree_index n = i \<and> chunksize (mem s) t = n" if "t \<in> set (T i)" for t
  proof -
    have "\<exists>n. 256 \<le> unat n \<and> compute_tree_index n = i \<and> (t, n) \<in> F" using that Ti by blast
    then obtain n where "256 \<le> unat n" "compute_tree_index n = i" "(t, n) \<in> F" by blast
    moreover have "chunksize (mem s) t = n" using sz calculation(3) by (auto simp: sized_def)
    ultimately show ?thesis by blast
  qed
  show ?thesis
  proof (cases "clash S F")
    case True
    then obtain q n where q: "(q, n) \<in> F" "256 \<le> unat n" "n \<noteq> S" "compute_tree_index n = i" by (auto simp: clash_def i)
    then have "q \<in> set (T i)" using Ti by blast
    then obtain t ts where ts: "T i = t # ts" by (cases "T i") auto
    then obtain m where m: "(t, m) \<in> F" "256 \<le> unat m" "compute_tree_index m = i" "chunksize (mem s) t = m"
      using chunk [of t] by auto
    then have "m = n" using tree_okD(3) [OF a(5) i32(2), of m t n q] q by simp
    then have "chunksize (mem s) t \<noteq> S" using m q by simp
    moreover have "remote x p" if "x \<in> set (t # ts)" for x
      using sc(1) that X ts by (auto simp: scattered_def)
    ultimately show ?thesis
      using True insert_other_size [of s i t ts S p] tree_okD(1) [OF a(5) i32(2)] ts i hd regularD(1) [OF a(1)] by auto
  next
    case False
    have "chunksize (mem s) t = S" if "t \<in> set (T i)" for t
      using chunk [OF that] False S by (auto simp: clash_def i)
    then obtain s' ps where s': "insert_large_chunk p S s = ret () s'" "tree_bin s' i ps" "set ps = insert p (set (T i))"
      "tree_step i (insert p (set (T i))) s s'"
      using tree_bin_insert [OF tree_okD(1) [OF a(5) i32(2)] i i32(1) a(2) X new'(4) sc(1)] hd sc(2) by blast
    have F: "F \<subseteq> ?E" by blast
    note small = large_step_small [OF a(3,4) r F s'(4) N]
    have "tree_ok s' (T(i := ps)) ?E"
      by (rule tree_ok_insert [OF a(5) i32(2) i S tree_step_other [OF a(5) r F s'(4) _ S] s'(2,3) False])
        (use i i32 in simp_all)
    moreover have "small_ok L ?E"
      using a(4) S by (auto simp: small_ok_def unat_small_size less_NSMALLBINS)
    moreover have "length (treebins s') = 32" using s'(4) a(2) by (simp add: tree_step_def)
    moreover have "regular s' ?E" using r bins_step_same(10) [OF small(2)] by simp
    ultimately have "store s' ?E" using small(1) by (intro storeI)
    then show ?thesis using s'(1) small(2) False by auto
  qed
qed

lemma tree_ok_remove:
  assumes T: "tree_ok s T F" and r: "regular s F" and i: "i < NTREEBINS" "i = compute_tree_index S" and p: "(p, S) \<in> F"
    and S: "256 \<le> unat S" and other: "\<And>j. j < NTREEBINS \<Longrightarrow> j \<noteq> i \<Longrightarrow> tree_bin s' j (T j)"
    and bin: "tree_bin s' i ps" "set ps = set (T i) - {p}"
  shows "tree_ok s' (T(i := ps)) (F - {(p, S)})"
  unfolding tree_ok_def
proof (intro allI impI conjI)
  fix j assume j: "j < NTREEBINS"
  show "tree_bin s' j ((T(i := ps)) j)" using other [OF j] bin(1) by (cases "j = i") simp_all
  show "q \<in> set ((T(i := ps)) j) \<longleftrightarrow> (\<exists>n. 256 \<le> unat n \<and> compute_tree_index n = j \<and> (q, n) \<in> F - {(p, S)})" for q
  proof (cases "j = i")
    case True
    have "q \<in> set (T i) \<longleftrightarrow> (\<exists>n. 256 \<le> unat n \<and> compute_tree_index n = i \<and> (q, n) \<in> F)" by (rule tree_okD(2) [OF T i(1)])
    moreover have "(p, n) \<in> F \<longleftrightarrow> n = S" for n using regular_unique [OF r p, of n] p by auto
    ultimately show ?thesis using True bin(2) i(2) S by auto
  next
    case False
    have "q \<in> set (T j) \<longleftrightarrow> (\<exists>n. 256 \<le> unat n \<and> compute_tree_index n = j \<and> (q, n) \<in> F)" by (rule tree_okD(2) [OF T j])
    then show ?thesis using False i(2) by auto
  qed
  show "\<exists>N. \<forall>q n. 256 \<le> unat n \<longrightarrow> compute_tree_index n = j \<longrightarrow> (q, n) \<in> F - {(p, S)} \<longrightarrow> n = N"
    using tree_okD(4) [OF T j] by blast
qed

lemma store_remove_large:
  assumes st: "store s F" and p: "(p, S) \<in> F" and S: "256 \<le> unat S"
  shows "\<exists>s'. unlink_large_chunk p s = ret () s' \<and> store s' (F - {(p, S)}) \<and> bins_step (bin_cells s F) s s'"
proof (rule storeE [OF st])
  fix L T assume a: "regular s F" "length (treebins s) = 32" "small_bins s L" "small_ok L F" "tree_ok s T F"
  define i where i: "i = compute_tree_index S"
  have i32: "unat i < 32" "i < NTREEBINS" using tree_index_lt [of S] by (simp_all add: i less_NTREEBINS)
  have X: "p \<in> set (T i)" unfolding tree_okD(2) [OF a(5) i32(2)] using p S i by blast
  note N = tree_nodes [OF a(5) i32(2)]
  note sc = large_scattered [OF a(1) N]
  obtain s' ps where s': "unlink_large_chunk p s = ret () s'" "tree_bin s' i ps" "set ps = set (T i) - {p}"
    "tree_step i (set (T i)) s s'"
    using tree_bin_remove [OF tree_okD(1) [OF a(5) i32(2)] X i32(1) a(2) sc(1)] sc(2) by blast
  have ts: "tree_step i (insert p (set (T i))) s s'" using s'(4) X by (simp add: insert_absorb)
  note small = large_step_small [OF a(3,4,1) subset_refl s'(4) N]
  have "tree_ok s' (T(i := ps)) (F - {(p, S)})"
    by (rule tree_ok_remove [OF a(5,1) i32(2) i p S tree_step_other [OF a(5,1) subset_refl ts p S] s'(2,3)])
      (use i i32 in simp_all)
  moreover have "small_ok L (F - {(p, S)})"
    using a(4) S by (auto simp: small_ok_def unat_small_size less_NSMALLBINS)
  moreover have "length (treebins s') = 32" using s'(4) a(2) by (simp add: tree_step_def)
  moreover have "regular s' (F - {(p, S)})"
    using regular_subset [OF a(1), of "F - {(p, S)}"] bins_step_same(10) [OF small(2)] by auto
  ultimately have "store s' (F - {(p, S)})" using small(1) by (intro storeI)
  then show ?thesis using s'(1) small(2) by blast
qed

text \<open>\<open>insert_chunk\<close> and \<open>unlink_chunk\<close>, which choose between the small bins and the trees.\<close>

lemma store_insert:
  assumes "store s F" "regular s (insert (p, S) F)" "(p, S) \<notin> F" "sized (mem s) F"
  shows "if clash S F then \<exists>s1. insert_chunk p S s = throw Memory_Corrupted s1
    else \<exists>s'. insert_chunk p S s = ret () s' \<and> store s' (insert (p, S) F) \<and>
      bins_step (bin_cells s (insert (p, S) F)) s s'"
proof (cases "unat S < 256")
  case True
  then have "\<not> clash S F" "is_small S" by (simp_all add: clash_def is_small_iff)
  then show ?thesis using store_insert_small [OF assms(1,2) True assms(3)] by (simp add: insert_chunk_def)
next
  case False
  then have "\<not> is_small S" by (simp add: is_small_iff)
  then show ?thesis using store_insert_large [OF assms(1,2) _ assms(3,4)] False by (simp add: insert_chunk_def)
qed

lemma store_unlink:
  assumes "store s F" "(p, S) \<in> F"
  shows "\<exists>s'. unlink_chunk p S s = ret () s' \<and> store s' (F - {(p, S)}) \<and> bins_step (bin_cells s F) s s'"
  using store_remove_small [OF assms] store_remove_large [OF assms]
  by (cases "unat S < 256") (simp_all add: unlink_chunk_def is_small_iff)

lemma free_insert_eq: "(if is_small S then insert_small_chunk p S s else insert_large_chunk p S s) = insert_chunk p S s"
  by (simp add: insert_chunk_def)

section \<open>Searching the tree bins\<close>

text \<open>A marked tree bin has a root of a size in the store, without children.\<close>

lemma store_root:
  assumes st: "store s F" and i: "unat i < 32" "treemap_is_marked s i \<noteq> 0" and sz: "sized (mem s) F"
  shows "\<exists>n. (treebin_at s i, n) \<in> F \<and> 256 \<le> unat n \<and> compute_tree_index n = i \<and>
    chunksize (mem s) (treebin_at s i) = n \<and> leaf (mem s) i (treebin_at s i)"
proof (rule storeE [OF st])
  fix L T assume a: "regular s F" "length (treebins s) = 32" "small_bins s L" "small_ok L F" "tree_ok s T F"
  have i': "i < NTREEBINS" using i(1) by (simp add: less_NTREEBINS)
  note T = tree_okD(1) [OF a(5) i']
  obtain t ts where ts: "T i = t # ts" using T i(2) by (cases "T i") auto
  have t: "treebin_at s i = t" "leaf (mem s) i t" using T ts by simp_all
  have "t \<in> set (T i)" using ts by simp
  then have "\<exists>n. 256 \<le> unat n \<and> compute_tree_index n = i \<and> (t, n) \<in> F" unfolding tree_okD(2) [OF a(5) i'] .
  then show ?thesis using t sz by (auto simp: sized_def)
qed

lemma store_no_root:
  assumes st: "store s F" and i: "unat i < 32" "treemap_is_marked s i = 0"
  shows "treebin_at s i = 0"
proof (rule storeE [OF st])
  fix L T assume a: "tree_ok s T F"
  have i': "i < NTREEBINS" using i(1) by (simp add: less_NTREEBINS)
  note T = tree_okD(1) [OF a i']
  show "treebin_at s i = 0" using T i(2) by (cases "T i") auto
qed

text \<open>A chunk of the store marks its bin.\<close>

lemma store_large_marked:
  assumes st: "store s F" and x: "(p, n) \<in> F" "256 \<le> unat n"
  shows "treemap_is_marked s (compute_tree_index n) \<noteq> 0"
proof (rule storeE [OF st])
  fix L T assume a: "tree_ok s T F"
  let ?i = "compute_tree_index n"
  have i: "?i < NTREEBINS" using tree_index_lt [of n] by (simp add: less_NTREEBINS)
  have "p \<in> set (T ?i)" unfolding tree_okD(2) [OF a i] using x by blast
  then show ?thesis using tree_okD(1) [OF a i] by (cases "T ?i") auto
qed

lemma store_one_size:
  assumes st: "store s F" and x: "(p, n) \<in> F" "256 \<le> unat n"
    and y: "(q, m) \<in> F" "256 \<le> unat m" "compute_tree_index m = compute_tree_index n"
  shows "m = n"
proof (rule storeE [OF st])
  fix L T assume a: "tree_ok s T F"
  have i: "compute_tree_index n < NTREEBINS" using tree_index_lt [of n] by (simp add: less_NTREEBINS)
  show ?thesis by (rule tree_okD(3) [OF a i y(2,3,1) x(2) refl x(1)])
qed

lemma store_small_marked:
  assumes st: "store s F" and x: "(p, n) \<in> F" "unat n < 256"
  shows "smallmap_is_marked s (small_index n) \<noteq> 0" "unat n = 8 * unat (small_index n)"
proof -
  obtain L T where a: "regular s F" "small_bins s L" "small_ok L F" using storeE [OF st] by metis
  have "8 dvd unat n" using bin_chunkD(3) [OF regularD(3) [OF a(1) x(1)]] dvd_trans [of 8 16 "unat n"] by simp
  note j = small_index_size [OF x(2) this]
  have "p \<in> set (L (small_index n))" using a(3) x(1) j by (simp add: small_ok_def)
  then show "smallmap_is_marked s (small_index n) \<noteq> 0"
    using small_binsD(1) [OF a(2) j(2)] by (auto simp: bin_list_def split: if_splits)
  show "unat n = 8 * unat (small_index n)"
    using \<open>8 dvd unat n\<close> x(2) by (simp add: unat_small_index(1) is_small_iff)
qed

lemma clash_treemap:
  assumes "store s F" "clash k F"
  shows "treemap s \<noteq> 0"
proof -
  obtain q n where "(q, n) \<in> F" "256 \<le> unat n" using assms(2) by (auto simp: clash_def)
  from store_large_marked [OF assms(1) this] show ?thesis by (auto simp: treemap_is_marked_def)
qed

lemma store_nonzero:
  assumes "store s F" "(p, n) \<in> F"
  shows "p \<noteq> 0" "ok_address s p" "16 dvd unat p" "16 dvd unat n" "32 \<le> unat n" "unat p + unat n + 16 < 18446744073709551616"
proof -
  have r: "regular s F" using assms(1) by (auto elim: storeE)
  note x = bin_chunkD [OF regularD(3) [OF r assms(2)]]
  show "ok_address s p" "16 dvd unat p" "16 dvd unat n" "32 \<le> unat n" "unat p + unat n + 16 < 18446744073709551616"
    by (rule x)+
  then show "p \<noteq> 0" using regularD(1) [OF r] by (auto simp: ok_address_def)
qed

text \<open>The walks end at once: a root has no children.\<close>

lemma tmalloc_small_walk_leaf:
  assumes "leaf h i t"
  shows "tmalloc_small_walk h nb t v r = Some (v, r)"
  using assms by (subst tmalloc_small_walk.simps) (simp add: leftmost_child_def leaf_def)

lemma tmalloc_large_walk_leaf:
  assumes "leaf h i t" "t \<noteq> 0"
  shows "tmalloc_large_walk h nb t v r =
    Some (if chunksize h t - nb < r then (t, chunksize h t - nb) else (v, r))"
proof -
  have "leftmost_child h t = 0" using assms(1) by (simp add: leftmost_child_def leaf_def)
  moreover have "tmalloc_large_walk h nb 0 v' r' = Some (v', r')" for v' r' by (subst tmalloc_large_walk.simps) simp
  ultimately show ?thesis using assms(2) by (subst tmalloc_large_walk.simps) (simp add: Let_def)
qed

lemma tmalloc_large_search_leaf:
  assumes "leaf h i t"
  shows "tmalloc_large_search h nb t v r rst K =
    (let trem = chunksize h t - nb
     in if trem < r then (if trem = 0 then Some (t, t, trem) else Some (rst, t, trem)) else Some (rst, v, r))"
proof -
  have "child h t 1 = 0" "child h t (sign_bit K) = 0"
    using assms sign_bit_01 [of K] by (auto simp: leaf_def)
  then show ?thesis by (subst tmalloc_large_search.simps) (simp add: Let_def)
qed

end
