(* ===== verification/Uni_Allocator.thy ===== *)
theory Uni_Allocator
  imports Tree_Bins
begin

text \<open>
  \<open>UniAllocator\<close> (\<open>uni_allocator/uni_allocator.h\<close> and \<open>.cc\<close>): \<open>Alloc\<close>, \<open>Free\<close> and \<open>InitOrExpand\<close>. The
  underlying allocator, a virtual class of \<open>src/cpp/allocator.h\<close>, is a record of functions on a
  state of its own. \<open>Alloc\<close> calls itself after \<open>InitOrExpand\<close>; \<open>uni_alloc\<close> is that recursion, with
  \<open>None\<close> when it does not end. The \<open>do_check_\<close> members are empty without \<open>DEBUG\<close>, and are left out.
\<close>

unbundle bit_operations_syntax

section \<open>Devices, the allocator interface, the object\<close>

datatype device_type = CPU | CPU_PAGE_LOCKED | GPU | CUDA_PINNED

record device =
  dev_type :: device_type
  dev_idx :: u64

record 'b allocator_ops =
  al_alloc :: "'b \<Rightarrow> u64 \<Rightarrow> addr \<times> 'b"
  al_free :: "'b \<Rightarrow> addr \<Rightarrow> 'b"

record 'b uni =
  gm :: mstate
  underlying :: 'b
  increasing_size :: u64
  increasing_step :: u64
  uni_device :: device

text \<open>\<open>new MallocState\<close> has no initialiser: \<open>garbage\<close> is what the new object holds.\<close>

definition uni_new :: "mstate \<Rightarrow> 'b \<Rightarrow> u64 \<Rightarrow> device \<Rightarrow> 'b uni" where
  "uni_new garbage underlying_allocator incr dev =
     \<lparr>gm = garbage, underlying = underlying_allocator, increasing_size = incr,
      increasing_step = 1, uni_device = dev\<rparr>"

text \<open>The destructor deletes the \<open>MallocState\<close>; what the underlying allocator handed out stays taken.\<close>

definition uni_destroy :: "'b uni \<Rightarrow> 'b" where "uni_destroy u = underlying u"

text \<open>\<open>PosixAlloc\<close> (\<open>posix_alloc.h\<close>): an underlying allocator that calls \<open>malloc\<close> and \<open>free\<close>.\<close>

definition posix_alloc :: "(u64 \<Rightarrow> 'os \<Rightarrow> addr \<times> 'os) \<Rightarrow> (addr \<Rightarrow> 'os \<Rightarrow> 'os) \<Rightarrow> 'os allocator_ops" where
  "posix_alloc c_malloc c_free = \<lparr>al_alloc = \<lambda>os n. c_malloc n os, al_free = \<lambda>os p. c_free p os\<rparr>"

section \<open>Alloc\<close>

text \<open>The last part of \<open>Alloc\<close>: split \<open>dv\<close> or \<open>top\<close>; \<open>None\<close> when neither is large enough.\<close>

definition alloc_dv_or_top :: "u64 \<Rightarrow> mstate \<Rightarrow> (mstate, addr option) comp" where
  "alloc_dv_or_top nb s =
     (if nb \<le> dvsize s
      then (let rsize = dvsize s - nb; p = dv s
            in if MIN_CHUNK_SIZE \<le> rsize
               then (let r = chunk_plus_offset p nb;
                         s = s\<lparr>dv := r, dvsize := rsize\<rparr>;
                         s = upd_mem (\<lambda>h. set_size_and_pinuse_of_free_chunk h r rsize) s;
                         s = upd_mem (\<lambda>h. set_size_and_pinuse_of_inuse_chunk h p nb) s
                     in ret (Some (chunk2mem p)) s)
               else (let dvs = dvsize s;
                         s = s\<lparr>dvsize := 0, dv := 0\<rparr>;
                         s = set_inuse_and_pinuse p dvs s
                     in ret (Some (chunk2mem p)) s))
      else if nb < topsize s
      then (let rsize = topsize s - nb; p = top_chunk s; r = chunk_plus_offset p nb;
                s = s\<lparr>topsize := rsize, top_chunk := r\<rparr>;
                s = upd_mem (\<lambda>h. set_head h r (rsize OR PINUSE_BIT)) s;
                s = gm_set_size_and_pinuse_of_inuse_chunk p nb s
            in ret (Some (chunk2mem p)) s)
      else ret None s)"

text \<open>A small request: an exact bin, else a larger bin or a tree when \<open>dv\<close> is too small.\<close>

definition alloc_small_exact :: "u32 \<Rightarrow> u32 \<Rightarrow> mstate \<Rightarrow> (mstate, addr option) comp" where
  "alloc_small_exact idx smallbits s =
     (let idx = idx + (NOT smallbits AND 1); b = smallbin_at s idx; p = fd (mem s) b
      in cbind (unlink_first_small_chunk b p idx s) (\<lambda>_ s.
           ret (Some (chunk2mem p)) (set_inuse_and_pinuse p (ucast (small_index2size idx)) s)))"

definition alloc_small_next :: "u64 \<Rightarrow> u32 \<Rightarrow> u32 \<Rightarrow> mstate \<Rightarrow> (mstate, addr option) comp" where
  "alloc_small_next nb idx smallbits s =
     (let leftbits = push_bit (unat idx) smallbits AND left_bits (idx2bit idx);
          i = compute_bit2idx (least_bit leftbits);
          b = smallbin_at s i; p = fd (mem s) b
      in cbind (unlink_first_small_chunk b p i s) (\<lambda>_ s.
           let rsize = ucast (small_index2size i) - nb
           in if SIZE_T_SIZE \<noteq> 4 \<and> rsize < MIN_CHUNK_SIZE
              then ret (Some (chunk2mem p)) (set_inuse_and_pinuse p (ucast (small_index2size i)) s)
              else (let s = gm_set_size_and_pinuse_of_inuse_chunk p nb s;
                        r = chunk_plus_offset p nb;
                        s = upd_mem (\<lambda>h. set_size_and_pinuse_of_free_chunk h r rsize) s
                    in cbind (replace_dv r rsize s) (\<lambda>_ s. ret (Some (chunk2mem p)) s))))"

text \<open>One pass of \<open>Alloc\<close> up to the call of \<open>InitOrExpand\<close>, which is the result \<open>None\<close>.\<close>

definition alloc_once :: "u64 \<Rightarrow> mstate \<Rightarrow> (mstate, addr option) comp" where
  "alloc_once bytes s =
     (if bytes \<le> MAX_SMALL_REQUEST
      then (let nb = (if bytes < MIN_REQUEST then MIN_CHUNK_SIZE else pad_request bytes);
                idx = small_index nb;
                smallbits = drop_bit (unat idx) (smallmap s)
            in if smallbits AND 3 \<noteq> 0 then alloc_small_exact idx smallbits s
               else if dvsize s < nb
               then (if smallbits \<noteq> 0 then alloc_small_next nb idx smallbits s
                     else if treemap s \<noteq> 0
                     then cbind (tmalloc_small nb s) (\<lambda>m s.
                            if m \<noteq> 0 then ret (Some m) s else alloc_dv_or_top nb s)
                     else alloc_dv_or_top nb s)
               else alloc_dv_or_top nb s)
      else if MAX_REQUEST \<le> bytes then alloc_dv_or_top MAX_SIZE_T s
      else (let nb = pad_request bytes
            in if treemap s \<noteq> 0
               then cbind (tmalloc_large nb s) (\<lambda>m s.
                      if m \<noteq> 0 then ret (Some m) s else alloc_dv_or_top nb s)
               else alloc_dv_or_top nb s))"

text \<open>
  \<open>InitOrExpand\<close>. The result of the underlying \<open>Alloc\<close> is not checked: with a null pointer \<open>init_top\<close>
  writes through it.
\<close>

definition init_or_expand :: "'b allocator_ops \<Rightarrow> 'b uni \<Rightarrow> ('b uni, unit) comp" where
  "init_or_expand ops u =
     (let tsize = increasing_size u * increasing_step u;
          (tbase, b) = al_alloc ops (underlying u) tsize;
          u = u\<lparr>underlying := b\<rparr>
      in if \<not> is_initialized (gm u)
         then (let s = gm u;
                   s = (if least_addr s = 0 \<or> tbase < least_addr s then s\<lparr>least_addr := tbase\<rparr> else s);
                   s = s\<lparr>magic := SIZE_T_ONE, release_checks := MAX_RELEASE_CHECK_RATE\<rparr>;
                   s = init_bins s
               in if tbase = 0 then throw Undefined_Behaviour (u\<lparr>gm := s\<rparr>)
                  else ret () (u\<lparr>gm := init_top s tbase (tsize - TOP_FOOT_SIZE)\<rparr>))
         else ret () u)"

partial_function (option) uni_alloc :: "'b allocator_ops \<Rightarrow> u64 \<Rightarrow> 'b uni \<Rightarrow> ('b uni, addr) comp" where
  "uni_alloc ops bytes u =
     (case alloc_once bytes (gm u) of
        None \<Rightarrow> None
      | Some (Fault e s) \<Rightarrow> throw e (u\<lparr>gm := s\<rparr>)
      | Some (Normal (Some m) s) \<Rightarrow> ret m (u\<lparr>gm := s\<rparr>)
      | Some (Normal None s) \<Rightarrow>
          (case init_or_expand ops (u\<lparr>gm := s\<rparr>) of
             None \<Rightarrow> None
           | Some (Fault e u) \<Rightarrow> throw e u
           | Some (Normal _ u) \<Rightarrow> uni_alloc ops bytes u))"

section \<open>Free\<close>

text \<open>
  Consolidation with the chunk before \<open>p\<close>. The result is \<open>None\<close> when \<open>Free\<close> returns here, else the
  chunk and size to go on with.
\<close>

definition free_backward :: "addr \<Rightarrow> u64 \<Rightarrow> addr \<Rightarrow> mstate \<Rightarrow> (mstate, (addr \<times> u64) option) comp" where
  "free_backward p psize nxt s =
     (if pinuse (mem s) p = 0
      then (let prevsize = prev_foot (mem s) p;
                prev = chunk_minus_offset p prevsize;
                psize = psize + prevsize;
                p = prev
            in if ok_address s prev
               then if p \<noteq> dv s
                    then cbind (unlink_chunk p prevsize s) (\<lambda>_ s. ret (Some (p, psize)) s)
                    else if head (mem s) nxt AND INUSE_BITS = INUSE_BITS
                    then ret None (upd_mem (\<lambda>h. set_free_with_pinuse h p psize nxt) (s\<lparr>dvsize := psize\<rparr>))
                    else ret (Some (p, psize)) s
               else throw Memory_Corrupted s)
      else ret (Some (p, psize)) s)"

text \<open>The end of \<open>Free\<close>: put the chunk into a bin.\<close>

definition free_insert :: "addr \<Rightarrow> u64 \<Rightarrow> mstate \<Rightarrow> (mstate, unit) comp" where
  "free_insert p psize s =
     (if is_small psize then insert_small_chunk p psize s else insert_large_chunk p psize s)"

text \<open>Consolidation with the chunk behind \<open>p\<close>.\<close>

definition free_forward :: "addr \<Rightarrow> u64 \<Rightarrow> addr \<Rightarrow> mstate \<Rightarrow> (mstate, unit) comp" where
  "free_forward p psize nxt s =
     (if ok_next p nxt \<and> pinuse (mem s) nxt \<noteq> 0
      then if cinuse (mem s) nxt = 0
           then if nxt = top_chunk s
                then (let tsize = topsize s + psize;
                          s = s\<lparr>topsize := tsize, top_chunk := p\<rparr>;
                          s = upd_mem (\<lambda>h. set_head h p (tsize OR PINUSE_BIT)) s
                      in ret () (if p = dv s then s\<lparr>dv := 0, dvsize := 0\<rparr> else s))
                else if nxt = dv s
                then (let dsize = dvsize s + psize;
                          s = s\<lparr>dvsize := dsize, dv := p\<rparr>
                      in ret () (upd_mem (\<lambda>h. set_size_and_pinuse_of_free_chunk h p dsize) s))
                else (let nsize = chunksize (mem s) nxt; psize = psize + nsize
                      in cbind (unlink_chunk nxt nsize s) (\<lambda>_ s.
                           let s = upd_mem (\<lambda>h. set_size_and_pinuse_of_free_chunk h p psize) s
                           in if p = dv s then ret () (s\<lparr>dvsize := psize\<rparr>)
                              else free_insert p psize s))
           else free_insert p psize (upd_mem (\<lambda>h. set_free_with_pinuse h p psize nxt) s)
      else ret () s)"

definition gm_free :: "addr \<Rightarrow> mstate \<Rightarrow> (mstate, unit) comp" where
  "gm_free m s =
     (if m \<noteq> 0
      then (let p = mem2chunk m
            in if ok_address s p \<and> is_inuse (mem s) p
               then (let psize = chunksize (mem s) p; nxt = chunk_plus_offset p psize
                     in cbind (free_backward p psize nxt s) (\<lambda>r s.
                          case r of None \<Rightarrow> ret () s
                          | Some (p, psize) \<Rightarrow> free_forward p psize nxt s))
               else ret () s)
      else ret () s)"

definition uni_free :: "addr \<Rightarrow> 'b uni \<Rightarrow> ('b uni, unit) comp" where
  "uni_free m u =
     (case gm_free m (gm u) of
        None \<Rightarrow> None
      | Some (Fault e s) \<Rightarrow> throw e (u\<lparr>gm := s\<rparr>)
      | Some (Normal _ s) \<Rightarrow> ret () (u\<lparr>gm := s\<rparr>))"

section \<open>Initialisation\<close>

lemma init_or_expand_initialized:
  "is_initialized (gm u) \<Longrightarrow>
   init_or_expand ops u = ret () (u\<lparr>underlying := snd (al_alloc ops (underlying u) (increasing_size u * increasing_step u))\<rparr>)"
  by (simp add: init_or_expand_def Let_def split: prod.split)

lemma mem_init_top_fence:
  "mem (init_top s p psize) (p + psize + 8) = TOP_FOOT_SIZE"
  by (simp add: init_top_def Let_def upd_mem_def set_head_def chunk_plus_offset_def algebra_simps)

text \<open>
  C21: The padding at the end of the first segment is one word too short: \<open>InitOrExpand\<close> asks the
  underlying allocator for \<open>tsize\<close> bytes and writes the fence word at \<open>tbase + tsize\<close>, the first cell
  behind them, whatever that cell held and whatever the alignment of \<open>tbase\<close>.
\<close>

theorem init_writes_past_segment:
  assumes "\<not> is_initialized (gm u)"
    and "al_alloc ops (underlying u) (increasing_size u * increasing_step u) = (tbase, b)" and "tbase \<noteq> 0"
  shows "\<exists>u'. init_or_expand ops u = ret () u' \<and>
    mem (gm u') (tbase + increasing_size u * increasing_step u) = TOP_FOOT_SIZE"
proof -
  let ?t = "increasing_size u * increasing_step u"
  have "tbase + (?t - TOP_FOOT_SIZE) + 8 = tbase + ?t" by (simp add: size_consts)
  then have "mem (init_top s tbase (?t - TOP_FOOT_SIZE)) (tbase + ?t) = TOP_FOOT_SIZE" for s
    using mem_init_top_fence [of s tbase "?t - TOP_FOOT_SIZE"] by simp
  then show ?thesis
    using assms by (simp add: init_or_expand_def Let_def)
qed

text \<open>
  \<open>new MallocState\<close> leaves the fields indeterminate. When the word that becomes \<open>top\<close> is not
  zero, \<open>InitOrExpand\<close> takes the state for initialised: the memory it has just obtained is dropped
  and the garbage state is used as it is.
\<close>

lemma garbage_state_never_initialized:
  assumes "top_chunk garbage \<noteq> 0"
  shows "\<exists>u'. init_or_expand ops (uni_new garbage b incr dev) = ret () u' \<and> gm u' = garbage"
  using assms by (simp add: init_or_expand_initialized uni_new_def is_initialized_def)

section \<open>Requests that never return\<close>

lemma uni_alloc_loops:
  assumes "alloc_once bytes (gm u) = ret None (gm u)" and "is_initialized (gm u)"
  shows "uni_alloc ops bytes u = None"
proof (rule ccontr)
  assume "uni_alloc ops bytes u \<noteq> None"
  then obtain r where r: "uni_alloc ops bytes u = Some r" by blast
  have "\<not> (alloc_once bytes (gm u) = ret None (gm u) \<and> is_initialized (gm u))"
  proof (rule uni_alloc.raw_induct [where P = "\<lambda>ops bytes u r.
      \<not> (alloc_once bytes (gm u) = ret None (gm u) \<and> is_initialized (gm u))", OF _ r])
    fix f :: "'a allocator_ops \<Rightarrow> u64 \<Rightarrow> 'a uni \<Rightarrow> ('a uni, addr) comp" and ops bytes u r
    assume IH: "\<And>ops bytes u r. f ops bytes u = Some r \<Longrightarrow>
        \<not> (alloc_once bytes (gm u) = ret None (gm u) \<and> is_initialized (gm u))"
      and eq: "(case alloc_once bytes (gm u) of None \<Rightarrow> None
        | Some (Normal None s) \<Rightarrow> (case init_or_expand ops (u\<lparr>gm := s\<rparr>) of None \<Rightarrow> None
            | Some (Normal _ u) \<Rightarrow> f ops bytes u | Some (Fault e u) \<Rightarrow> throw e u)
        | Some (Normal (Some m) s) \<Rightarrow> ret m (u\<lparr>gm := s\<rparr>)
        | Some (Fault e s) \<Rightarrow> throw e (u\<lparr>gm := s\<rparr>)) = Some r"
    show "\<not> (alloc_once bytes (gm u) = ret None (gm u) \<and> is_initialized (gm u))"
    proof
      assume a: "alloc_once bytes (gm u) = ret None (gm u) \<and> is_initialized (gm u)"
      let ?u = "u\<lparr>underlying := snd (al_alloc ops (underlying u) (increasing_size u * increasing_step u))\<rparr>"
      have "f ops bytes ?u = Some r"
        using eq a by (simp add: init_or_expand_initialized ret_def)
      from IH [OF this] a show False by simp
    qed
  qed
  with assms show False by blast
qed

lemma alloc_dv_or_top_None:
  "dvsize s < nb \<Longrightarrow> topsize s \<le> nb \<Longrightarrow> alloc_dv_or_top nb s = ret None s"
proof -
  assume "dvsize s < nb" "topsize s \<le> nb"
  then have "\<not> nb \<le> dvsize s" "\<not> nb < topsize s" by auto
  then show ?thesis by (simp add: alloc_dv_or_top_def)
qed

lemma small_large_request:
  "MAX_SMALL_REQUEST < bytes \<Longrightarrow> bytes < MAX_REQUEST \<Longrightarrow> request2size bytes = pad_request bytes"
  "MAX_REQUEST \<le> bytes \<Longrightarrow> MAX_SMALL_REQUEST < bytes"
  "MAX_SMALL_REQUEST = 232"
  by (simp_all add: request2size_def size_consts MAX_SMALL_REQUEST_def MAX_SMALL_SIZE_def
      MIN_LARGE_SIZE_def TREEBIN_SHIFT_def word_le_nat_alt word_less_nat_alt)

text \<open>
  When no bin, \<open>dv\<close> nor \<open>top\<close> can serve a request, \<open>Alloc\<close> does not fail: \<open>InitOrExpand\<close> adds
  nothing to an initialised state, so \<open>Alloc\<close> calls itself on the same state forever.
\<close>

lemma exhausted_alloc_never_returns:
  assumes "is_initialized (gm u)" and "smallmap (gm u) = 0" and "treemap (gm u) = 0"
    and "bytes < MAX_REQUEST"
    and "dvsize (gm u) < request2size bytes" and "topsize (gm u) \<le> request2size bytes"
  shows "uni_alloc ops bytes u = None"
proof (rule uni_alloc_loops)
  have none: "alloc_dv_or_top (request2size bytes) (gm u) = ret None (gm u)"
    using assms by (intro alloc_dv_or_top_None)
  show "alloc_once bytes (gm u) = ret None (gm u)"
  proof (cases "bytes \<le> MAX_SMALL_REQUEST")
    case True
    then show ?thesis
      using none assms(2,3) by (simp add: alloc_once_def request2size_def [symmetric] Let_def)
  next
    case False
    moreover have "\<not> MAX_REQUEST \<le> bytes" using assms(4) by simp
    ultimately show ?thesis
      using none assms(3,4) small_large_request(1) [of bytes] by (simp add: alloc_once_def Let_def)
  qed
qed (rule assms)

lemma uni_alloc_oversized:
  assumes "is_initialized (gm u)" and "MAX_REQUEST \<le> bytes" and "dvsize (gm u) < MAX_SIZE_T"
  shows "uni_alloc ops bytes u = None"
proof (rule uni_alloc_loops)
  have "alloc_dv_or_top MAX_SIZE_T (gm u) = ret None (gm u)"
    using assms(3) by (intro alloc_dv_or_top_None) (simp_all add: MAX_SIZE_T_def)
  moreover have "\<not> bytes \<le> MAX_SMALL_REQUEST"
    using small_large_request(2) [OF assms(2)] by simp
  ultimately show "alloc_once bytes (gm u) = ret None (gm u)"
    using assms(2) by (simp add: alloc_once_def)
qed (rule assms)

text \<open>
  A request of \<open>MAX_REQUEST\<close> bytes or more is meant to fail ("Too big to allocate. Force
  failure"); on an initialised state it never returns either.
\<close>

lemma oversized_alloc_never_returns:
  assumes "is_initialized (gm u)" and "MAX_REQUEST \<le> bytes" and "dvsize (gm u) < MAX_SIZE_T"
  shows "uni_alloc ops bytes u = None"
  by (rule uni_alloc_oversized [OF assms])

section \<open>Free without effect\<close>

text \<open>
  \<open>Free\<close> ignores a null pointer, a pointer below \<open>least_addr\<close> and a chunk that is not in use (a
  repeated \<open>Free\<close> of a chunk that is still marked free): nothing is written and nothing raised.
\<close>

lemma free_ignores_invalid:
  assumes "m = 0 \<or> \<not> ok_address (gm u) (mem2chunk m) \<or> \<not> is_inuse (mem (gm u)) (mem2chunk m)"
  shows "uni_free m u = ret () u"
proof -
  have "gm_free m (gm u) = ret () (gm u)"
    using assms by (auto simp: gm_free_def Let_def)
  then show ?thesis by (simp add: uni_free_def ret_def)
qed

section \<open>Examples\<close>

text \<open>An allocator whose underlying \<open>Alloc\<close> hands out the region at 4 MiB; its state counts the calls.\<close>

definition ex_ops :: "nat allocator_ops" where
  "ex_ops = \<lparr>al_alloc = (\<lambda>b sz. (4194304, Suc b)), al_free = (\<lambda>b p. b)\<rparr>"

definition ex_uni :: "mstate \<Rightarrow> nat uni" where
  "ex_uni s = uni_new s 0 1048576 \<lparr>dev_type = CPU, dev_idx = 0\<rparr>"

theorem init_writes_past_segment_witness:
  "\<exists>u'. init_or_expand ex_ops (ex_uni (zero_mstate 1048576 (\<lambda>_. 0))) = ret () u' \<and>
    mem (gm u') (4194304 + 1048576) = 8"
  using init_writes_past_segment [of "ex_uni (zero_mstate 1048576 (\<lambda>_. 0))" ex_ops 4194304 1]
  by (simp add: ex_uni_def uni_new_def ex_ops_def is_initialized_def zero_mstate_def size_consts)

end
