(* ===== verification/Uni_Invariant.thy ===== *)
theory Uni_Invariant
  imports Uni_Heap Bin_Store Uni_Allocator
begin

text \<open>
  The invariant of \<open>UniAllocator\<close>: the segment is tiled by chunks (\<open>hrep\<close>), and its free chunks are
  the chunks in the bins (\<open>store\<close>), the designated victim \<open>dv\<close>, and, between two steps of an
  operation, the loose chunks \<open>X\<close>. Then each step of \<open>Alloc\<close> and \<open>Free\<close> on it.
\<close>

unbundle bit_operations_syntax

section \<open>The invariant\<close>

definition fchunks :: "uchunk list \<Rightarrow> (addr \<times> u64) set" where
  "fchunks cs = {x. (fst x, False, snd x) \<in> set cs}"

definition uchunks :: "uchunk list \<Rightarrow> (addr \<times> u64) set" where
  "uchunks cs = {x. (fst x, True, snd x) \<in> set cs}"

definition dvset :: "mstate \<Rightarrow> (addr \<times> u64) set" where
  "dvset s = (if dvsize s = 0 then {} else {(dv s, dvsize s)})"

definition parts :: "mstate \<Rightarrow> uchunk list \<Rightarrow> (addr \<times> u64) set \<Rightarrow> (addr \<times> u64) set \<Rightarrow> bool" where
  "parts s cs F X \<longleftrightarrow> fchunks cs = F \<union> dvset s \<union> X \<and> F \<inter> dvset s = {} \<and> F \<inter> X = {} \<and> dvset s \<inter> X = {} \<and>
     (dvsize s = 0 \<longrightarrow> dv s = 0)"

text \<open>The object of the allocator lies outside the segment.\<close>

definition away :: "mstate \<Rightarrow> addr \<Rightarrow> nat \<Rightarrow> bool" where
  "away s base e \<longleftrightarrow> e + 16 \<le> unat (gm_addr s) + 72 \<or> unat (gm_addr s) + 616 \<le> unat base"

definition linv :: "mstate \<Rightarrow> addr \<Rightarrow> nat \<Rightarrow> uchunk list \<Rightarrow> (addr \<times> u64) set \<Rightarrow> (addr \<times> u64) set \<Rightarrow> bool" where
  "linv s base e cs F X \<longleftrightarrow> hrep (mem s) base cs (top_chunk s) (topsize s) \<and> store s F \<and> least_addr s \<le> base \<and>
     away s base e \<and> e = unat (top_chunk s) + unat (topsize s) \<and> parts s cs F X"

definition uinv :: "mstate \<Rightarrow> addr \<Rightarrow> nat \<Rightarrow> uchunk list \<Rightarrow> bool" where
  "uinv s base e cs \<longleftrightarrow> (\<exists>F. linv s base e cs F {})"

lemma fchunks_simps [simp]:
  "fchunks [] = {}" "fchunks (xs @ ys) = fchunks xs \<union> fchunks ys"
  "fchunks ((a, u, n) # cs) = (if u then fchunks cs else insert (a, n) (fchunks cs))"
  by (auto simp: fchunks_def)

lemma uchunks_simps [simp]:
  "uchunks [] = {}" "uchunks (xs @ ys) = uchunks xs \<union> uchunks ys"
  "uchunks ((a, u, n) # cs) = (if u then insert (a, n) (uchunks cs) else uchunks cs)"
  by (auto simp: uchunks_def)

lemma linvD:
  assumes "linv s base e cs F X"
  shows "hrep (mem s) base cs (top_chunk s) (topsize s)" "store s F" "least_addr s \<le> base"
    "away s base (unat (top_chunk s) + unat (topsize s))" "parts s cs F X"
    "e = unat (top_chunk s) + unat (topsize s)"
  using assms by (auto simp: linv_def)

lemma storeD_regular: "store s F \<Longrightarrow> regular s F"
  by (auto elim: storeE)

text \<open>Chunks of the segment can be binned.\<close>

lemma hrep_disjoint:
  assumes rep: "hrep h base cs tp tsz" and x: "(a, u, n) \<in> set cs" "(b, v, m) \<in> set cs" "(a, n) \<noteq> (b, m)"
  shows "unat a + unat n \<le> unat b \<or> unat b + unat m \<le> unat a"
proof -
  have t: "tiled base cs tp" using rep by (simp add: hrep_def)
  obtain xs ys where cs: "cs = xs @ (a, u, n) # ys" using x(1) by (meson split_list)
  have "(b, v, m) \<in> set xs \<union> set ys" using x(2,3) cs by auto
  then show ?thesis using tiled_apart [of base xs a u n ys tp b v m] t cs by auto
qed

lemma hrep_regular:
  assumes rep: "hrep h base cs tp tsz" and aw: "away s base (unat tp + unat tsz)" and l: "least_addr s \<le> base"
    and r: "least_addr s \<noteq> 0" "unat (gm_addr s) + 616 < 18446744073709551616"
    and G: "\<And>a n. (a, n) \<in> G \<Longrightarrow> \<exists>u. (a, u, n) \<in> set cs"
  shows "regular s G"
  unfolding regular_def
proof (intro conjI ballI)
  show "least_addr s \<noteq> 0" "unat (gm_addr s) + 616 < 2 ^ 64" using r by simp_all
  fix x assume x: "x \<in> G"
  obtain u where u: "(fst x, u, snd x) \<in> set cs" using G [of "fst x" "snd x"] x by auto
  note wf = hrep_wf [OF rep u]
  have "unat tp + unat tsz + 16 < 18446744073709551616" using rep by (simp add: hrep_def)
  then show "bin_chunk s x"
    using wf l aw by (auto simp: bin_chunk_def away_def word_le_nat_alt)
  show "x = y \<or> \<not> overlap x y" if y: "y \<in> G" for y
  proof -
    obtain v where v: "(fst y, v, snd y) \<in> set cs" using G [of "fst y" "snd y"] y by auto
    show ?thesis
    proof (cases "x = y")
      case False
      then have "(fst x, snd x) \<noteq> (fst y, snd y)" by simp
      from hrep_disjoint [OF rep u v this] show ?thesis by (auto simp: overlap_def)
    qed simp
  qed
qed

lemma linv_regular:
  assumes "linv s base e cs F X" "\<And>a n. (a, n) \<in> G \<Longrightarrow> \<exists>u. (a, u, n) \<in> set cs"
  shows "regular s G"
  using hrep_regular [OF linvD(1) [OF assms(1)] linvD(4,3) [OF assms(1)] _ _ assms(2)]
    regularD(1,2) [OF storeD_regular [OF linvD(2) [OF assms(1)]]] by blast

lemma hrep_chunksize:
  assumes "hrep h base cs tp tsz" "(a, u, n) \<in> set cs"
  shows "chunksize h a = n"
proof -
  obtain xs ys where cs: "cs = xs @ (a, u, n) # ys" using assms(2) by (meson split_list)
  have "head h a = head_word (last_use True xs) u n" using hrep_head(1) assms(1) cs by blast
  then show ?thesis using hrep_wf(5) [OF assms] by (simp add: chunksize_def head_word_simps)
qed

lemma linv_sized: "linv s base e cs F X \<Longrightarrow> sized (mem s) F"
  using hrep_chunksize [OF linvD(1)] linvD(5) [of s base e cs F X]
  unfolding sized_def parts_def fchunks_def by (fastforce simp del: fchunks_simps)

section \<open>Frames\<close>

text \<open>Between its start and the end of the next head, a chunk that is not in a bin meets no cell of the bins.\<close>

lemma fchunksD: "x \<in> fchunks cs \<Longrightarrow> (fst x, False, snd x) \<in> set cs"
  by (simp add: fchunks_def)

lemma outside_bins:
  assumes rep: "hrep h base cs tp tsz" and aw: "away s base (unat tp + unat tsz)" and F: "F \<subseteq> fchunks cs"
    and a: "(a, u, n) \<in> set cs" "(a, n) \<notin> F" and c: "unat a \<le> unat c" "unat c < unat a + unat n + 16"
  shows "c \<notin> bin_cells s F"
proof -
  have t: "tiled base cs tp" "unat tp + unat tsz + 16 < 18446744073709551616" using rep by (simp_all add: hrep_def)
  note wf = hrep_wf [OF rep a(1)]
  have "c \<notin> body x" if x: "x \<in> F" for x
  proof -
    have x': "(fst x, False, snd x) \<in> set cs" using F x fchunksD by blast
    have "(a, n) \<noteq> (fst x, snd x)" using a(2) x by auto
    then have "unat a + unat n \<le> unat (fst x) \<or> unat (fst x) + unat (snd x) \<le> unat a"
      by (rule hrep_disjoint [OF rep a(1) x'])
    then show ?thesis using c by (auto simp: body_def)
  qed
  moreover have "c \<notin> gm_cells s"
    using wf(6,7) c aw by (auto simp: gm_cells_def away_def)
  ultimately show ?thesis by (simp add: bin_cells_def)
qed

lemma outside_bins_top:
  assumes rep: "hrep h base cs tp tsz" and aw: "away s base (unat tp + unat tsz)" and F: "F \<subseteq> fchunks cs"
    and c: "unat tp \<le> unat c" "unat c < unat tp + unat tsz + 16"
  shows "c \<notin> bin_cells s F"
proof -
  have "c \<notin> body x" if "x \<in> F" for x
    using hrep_wf(7) [OF rep fchunksD] F that c by (fastforce simp: body_def)
  moreover have "unat base \<le> unat tp" using rep tiled_le by (auto simp: hrep_def)
  then have "c \<notin> gm_cells s" using c aw by (auto simp: gm_cells_def away_def)
  ultimately show ?thesis by (simp add: bin_cells_def)
qed

text \<open>Conversely the operations on the bins keep the heads and feet.\<close>

lemma hrep_bins:
  assumes rep: "hrep h base cs tp tsz" and aw: "away s base (unat tp + unat tsz)" and F: "F \<subseteq> fchunks cs"
    and h': "\<And>c. c \<notin> bin_cells s F \<Longrightarrow> h' c = h c"
  shows "hrep h' base cs tp tsz"
proof -
  have r: "unat tp + unat tsz + 16 < 18446744073709551616" "heads h True cs" using rep by (simp_all add: hrep_def)
  have own: "(x, n) \<in> F \<Longrightarrow> unat c < unat x + 16 \<or> unat x + unat n \<le> unat c \<Longrightarrow> unat x \<le> unat c \<Longrightarrow> unat c < unat x + unat n + 16 \<Longrightarrow>
      (x, False, n) \<in> set cs \<Longrightarrow> c \<notin> bin_cells s F" for x n c
  proof -
    assume a: "(x, n) \<in> F" "unat c < unat x + 16 \<or> unat x + unat n \<le> unat c" "unat x \<le> unat c"
      "unat c < unat x + unat n + 16" "(x, False, n) \<in> set cs"
    have "c \<notin> bin_cells s (F - {(x, n)})"
      by (rule outside_bins [OF rep aw _ a(5) _ a(3,4)]) (use F in auto)
    then show "c \<notin> bin_cells s F" using a(2) by (auto simp: bin_cells_def body_def)
  qed
  have keep: "h' (x + 8) = h (x + 8) \<and> h' (x + n) = h (x + n)" if x: "(x, u, n) \<in> set cs" for x u n
  proof -
    note wf = hrep_wf [OF rep x]
    have e: "unat (x + 8) = unat x + 8" using wf(4,7) r(1) by (subst unat_add_8) simp_all
    have "x + 8 \<notin> bin_cells s F \<and> x + n \<notin> bin_cells s F"
    proof (cases "(x, n) \<in> F")
      case True
      then have "(x, False, n) \<in> set cs" using F by (auto simp: fchunks_def)
      then show ?thesis using own [OF True] e wf(4,8) by simp
    next
      case False
      show ?thesis
        using outside_bins [OF rep aw F x False, of "x + 8"] outside_bins [OF rep aw F x False, of "x + n"] e wf(4,8) by simp
    qed
    then show ?thesis using h' by simp
  qed
  have "heads h' True cs" by (rule heads_frame [OF r(2)]) (rule keep)
  moreover have "tp + 8 \<notin> bin_cells s F"
  proof (rule outside_bins_top [OF rep aw F])
    have "unat (tp + 8) = unat tp + 8" using r(1) by (subst unat_add_8) simp_all
    then show "unat tp \<le> unat (tp + 8)" "unat (tp + 8) < unat tp + unat tsz + 16" by simp_all
  qed
  then have "head h' tp = head h tp" by (simp add: head_def h')
  ultimately show ?thesis using rep by (simp add: hrep_def)
qed

text \<open>An operation on the bins that takes the chunks \<open>F\<close> to \<open>F'\<close>.\<close>

lemma linv_bins_step:
  assumes l: "linv s base e cs F X" and b: "bins_step (bin_cells s E) s s'" and st: "store s' F'"
    and E: "E \<subseteq> fchunks cs" and parts: "parts s' cs F' X'"
  shows "linv s' base e cs F' X'"
proof -
  note same = bins_step_same [OF b]
  have "hrep (mem s') base cs (top_chunk s') (topsize s')"
    unfolding same(5,6) by (rule hrep_bins [OF linvD(1,4) [OF l] E same(13)])
  then show ?thesis
    using st parts linvD(3,4,6) [OF l] same by (simp add: linv_def away_def)
qed

text \<open>A step that rewrites heads and feet.\<close>

lemma linv_meta_step:
  assumes st: "store s F" and same: "gm_addr s' = gm_addr s" "least_addr s' = least_addr s" "smallmap s' = smallmap s"
      "treemap s' = treemap s" "treebins s' = treebins s"
    and cells: "\<And>c. mem s' c \<noteq> mem s c \<Longrightarrow> c \<notin> bin_cells s F"
    and rep: "hrep (mem s') base cs' (top_chunk s') (topsize s')" and l: "least_addr s \<le> base"
    and aw: "away s base e" "e = unat (top_chunk s') + unat (topsize s')" and parts: "parts s' cs' F X'"
  shows "linv s' base e cs' F X'"
proof -
  have "store s' F" by (rule store_cong [OF st same]) (use cells in blast)
  then show ?thesis using rep l aw parts same(1,2) by (simp add: linv_def away_def)
qed


unbundle bit_operations_syntax

section \<open>Steps of \<open>Alloc\<close>\<close>

lemma hrep_other:
  assumes rep: "hrep h base (xs @ (a, u, n) # ys) tp tsz"
  shows "(a, v, m) \<notin> set xs \<union> set ys" "(a, m) \<notin> fchunks xs \<union> fchunks ys" "(a, m) \<notin> uchunks xs \<union> uchunks ys"
proof -
  have t: "tiled base (xs @ (a, u, n) # ys) tp" using rep by (simp add: hrep_def)
  have *: "(a, v, m) \<notin> set xs \<union> set ys" for v m
  proof
    assume x: "(a, v, m) \<in> set xs \<union> set ys"
    then have "32 \<le> unat m" using tiled_bounds [OF t, of a v m] by auto
    then show False using tiled_apart [OF t x] tiled_mid(3) [OF t] by simp
  qed
  then show "(a, v, m) \<notin> set xs \<union> set ys" .
  show "(a, m) \<notin> fchunks xs \<union> fchunks ys" "(a, m) \<notin> uchunks xs \<union> uchunks ys"
    using * [of False m] * [of True m] by (auto simp: fchunks_def uchunks_def)
qed

lemma parts_replace:
  assumes "parts s cs F X" "fchunks cs = insert x R" "x \<notin> R" "x \<in> X" "fchunks cs' = R \<union> N" "N \<inter> R = {}"
    and "dv s' = dv s" "dvsize s' = dvsize s"
  shows "parts s' cs' F (X - {x} \<union> N)"
proof -
  have d: "dvset s' = dvset s" using assms(7,8) by (simp add: dvset_def)
  have p: "fchunks cs = F \<union> dvset s \<union> X" "F \<inter> dvset s = {}" "F \<inter> X = {}" "dvset s \<inter> X = {}" "dvsize s = 0 \<longrightarrow> dv s = 0"
    using assms(1) by (simp_all add: parts_def)
  have "R = insert x R - {x}" using assms(3) by simp
  also have "insert x R = F \<union> dvset s \<union> X" using p(1) assms(2) by simp
  also have "F \<union> dvset s \<union> X - {x} = F \<union> dvset s \<union> (X - {x})" using p(3,4) assms(4) by auto
  finally have R: "R = F \<union> dvset s \<union> (X - {x})" .
  have "N \<inter> F = {}" "N \<inter> dvset s = {}" using assms(6) R by auto
  then show ?thesis
    unfolding parts_def d assms(5,7,8) using p(2-5) R by auto
qed

lemma linv_takes:
  assumes l: "linv s base e cs F X" and x: "(a, n) \<in> F" and b: "bins_step (bin_cells s F) s s1" and st: "store s1 (F - {(a, n)})"
  shows "linv s1 base e cs (F - {(a, n)}) (insert (a, n) X)"
proof (rule linv_bins_step [OF l b st])
  have p: "parts s cs F X" by (rule linvD(5) [OF l])
  then show "F \<subseteq> fchunks cs" by (auto simp: parts_def)
  show "parts s1 cs (F - {(a, n)}) (insert (a, n) X)"
    using p x bins_step_same(3,4) [OF b] by (auto simp: parts_def dvset_def)
qed

text \<open>A loose chunk is given to the client.\<close>

lemma linv_use:
  assumes l: "linv s base e (xs @ (a, False, n) # ys) F X" and x: "(a, n) \<in> X"
  shows "linv (set_inuse_and_pinuse a n s) base e (xs @ (a, True, n) # ys) F (X - {(a, n)})" (is "linv ?s _ _ _ _ _")
proof -
  note D = linvD [OF l]
  have F: "F \<subseteq> fchunks (xs @ (a, False, n) # ys)" "(a, n) \<notin> F" using D(5) x by (auto simp: parts_def)
  have in_cs: "(a, False, n) \<in> set (xs @ (a, False, n) # ys)" by simp
  note m = hrep_mid [OF D(1)]
  have mem: "mem ?s = set_head (set_head (mem s) a (n OR PINUSE_BIT OR CINUSE_BIT)) (a + n) (head (mem s) (a + n) OR PINUSE_BIT)"
    using m(4) by (auto simp: set_inuse_and_pinuse_def Let_def)
  have same: "gm_addr ?s = gm_addr s" "least_addr ?s = least_addr s" "smallmap ?s = smallmap s" "treemap ?s = treemap s"
    "treebins ?s = treebins s" "top_chunk ?s = top_chunk s" "topsize ?s = topsize s" "dv ?s = dv s" "dvsize ?s = dvsize s"
    by (simp_all add: set_inuse_and_pinuse_def Let_def upd_mem_def)
  show ?thesis
  proof (rule linv_meta_step [OF D(2) same(1-5)])
    show "c \<notin> bin_cells s F" if "mem ?s c \<noteq> mem s c" for c
    proof (rule outside_bins [OF D(1,4) F(1) in_cs F(2)])
      have "c = a + 8 \<or> c = a + n + 8" using that by (auto simp: mem set_head_def split: if_splits)
      then show "unat a \<le> unat c" "unat c < unat a + unat n + 16" using m(9,10) by auto
    qed
    show "hrep (mem ?s) base (xs @ (a, True, n) # ys) (top_chunk ?s) (topsize ?s)"
      unfolding mem same by (rule hrep_take [OF D(1)])
    have "parts ?s (xs @ (a, True, n) # ys) F (X - {(a, n)} \<union> {})"
      by (rule parts_replace [OF D(5) _ hrep_other(2) [OF D(1)] x]) (use same in simp_all)
    then show "parts ?s (xs @ (a, True, n) # ys) F (X - {(a, n)})" by simp
  qed (use D same in simp_all)
qed

text \<open>A loose chunk is cut: its first \<open>k\<close> bytes are given to the client, the rest is loose.\<close>

definition cut_chunk :: "addr \<Rightarrow> u64 \<Rightarrow> u64 \<Rightarrow> heap \<Rightarrow> heap" where
  "cut_chunk a k r h = set_size_and_pinuse_of_free_chunk (set_size_and_pinuse_of_inuse_chunk h a k) (a + k) r"

lemma cut_chunk_writes:
  assumes rep: "hrep h base (xs @ (a, False, n) # ys) tp tsz" and k: "32 \<le> unat k" "unat k + 32 \<le> unat n"
    and c: "cut_chunk a k (n - k) h c \<noteq> h c"
  shows "unat a \<le> unat c" "unat c < unat a + unat n + 16"
proof -
  note m = hrep_mid [OF rep]
  have "unat (a + k) = unat a + unat k" using k m(7,8) by (intro unat_add_noov) simp
  then have "unat (a + k + 8) = unat a + unat k + 8" using k m(7,8) by (subst unat_add_8) simp_all
  moreover have "c = a + 8 \<or> c = a + k + 8 \<or> c = a + n"
    using c by (auto simp: cut_chunk_def set_head_def set_foot_def set_prev_foot_def
        set_size_and_pinuse_of_free_chunk_def set_size_and_pinuse_of_inuse_chunk_def split: if_splits)
  ultimately show "unat a \<le> unat c" "unat c < unat a + unat n + 16" using m(6,9) k by auto
qed

lemma parts_cut:
  assumes p: "parts s (xs @ (a, False, n) # ys) F X" and x: "(a, n) \<in> X"
    and rep: "hrep h base (xs @ (a, False, n) # ys) tp tsz"
    and rep': "hrep h' base (xs @ (a, True, k) # (a + k, False, n - k) # ys) tp tsz"
    and same: "dv s' = dv s" "dvsize s' = dvsize s"
  shows "parts s' (xs @ (a, True, k) # (a + k, False, n - k) # ys) F (X - {(a, n)} \<union> {(a + k, n - k)})"
proof (rule parts_replace [OF p _ hrep_other(2) [OF rep] x _ _ same])
  have "hrep h' base ((xs @ [(a, True, k)]) @ (a + k, False, n - k) # ys) tp tsz" using rep' by simp
  from hrep_other(2) [OF this] show "{(a + k, n - k)} \<inter> (fchunks xs \<union> fchunks ys) = {}" by simp
qed simp_all

lemma linv_cut:
  assumes l: "linv s base e (xs @ (a, False, n) # ys) F X" and x: "(a, n) \<in> X"
    and k: "16 dvd unat k" "32 \<le> unat k" "unat k + 32 \<le> unat n"
  shows "linv (upd_mem (cut_chunk a k (n - k)) s) base e (xs @ (a, True, k) # (a + k, False, n - k) # ys) F
    (X - {(a, n)} \<union> {(a + k, n - k)})" (is "linv ?s _ _ ?cs _ _")
proof -
  note D = linvD [OF l]
  have F: "F \<subseteq> fchunks (xs @ (a, False, n) # ys)" "(a, n) \<notin> F" using D(5) x by (auto simp: parts_def)
  have in_cs: "(a, False, n) \<in> set (xs @ (a, False, n) # ys)" by simp
  have rep: "hrep (cut_chunk a k (n - k) (mem s)) base ?cs (top_chunk s) (topsize s)"
    unfolding cut_chunk_def by (rule hrep_cut [OF D(1) k])
  show ?thesis
  proof (rule linv_meta_step [OF D(2)])
    show "c \<notin> bin_cells s F" if "mem ?s c \<noteq> mem s c" for c
      using outside_bins [OF D(1,4) F(1) in_cs F(2)] cut_chunk_writes [OF D(1) k(2,3)] that by simp
    show "parts ?s ?cs F (X - {(a, n)} \<union> {(a + k, n - k)})"
      by (rule parts_cut [OF D(5) x D(1) rep]) (simp_all add: upd_mem_def)
  qed (use D rep in \<open>simp_all add: upd_mem_def\<close>)
qed


unbundle bit_operations_syntax

text \<open>A loose chunk is put into its bin; only a second size in a tree bin throws.\<close>

lemma linv_insert:
  assumes l: "linv s base e cs F X" and x: "(r, m) \<in> X"
  shows "if clash m F then \<exists>s1. insert_chunk r m s = throw Memory_Corrupted s1
    else \<exists>s'. insert_chunk r m s = ret () s' \<and> linv s' base e cs (insert (r, m) F) (X - {(r, m)}) \<and>
      dv s' = dv s \<and> dvsize s' = dvsize s"
proof -
  note D = linvD [OF l]
  have p: "fchunks cs = F \<union> dvset s \<union> X" "F \<inter> dvset s = {}" "F \<inter> X = {}" "dvset s \<inter> X = {}" "dvsize s = 0 \<longrightarrow> dv s = 0"
    using D(5) by (simp_all add: parts_def)
  have new: "(r, m) \<notin> F" "(r, m) \<notin> dvset s" using p(3,4) x by auto
  have sub: "insert (r, m) F \<subseteq> fchunks cs" using p(1) x by auto
  have reg: "regular s (insert (r, m) F)"
  proof (rule linv_regular [OF l])
    fix a n assume "(a, n) \<in> insert (r, m) F"
    then show "\<exists>u. (a, u, n) \<in> set cs" using sub fchunksD [of "(a, n)" cs] by auto
  qed
  note ins = store_insert [OF D(2) reg new(1) linv_sized [OF l]]
  show ?thesis
  proof (cases "clash m F")
    case True
    then show ?thesis using ins by simp
  next
    case False
    then obtain s' where s': "insert_chunk r m s = ret () s'" "store s' (insert (r, m) F)"
      "bins_step (bin_cells s (insert (r, m) F)) s s'" using ins by auto
    note same = bins_step_same [OF s'(3)]
    have "parts s' cs (insert (r, m) F) (X - {(r, m)})"
      unfolding parts_def dvset_def same(3,4) using p new x by (auto simp: dvset_def)
    then have "linv s' base e cs (insert (r, m) F) (X - {(r, m)})"
      by (rule linv_bins_step [OF l s'(3,2) sub])
    then show ?thesis using False s'(1) same(3,4) by simp
  qed
qed

text \<open>The designated victim changes.\<close>

lemma linv_set_dv:
  assumes l: "linv s base e cs F X" and x: "(r, m) \<in> X" "m \<noteq> 0"
  shows "linv (s\<lparr>dvsize := m, dv := r\<rparr>) base e cs F (X - {(r, m)} \<union> dvset s)"
proof -
  note D = linvD [OF l]
  have p: "fchunks cs = F \<union> dvset s \<union> X" "F \<inter> dvset s = {}" "F \<inter> X = {}" "dvset s \<inter> X = {}"
    using D(5) by (simp_all add: parts_def)
  show ?thesis
  proof (rule linv_meta_step [OF D(2)])
    show "parts (s\<lparr>dvsize := m, dv := r\<rparr>) cs F (X - {(r, m)} \<union> dvset s)"
      using p x by (auto simp: parts_def dvset_def)
  qed (use D in simp_all)
qed

lemma linv_clear_dv:
  assumes l: "linv s base e cs F X" and dv: "dvsize s \<noteq> 0"
  shows "linv (s\<lparr>dvsize := 0, dv := 0\<rparr>) base e cs F (insert (dv s, dvsize s) X)"
proof -
  note D = linvD [OF l]
  show ?thesis
  proof (rule linv_meta_step [OF D(2)])
    show "parts (s\<lparr>dvsize := 0, dv := 0\<rparr>) cs F (insert (dv s, dvsize s) X)"
      using D(5) dv by (auto simp: parts_def dvset_def)
  qed (use D in simp_all)
qed

lemma insert_chunk_set_dv:
  assumes "is_small S"
  shows "insert_chunk P S (s\<lparr>dvsize := m, dv := r\<rparr>) =
    (case insert_chunk P S s of Some (Normal u s') \<Rightarrow> ret u (s'\<lparr>dvsize := m, dv := r\<rparr>)
      | Some (Fault e s') \<Rightarrow> throw e (s'\<lparr>dvsize := m, dv := r\<rparr>) | None \<Rightarrow> None)"
  using assms by (simp add: insert_chunk_def insert_small_chunk_def Let_def smallbin_at_def smallmap_is_marked_def
      mark_smallmap_def ok_address_def upd_mem_def cbind_def ret_def throw_def)

text \<open>\<open>replace_dv\<close>: the old victim goes to a small bin.\<close>

lemma linv_replace_dv:
  assumes l: "linv s base e cs F X" and x: "(r, m) \<in> X" "m \<noteq> 0" and small: "is_small (dvsize s)"
  shows "\<exists>s' F'. replace_dv r m s = ret () s' \<and> linv s' base e cs F' (X - {(r, m)}) \<and> dv s' = r \<and> dvsize s' = m"
proof (cases "dvsize s = 0")
  case True
  then have "replace_dv r m s = ret () (s\<lparr>dvsize := m, dv := r\<rparr>)" using small by (simp add: replace_dv_def Let_def)
  moreover have "dvset s = {}" using True by (simp add: dvset_def)
  ultimately show ?thesis using linv_set_dv [OF l x] by (intro exI [of _ "s\<lparr>dvsize := m, dv := r\<rparr>"] exI [of _ F]) simp
next
  case False
  note D = linvD [OF l]
  have dvX: "(dv s, dvsize s) \<notin> X" "(dv s, dvsize s) \<noteq> (r, m)" "(dv s, dvsize s) \<notin> F"
    using D(5) False x by (auto simp: parts_def dvset_def)
  have "\<not> clash (dvsize s) F" using small by (simp add: clash_def is_small_iff)
  then obtain t where t: "insert_chunk (dv s) (dvsize s) (s\<lparr>dvsize := m, dv := r\<rparr>) = ret () t"
    "linv t base e cs (insert (dv s, dvsize s) F) (X - {(r, m)} \<union> dvset s - {(dv s, dvsize s)})"
    "dv t = r" "dvsize t = m"
    using linv_insert [OF linv_set_dv [OF l x], of "dv s" "dvsize s"] False by (auto simp: dvset_def)
  obtain u where u: "insert_chunk (dv s) (dvsize s) s = ret () u" "t = u\<lparr>dvsize := m, dv := r\<rparr>"
    using t(1) small by (auto simp: insert_chunk_set_dv ret_def throw_def split: option.splits outcome.splits)
  have "replace_dv r m s = ret () t"
    using small False u by (simp add: replace_dv_def Let_def insert_chunk_def)
  moreover have "X - {(r, m)} \<union> dvset s - {(dv s, dvsize s)} = X - {(r, m)}" using False dvX by (auto simp: dvset_def)
  ultimately show ?thesis using t by (intro exI [of _ t] exI [of _ "insert (dv s, dvsize s) F"]) simp
qed


unbundle bit_operations_syntax

text \<open>Cutting the designated victim, in the order of the code: first the rest, then the client's chunk.\<close>

lemma cut_chunk_dv:
  assumes rep: "hrep h base (xs @ (a, False, n) # ys) tp tsz" and k: "16 dvd unat k" "32 \<le> unat k" "unat k + 32 \<le> unat n"
  shows "set_size_and_pinuse_of_inuse_chunk (set_size_and_pinuse_of_free_chunk h (a + k) (n - k)) a k = cut_chunk a k (n - k) h"
proof -
  note m = hrep_mid [OF rep]
  have "unat (a + k) = unat a + unat k" using k m(7,8) by (intro unat_add_noov) simp
  then have "unat (a + k + 8) = unat a + unat k + 8" using k m(7,8) by (subst unat_add_8) simp_all
  then have "a + k + 8 \<noteq> a + 8" "a + n \<noteq> a + 8" using m(4,6,9) k by auto
  moreover have "a + k + (n - k) = a + n" by simp
  ultimately show ?thesis
    by (auto simp: cut_chunk_def set_head_def set_foot_def set_prev_foot_def fun_eq_iff
        set_size_and_pinuse_of_free_chunk_def set_size_and_pinuse_of_inuse_chunk_def)
qed

lemma linv_cut_dv:
  assumes l: "linv s base e (xs @ (a, False, n) # ys) F {}" and x: "dv s = a" "dvsize s = n" "n \<noteq> 0"
    and k: "16 dvd unat k" "32 \<le> unat k" "unat k + 32 \<le> unat n"
  shows "linv (upd_mem (cut_chunk a k (n - k)) (s\<lparr>dvsize := n - k, dv := a + k\<rparr>)) base e
    (xs @ (a, True, k) # (a + k, False, n - k) # ys) F {}"
proof -
  have "linv (s\<lparr>dvsize := 0, dv := 0\<rparr>) base e (xs @ (a, False, n) # ys) F {(a, n)}"
    using linv_clear_dv [OF l] x by simp
  note c = linv_cut [OF this _ k]
  have "n - k \<noteq> 0" using k by auto
  with linv_set_dv [OF c, of "a + k" "n - k"]
  have "linv ((upd_mem (cut_chunk a k (n - k)) (s\<lparr>dvsize := 0, dv := 0\<rparr>))\<lparr>dvsize := n - k, dv := a + k\<rparr>) base e
    (xs @ (a, True, k) # (a + k, False, n - k) # ys) F {}" by (simp add: dvset_def upd_mem_def)
  moreover have "(upd_mem (cut_chunk a k (n - k)) (s\<lparr>dvsize := 0, dv := 0\<rparr>))\<lparr>dvsize := n - k, dv := a + k\<rparr> =
      upd_mem (cut_chunk a k (n - k)) (s\<lparr>dvsize := n - k, dv := a + k\<rparr>)" by (cases s) (simp add: upd_mem_def)
  ultimately show ?thesis by simp
qed

text \<open>A chunk is cut off the top.\<close>

lemma linv_cut_top:
  assumes l: "linv s base e cs F {}" and k: "16 dvd unat k" "32 \<le> unat k" "k < topsize s" and s': "mem s' =
      set_head (set_head (mem s) (top_chunk s + k) ((topsize s - k) OR PINUSE_BIT)) (top_chunk s) (k OR PINUSE_BIT OR CINUSE_BIT)"
    and same: "gm_addr s' = gm_addr s" "least_addr s' = least_addr s" "smallmap s' = smallmap s" "treemap s' = treemap s"
      "treebins s' = treebins s" "dv s' = dv s" "dvsize s' = dvsize s"
    and top: "top_chunk s' = top_chunk s + k" "topsize s' = topsize s - k"
  shows "linv s' base e (cs @ [(top_chunk s, True, k)]) F {}"
proof -
  note D = linvD [OF l]
  have F: "F \<subseteq> fchunks cs" using D(5) by (auto simp: parts_def)
  have b: "unat (top_chunk s) + unat (topsize s) + 16 < 18446744073709551616" using D(1) by (simp add: hrep_def)
  have k': "unat k < unat (topsize s)" using k(3) by (simp add: word_less_nat_alt)
  have tk: "unat (top_chunk s + k) = unat (top_chunk s) + unat k" "unat (topsize s - k) = unat (topsize s) - unat k"
    using b k' by (auto intro!: unat_add_noov unat_sub_noov simp: word_le_nat_alt)
  show ?thesis
  proof (rule linv_meta_step [OF D(2) same(1-5)])
    show "c \<notin> bin_cells s F" if "mem s' c \<noteq> mem s c" for c
    proof (rule outside_bins_top [OF D(1,4) F])
      have "unat (top_chunk s + k + 8) = unat (top_chunk s) + unat k + 8" "unat (top_chunk s + 8) = unat (top_chunk s) + 8"
        using tk b k' by (auto intro!: unat_add_8 [THEN trans])
      moreover have "c = top_chunk s + k + 8 \<or> c = top_chunk s + 8"
        using that by (auto simp: s' set_head_def split: if_splits)
      ultimately show "unat (top_chunk s) \<le> unat c" "unat c < unat (top_chunk s) + unat (topsize s) + 16"
        using k' by auto
    qed
    show "hrep (mem s') base (cs @ [(top_chunk s, True, k)]) (top_chunk s') (topsize s')"
      unfolding s' top by (rule hrep_grow [OF D(1) k])
    show "parts s' (cs @ [(top_chunk s, True, k)]) F {}"
      using D(5) same(6,7) by (auto simp: parts_def dvset_def)
    show "e = unat (top_chunk s') + unat (topsize s')" using D(6) tk k' by (simp add: top)
  qed (use D in simp_all)
qed

lemma linv_free_not_used:
  assumes "linv s base e cs F X" "(a, n) \<in> F \<union> dvset s \<union> X"
  shows "\<exists>xs ys. cs = xs @ (a, False, n) # ys \<and> (\<forall>m. (a, m) \<notin> uchunks cs)"
proof -
  note D = linvD [OF assms(1)]
  have "(a, n) \<in> fchunks cs" using D(5) assms(2) unfolding parts_def by blast
  then have "(a, False, n) \<in> set cs" using fchunksD by fastforce
  then obtain xs ys where cs: "cs = xs @ (a, False, n) # ys" by (meson split_list)
  have "(a, m) \<notin> uchunks cs" for m using hrep_other(3) [of "mem s" base xs a False n ys] D(1) cs by fastforce
  then show ?thesis using cs by blast
qed


unbundle bit_operations_syntax

end
