(* ===== verification/Uni_Alloc.thy ===== *)
theory Uni_Alloc
  imports Uni_Invariant
begin

text \<open>
  One pass of \<open>Alloc\<close> on the invariant of \<open>Uni_Invariant\<close>, branch by branch: a chunk of a small bin, whole or
  cut, the least chunk of a tree bin, the best chunk that \<open>tmalloc_large\<close> finds, the designated victim, or
  the top chunk. \<open>alloc_once_cases\<close> puts them together.
\<close>

unbundle bit_operations_syntax

section \<open>The results of \<open>Alloc\<close>\<close>

text \<open>A chunk of \<open>n\<close> bytes serves a request for a chunk of \<open>nb\<close> bytes: what is too much is less than a chunk.\<close>

definition fits :: "u64 \<Rightarrow> u64 \<Rightarrow> bool" where
  "fits nb n \<longleftrightarrow> nb \<le> n \<and> unat n < unat nb + 32"

lemma fits_refl: "fits nb nb"
  by (simp add: fits_def)

lemma fits_whole:
  assumes "nb \<le> n" "n - nb < MIN_CHUNK_SIZE"
  shows "fits nb n"
  using assms unat_sub_noov [OF assms(1)] by (auto simp: fits_def size_consts word_less_nat_alt)

text \<open>Chunks that \<open>compute_tree_index\<close> sorts, and a request that none of them can serve.\<close>

definition short :: "(addr \<times> u64) set \<Rightarrow> bool" where
  "short F \<longleftrightarrow> (\<forall>x \<in> F. unat (snd x) < 2 ^ 40)"

definition none_fits :: "u64 \<Rightarrow> (addr \<times> u64) set \<Rightarrow> bool" where
  "none_fits nb F \<longleftrightarrow> (\<forall>x \<in> F. snd x < nb)"

text \<open>Such a chunk has been given to the client.\<close>

definition grants :: "addr \<Rightarrow> nat \<Rightarrow> u64 \<Rightarrow> uchunk list \<Rightarrow> addr \<Rightarrow> mstate \<Rightarrow> bool" where
  "grants base e nb cs m s' \<longleftrightarrow> (\<exists>a n cs'. m = chunk2mem a \<and> fits nb n \<and> uinv s' base e cs' \<and>
     (a, n) \<notin> uchunks cs \<and> uchunks cs' = insert (a, n) (uchunks cs))"

lemma grantsI:
  assumes "linv s' base e cs' F {}" "m = chunk2mem a" "fits nb n" "(a, n) \<notin> uchunks cs" "uchunks cs' = insert (a, n) (uchunks cs)"
  shows "grants base e nb cs m s'"
  using assms unfolding grants_def uinv_def by blast

text \<open>The chunk sizes that \<open>Alloc\<close> asks for.\<close>

definition chunk_request :: "u64 \<Rightarrow> bool" where
  "chunk_request nb \<longleftrightarrow> 16 dvd unat nb \<and> 32 \<le> unat nb"

text \<open>The start of \<open>top\<close> is given to the client.\<close>

lemma alloc_top:
  assumes l: "linv s base e cs F {}" and nb: "chunk_request nb" and top: "dvsize s < nb" "nb < topsize s"
  shows "\<exists>s'. alloc_dv_or_top nb s = ret (Some (chunk2mem (top_chunk s))) s' \<and>
    linv s' base e (cs @ [(top_chunk s, True, nb)]) F {} \<and> (top_chunk s, nb) \<notin> uchunks cs \<and>
    smallmap s' = smallmap s \<and> treemap s' = treemap s \<and> dvsize s' = dvsize s \<and> topsize s' = topsize s - nb"
proof -
  note D = linvD [OF l]
  have k: "16 dvd unat nb" "32 \<le> unat nb" using nb by (simp_all add: chunk_request_def)
  let ?s = "gm_set_size_and_pinuse_of_inuse_chunk (top_chunk s) nb
    (upd_mem (\<lambda>h. set_head h (top_chunk s + nb) ((topsize s - nb) OR PINUSE_BIT))
      (s\<lparr>topsize := topsize s - nb, top_chunk := top_chunk s + nb\<rparr>))"
  have lin: "linv ?s base e (cs @ [(top_chunk s, True, nb)]) F {}"
    by (rule linv_cut_top [OF l k top(2)])
      (simp_all add: gm_set_size_and_pinuse_of_inuse_chunk_def upd_mem_def or.assoc)
  have new: "(top_chunk s, nb) \<notin> uchunks cs"
  proof
    assume "(top_chunk s, nb) \<in> uchunks cs"
    then have "(top_chunk s, True, nb) \<in> set cs" by (simp add: uchunks_def)
    then show False using hrep_wf(7) [OF D(1), of "top_chunk s" True nb] k(2) by simp
  qed
  have "alloc_dv_or_top nb s = ret (Some (chunk2mem (top_chunk s))) ?s"
    using top by (simp add: alloc_dv_or_top_def Let_def chunk_plus_offset_def)
  then show ?thesis using lin new by (simp add: gm_set_size_and_pinuse_of_inuse_chunk_def upd_mem_def)
qed

lemma alloc_dv_or_top_fits:
  assumes l: "linv s base e cs F {}" and nb: "chunk_request nb"
  shows "(\<exists>m s'. alloc_dv_or_top nb s = ret (Some m) s' \<and> grants base e nb cs m s') \<or>
    alloc_dv_or_top nb s = ret None s \<and> dvsize s < nb \<and> topsize s \<le> nb"
proof -
  note D = linvD [OF l]
  have k: "16 dvd unat nb" "32 \<le> unat nb" using nb by (simp_all add: chunk_request_def)
  consider (dv) "nb \<le> dvsize s" | (top) "dvsize s < nb" "nb < topsize s" | (none) "dvsize s < nb" "topsize s \<le> nb"
    by force
  then show ?thesis
  proof cases
    case dv
    let ?a = "dv s" and ?n = "dvsize s"
    have n: "?n \<noteq> 0" "unat nb \<le> unat ?n" using dv k(2) by (auto simp: word_le_nat_alt)
    obtain xs ys where cs: "cs = xs @ (?a, False, ?n) # ys" and new: "(?a, m) \<notin> uchunks cs" for m
      using linv_free_not_used [OF l, of ?a ?n] n(1) by (auto simp: dvset_def)
    note l' = l [unfolded cs]
    have rep: "hrep (mem s) base (xs @ (?a, False, ?n) # ys) (top_chunk s) (topsize s)" using D(1) by (simp add: cs)
    have r: "unat (?n - nb) = unat ?n - unat nb" using dv by (rule unat_sub_noov)
    show ?thesis
    proof (cases "MIN_CHUNK_SIZE \<le> ?n - nb")
      case True
      then have k3: "unat nb + 32 \<le> unat ?n" using r n(2) by (simp add: size_consts word_le_nat_alt)
      let ?s = "upd_mem (cut_chunk ?a nb (?n - nb)) (s\<lparr>dvsize := ?n - nb, dv := ?a + nb\<rparr>)"
      have "linv ?s base e (xs @ (?a, True, nb) # (?a + nb, False, ?n - nb) # ys) F {}"
        by (rule linv_cut_dv [OF l' refl refl n(1) k k3])
      then have "grants base e nb cs (chunk2mem ?a) ?s"
        by (rule grantsI [OF _ refl fits_refl new]) (simp add: cs)
      moreover have "alloc_dv_or_top nb s = ret (Some (chunk2mem ?a)) ?s"
        using dv True cut_chunk_dv [OF rep k k3]
        by (cases s) (simp add: alloc_dv_or_top_def Let_def chunk_plus_offset_def upd_mem_def)
      ultimately show ?thesis by blast
    next
      case False
      let ?s = "set_inuse_and_pinuse ?a ?n (s\<lparr>dvsize := 0, dv := 0\<rparr>)"
      have "linv ?s base e (xs @ (?a, True, ?n) # ys) F {}"
        using linv_use [OF linv_clear_dv [OF l' n(1)], of] by simp
      then have "grants base e nb cs (chunk2mem ?a) ?s"
        by (rule grantsI [OF _ refl fits_whole [OF dv] new]) (use False in \<open>simp_all add: cs not_le\<close>)
      moreover have "alloc_dv_or_top nb s = ret (Some (chunk2mem ?a)) ?s"
        using dv False by (simp add: alloc_dv_or_top_def Let_def)
      ultimately show ?thesis by blast
    qed
  next
    case top
    obtain s' where s': "alloc_dv_or_top nb s = ret (Some (chunk2mem (top_chunk s))) s'"
      "linv s' base e (cs @ [(top_chunk s, True, nb)]) F {}" "(top_chunk s, nb) \<notin> uchunks cs"
      using alloc_top [OF l nb top] by blast
    have "grants base e nb cs (chunk2mem (top_chunk s)) s'" by (rule grantsI [OF s'(2) refl fits_refl s'(3)]) simp
    then show ?thesis using s'(1) by blast
  next
    case none
    then have "\<not> nb \<le> dvsize s" "\<not> nb < topsize s" by (simp_all add: not_le not_less)
    then show ?thesis using none by (simp add: alloc_dv_or_top_def)
  qed
qed

text \<open>What follows when a chunk \<open>(a, n)\<close> has been taken out of its bin: all of it, or a cut.\<close>

lemma linv_grant_whole:
  assumes l: "linv s base e cs F {(a, n)}" and nb: "fits nb n"
  shows "grants base e nb cs (chunk2mem a) (set_inuse_and_pinuse a n s)"
proof -
  obtain xs ys where cs: "cs = xs @ (a, False, n) # ys" and new: "(a, n) \<notin> uchunks cs"
    using linv_free_not_used [OF l, of a n] by auto
  have "linv (set_inuse_and_pinuse a n s) base e (xs @ (a, True, n) # ys) F {}"
    using linv_use [OF l [unfolded cs]] by simp
  then show ?thesis by (rule grantsI [OF _ refl nb new]) (simp add: cs)
qed

lemma linv_loose_cut:
  assumes l: "linv s base e cs F {(a, n)}" and nb: "chunk_request nb" "unat nb + 32 \<le> unat n"
  shows "\<exists>cs'. linv (upd_mem (\<lambda>h. set_size_and_pinuse_of_free_chunk h (a + nb) (n - nb))
        (gm_set_size_and_pinuse_of_inuse_chunk a nb s)) base e cs' F {(a + nb, n - nb)} \<and>
      (a, nb) \<notin> uchunks cs \<and> uchunks cs' = insert (a, nb) (uchunks cs)"
proof -
  obtain xs ys where cs: "cs = xs @ (a, False, n) # ys" and new: "(a, nb) \<notin> uchunks cs"
    using linv_free_not_used [OF l, of a n] by auto
  have "upd_mem (\<lambda>h. set_size_and_pinuse_of_free_chunk h (a + nb) (n - nb)) (gm_set_size_and_pinuse_of_inuse_chunk a nb s) =
      upd_mem (cut_chunk a nb (n - nb)) s"
    by (simp add: upd_mem_def gm_set_size_and_pinuse_of_inuse_chunk_def cut_chunk_def set_size_and_pinuse_of_inuse_chunk_def)
  moreover have "linv (upd_mem (cut_chunk a nb (n - nb)) s) base e
      (xs @ (a, True, nb) # (a + nb, False, n - nb) # ys) F {(a + nb, n - nb)}"
    using linv_cut [OF l [unfolded cs], of nb] nb by (simp add: chunk_request_def)
  ultimately show ?thesis using new cs by (intro exI [of _ "xs @ (a, True, nb) # (a + nb, False, n - nb) # ys"]) simp
qed

section \<open>The small bins\<close>

lemma bits_3: "(x :: u32) AND 3 \<noteq> 0 \<longleftrightarrow> bit x 0 \<or> bit x 1"
proof -
  have m: "(3 :: u32) = mask 2" by (simp add: mask_eq_exp_minus_1)
  have b: "bit (x AND 3) k \<longleftrightarrow> bit x k \<and> k < 2" for k
    unfolding m bit_and_iff bit_mask_iff by auto
  show ?thesis
  proof
    assume "x AND 3 \<noteq> 0"
    then obtain k where "bit (x AND 3) k" by (auto simp: bit_eq_iff)
    then show "bit x 0 \<or> bit x 1" unfolding b by (auto simp: less_2_cases_iff)
  next
    assume "bit x 0 \<or> bit x 1"
    then have "bit (x AND 3) 0 \<or> bit (x AND 3) 1" by (simp add: b)
    then show "x AND 3 \<noteq> 0" by auto
  qed
qed

lemma and_1: "(x :: u32) AND 1 = (if bit x 0 then 1 else 0)"
  by (rule bit_word_eqI) (auto simp: bit_and_iff bit_1_iff intro: gr0I)

lemma marked_iff: "smallmap_is_marked s i \<noteq> 0 \<longleftrightarrow> bit (smallmap s) (unat i)"
  by (simp add: smallmap_is_marked_def and_idx2bit_neq_0)

lemma index2size: "i < NSMALLBINS \<Longrightarrow> ucast (small_index2size i) = (8 * ucast i :: u64)"
proof -
  assume i: "i < NSMALLBINS"
  then have "unat (ucast (small_index2size i) :: u64) = 8 * unat i"
    by (simp add: less_NSMALLBINS small_index2size_def SMALLBIN_SHIFT_def push_bit_eq_mult unat_word_ariths
        unsigned_ucast_eq take_bit_eq_mod)
  then show ?thesis using unat_small_size [OF i] by (simp add: word_unat_eq_iff)
qed

text \<open>The first chunk of a marked bin becomes loose.\<close>

lemma linv_pop:
  assumes l: "linv s base e cs F {}" and i: "i < NSMALLBINS" "bit (smallmap s) (unat i)"
  shows "\<exists>p s'. p = fd (mem s) (smallbin_at s i) \<and> unlink_first_small_chunk (smallbin_at s i) p i s = ret () s' \<and>
    linv s' base e cs (F - {(p, 8 * ucast i)}) {(p, 8 * ucast i)} \<and> dv s' = dv s \<and> dvsize s' = dvsize s"
proof -
  obtain p s' where s': "p = fd (mem s) (smallbin_at s i)" "(p, 8 * ucast i) \<in> F"
    "unlink_first_small_chunk (smallbin_at s i) p i s = ret () s'" "store s' (F - {(p, 8 * ucast i)})"
    "bins_step (bin_cells s F) s s'"
    using store_pop_small [OF linvD(2) [OF l] i(1)] i(2) by (auto simp: marked_iff)
  show ?thesis using s' linv_takes [OF l s'(2,5,4)] bins_step_same(3,4) [OF s'(5)] by blast
qed

text \<open>The index of a small request.\<close>

lemma small_request_index:
  assumes "chunk_request nb" "unat nb \<le> 240"
  shows "unat (small_index nb) = unat nb div 8" "unat nb = 8 * unat (small_index nb)" "unat (small_index nb) \<le> 30"
proof -
  have "is_small nb" using assms(2) by (simp add: is_small_iff)
  then show u: "unat (small_index nb) = unat nb div 8" by (rule unat_small_index(1))
  have "8 dvd unat nb" using assms(1) dvd_trans [of 8 16 "unat nb"] by (simp add: chunk_request_def)
  then show "unat nb = 8 * unat (small_index nb)" using u by simp
  then show "unat (small_index nb) \<le> 30" using assms(2) by simp
qed

lemma alloc_small_exact_grants:
  assumes l: "linv s base e cs F {}" and nb: "chunk_request nb" "unat nb \<le> 240"
    and bits: "smallbits = drop_bit (unat (small_index nb)) (smallmap s)" "smallbits AND 3 \<noteq> 0"
  shows "\<exists>m s'. alloc_small_exact (small_index nb) smallbits s = ret (Some m) s' \<and> grants base e nb cs m s'"
proof -
  let ?i = "small_index nb"
  define j where "j = ?i + (NOT smallbits AND 1)"
  note ix = small_request_index [OF nb]
  have "NOT smallbits AND 1 = (if bit smallbits 0 then 0 else 1)"
    by (simp add: and_1 bit_not_iff)
  then have j: "unat j = unat ?i + (if bit smallbits 0 then 0 else 1)"
    using ix(3) by (simp add: j_def unat_word_ariths)
  have mk: "bit (smallmap s) (unat j)"
    using bits(2) unfolding bits_3 j bits(1) by (auto simp: bit_drop_bit_eq)
  have jN: "j < NSMALLBINS" using j ix(3) by (simp add: less_NSMALLBINS split: if_splits)
  obtain p t where p: "p = fd (mem s) (smallbin_at s j)" "unlink_first_small_chunk (smallbin_at s j) p j s = ret () t"
    "linv t base e cs (F - {(p, 8 * ucast j)}) {(p, 8 * ucast j)}"
    using linv_pop [OF l jN mk] by blast
  have "fits nb (8 * ucast j)"
    using j ix(2) by (simp add: fits_def word_le_nat_alt unat_small_size [OF jN])
  then have "grants base e nb cs (chunk2mem p) (set_inuse_and_pinuse p (8 * ucast j) t)"
    by (rule linv_grant_whole [OF p(3)])
  moreover have "alloc_small_exact ?i smallbits s = ret (Some (chunk2mem p)) (set_inuse_and_pinuse p (8 * ucast j) t)"
    using p(2) unfolding alloc_small_exact_def Let_def j_def [symmetric] p(1) [symmetric] index2size [OF jN] by simp
  ultimately show ?thesis by blast
qed

text \<open>The least marked bin above the bins that were tried.\<close>

lemma small_next_index:
  assumes nb: "chunk_request nb" "unat nb \<le> 240"
    and bits: "smallbits = drop_bit (unat (small_index nb)) m" "smallbits AND 3 = 0" "smallbits \<noteq> 0"
    and i: "i = compute_bit2idx (least_bit (push_bit (unat (small_index nb)) smallbits AND left_bits (idx2bit (small_index nb))))"
  shows "i < NSMALLBINS" "bit m (unat i)" "unat (small_index nb) + 2 \<le> unat i"
proof -
  let ?k = "small_index nb"
  let ?lb = "push_bit (unat ?k) smallbits AND left_bits (idx2bit ?k)"
  note ix = small_request_index [OF nb]
  have k32: "unat ?k < 32" using ix(3) by simp
  have lb: "bit ?lb n \<longleftrightarrow> unat ?k < n \<and> n < 32 \<and> bit m n" for n
  proof -
    have "bit (left_bits (idx2bit ?k)) n \<longleftrightarrow> unat ?k < n \<and> n < 32"
      by (rule bit_left_bits) (use k32 in \<open>simp_all add: bit_idx2bit\<close>)
    then show ?thesis by (auto simp: bit_and_iff bit_push_bit_iff bits(1) bit_drop_bit_eq dest: bit_u32_lt)
  qed
  have no: "\<not> bit m (unat ?k)" "\<not> bit m (unat ?k + 1)"
    using bits(2) bits_3 [of smallbits] by (auto simp: bits(1) bit_drop_bit_eq)
  obtain j where j: "bit smallbits j" using bits(3) by (auto simp: bit_eq_iff)
  then have "bit m (unat ?k + j)" "j \<noteq> 0" using no by (auto simp: bits(1) bit_drop_bit_eq intro: gr0I)
  then have "bit ?lb (unat ?k + j)" unfolding lb using bit_u32_lt [of m] by auto
  then have "?lb \<noteq> 0" by auto
  note least = least_bit_idx [OF this, unfolded Let_def, folded i]
  have "bit ?lb (unat i)" using least by (simp add: and_idx2bit_neq_0)
  then have b: "unat ?k < unat i" "bit m (unat i)" unfolding lb by simp_all
  show "i < NSMALLBINS" using least by (simp add: less_NSMALLBINS)
  show "bit m (unat i)" by (rule b)
  have "unat i \<noteq> unat ?k + 1" using no(2) b(2) by auto
  then show "unat ?k + 2 \<le> unat i" using b(1) by simp
qed

lemma linv_cut_to_dv:
  assumes l: "linv s base e cs F {(a, n)}" and nb: "chunk_request nb" "unat nb + 32 \<le> unat n" and small: "is_small (dvsize s)"
  shows "\<exists>s'. replace_dv (a + nb) (n - nb) (upd_mem (\<lambda>h. set_size_and_pinuse_of_free_chunk h (a + nb) (n - nb))
        (gm_set_size_and_pinuse_of_inuse_chunk a nb s)) = ret () s' \<and> grants base e nb cs (chunk2mem a) s'"
proof -
  let ?t = "upd_mem (\<lambda>h. set_size_and_pinuse_of_free_chunk h (a + nb) (n - nb)) (gm_set_size_and_pinuse_of_inuse_chunk a nb s)"
  obtain cs' where c: "linv ?t base e cs' F {(a + nb, n - nb)}" "(a, nb) \<notin> uchunks cs" "uchunks cs' = insert (a, nb) (uchunks cs)"
    using linv_loose_cut [OF l nb] by blast
  have "n - nb \<noteq> 0" using nb(2) by auto
  moreover have "is_small (dvsize ?t)" using small by (simp add: upd_mem_def gm_set_size_and_pinuse_of_inuse_chunk_def)
  ultimately obtain s' F' where s': "replace_dv (a + nb) (n - nb) ?t = ret () s'" "linv s' base e cs' F' {}"
    using linv_replace_dv [OF c(1)] by fastforce
  have "grants base e nb cs (chunk2mem a) s'" by (rule grantsI [OF s'(2) refl fits_refl c(2,3)])
  then show ?thesis using s'(1) by blast
qed

lemma alloc_small_next_grants:
  assumes l: "linv s base e cs F {}" and nb: "chunk_request nb" "unat nb \<le> 240" and dv: "dvsize s < nb"
    and bits: "smallbits = drop_bit (unat (small_index nb)) (smallmap s)" "smallbits AND 3 = 0" "smallbits \<noteq> 0"
  shows "\<exists>m s'. alloc_small_next nb (small_index nb) smallbits s = ret (Some m) s' \<and> grants base e nb cs m s'"
proof -
  define i where "i = compute_bit2idx (least_bit (push_bit (unat (small_index nb)) smallbits AND left_bits (idx2bit (small_index nb))))"
  note i = small_next_index [OF nb bits i_def]
  note ix = small_request_index [OF nb]
  let ?n = "8 * ucast i :: u64"
  have n: "unat ?n = 8 * unat i" by (rule unat_small_size [OF i(1)])
  obtain p t where p: "p = fd (mem s) (smallbin_at s i)" "unlink_first_small_chunk (smallbin_at s i) p i s = ret () t"
    "linv t base e cs (F - {(p, ?n)}) {(p, ?n)}" "dvsize t = dvsize s"
    using linv_pop [OF l i(1,2)] by blast
  have le: "nb \<le> ?n" using n i(3) ix(2) by (simp add: word_le_nat_alt)
  have r: "unat (?n - nb) = 8 * unat i - unat nb" using unat_sub_noov [OF le] n by simp
  note eq = alloc_small_next_def Let_def i_def [symmetric] p(1) [symmetric] index2size [OF i(1)] chunk_plus_offset_def
  show ?thesis
  proof (cases "?n - nb < MIN_CHUNK_SIZE")
    case True
    have "grants base e nb cs (chunk2mem p) (set_inuse_and_pinuse p ?n t)" by (rule linv_grant_whole [OF p(3) fits_whole [OF le True]])
    moreover have "alloc_small_next nb (small_index nb) smallbits s = ret (Some (chunk2mem p)) (set_inuse_and_pinuse p ?n t)"
      using p(2) True unfolding eq by (simp add: SIZE_T_SIZE_def)
    ultimately show ?thesis by blast
  next
    case False
    then have "32 \<le> unat (?n - nb)" by (simp add: size_consts word_less_nat_alt)
    then have fit: "unat nb + 32 \<le> unat ?n" using r n by simp
    have "is_small (dvsize t)" using dv nb(2) p(4) by (simp add: is_small_iff word_less_nat_alt)
    then obtain s' where s': "replace_dv (p + nb) (?n - nb) (upd_mem (\<lambda>h. set_size_and_pinuse_of_free_chunk h (p + nb) (?n - nb))
        (gm_set_size_and_pinuse_of_inuse_chunk p nb t)) = ret () s'" "grants base e nb cs (chunk2mem p) s'"
      using linv_cut_to_dv [OF p(3) nb(1) fit] by blast
    have "alloc_small_next nb (small_index nb) smallbits s = ret (Some (chunk2mem p)) s'"
      using p(2) False s'(1) unfolding eq by simp
    then show ?thesis using s'(2) by blast
  qed
qed


section \<open>The trees\<close>

lemma remainder_fits: "nb \<noteq> 0 \<Longrightarrow> n - nb < - nb \<longleftrightarrow> nb \<le> (n :: u64)"
proof -
  assume nb: "nb \<noteq> 0"
  have "(unat nb + unat (- nb)) mod 18446744073709551616 = 0"
    using unat_add_64 [of nb "- nb"] by simp
  then obtain k where k: "unat nb + unat (- nb) = 18446744073709551616 * k" by (auto elim!: dvdE simp: mod_eq_0_iff_dvd)
  have "0 < unat nb" using nb by (simp add: unat_gt_0)
  then have "0 < k" using k by (auto intro: gr0I)
  moreover have "k < 2" using k unat_lt_2_64 [of nb] unat_lt_2_64 [of "- nb"] by linarith
  ultimately have "k = 1" by simp
  with k have m: "unat (- nb) = 18446744073709551616 - unat nb" by simp
  have "n - nb = n + (- nb)" by simp
  then have s: "unat (n - nb) = (unat n + (18446744073709551616 - unat nb)) mod 18446744073709551616"
    by (simp only: unat_add_64 m)
  show ?thesis
  proof (cases "nb \<le> n")
    case True
    have "unat (n - nb) < unat (- nb)"
      unfolding m unat_sub_noov [OF True] using unat_lt_2_64 [of n] True [unfolded word_le_nat_alt] by linarith
    then show ?thesis using True by (simp add: word_less_nat_alt)
  next
    case False
    then show ?thesis using s m nb unat_lt_2_64 [of n] unat_lt_2_64 [of nb]
      by (simp add: word_less_nat_alt word_le_nat_alt)
  qed
qed

lemma leaf_chunk:
  assumes l: "linv s base e cs F {}" and i: "unat i < 32" "treemap_is_marked s i \<noteq> 0"
  obtains n where "(treebin_at s i, n) \<in> F" "256 \<le> unat n" "compute_tree_index n = i"
    "chunksize (mem s) (treebin_at s i) = n" "leaf (mem s) i (treebin_at s i)" "treebin_at s i \<noteq> 0"
proof -
  obtain n where n: "(treebin_at s i, n) \<in> F" "256 \<le> unat n" "compute_tree_index n = i"
    "chunksize (mem s) (treebin_at s i) = n" "leaf (mem s) i (treebin_at s i)"
    using store_root [OF linvD(2) [OF l] i linv_sized [OF l]] by blast
  then show ?thesis using that store_nonzero(1) [OF linvD(2) [OF l]] by blast
qed

text \<open>A root becomes loose.\<close>

lemma linv_unlink_large:
  assumes l: "linv s base e cs F {}" and v: "(v, n) \<in> F" "256 \<le> unat n"
  shows "\<exists>s'. unlink_large_chunk v s = ret () s' \<and> linv s' base e cs (F - {(v, n)}) {(v, n)} \<and>
    dv s' = dv s \<and> dvsize s' = dvsize s"
proof -
  obtain s' where s': "unlink_large_chunk v s = ret () s'" "store s' (F - {(v, n)})" "bins_step (bin_cells s F) s s'"
    using store_remove_large [OF linvD(2) [OF l] v] by blast
  show ?thesis using s'(1) linv_takes [OF l v(1) s'(3,2)] bins_step_same(3,4) [OF s'(3)] by blast
qed

lemma ok_next_plus: "unat v + unat nb < 18446744073709551616 \<Longrightarrow> nb \<noteq> 0 \<Longrightarrow> ok_next v (v + nb)"
  by (simp add: ok_next_def word_less_nat_alt unat_offset unat_gt_0)

lemma tmalloc_small_grants:
  assumes l: "linv s base e cs F {}" and nb: "chunk_request nb" "unat nb \<le> 240" and dv: "dvsize s < nb" and tm: "treemap s \<noteq> 0"
  shows "\<exists>m s'. tmalloc_small nb s = ret m s' \<and> grants base e nb cs m s'"
proof -
  define i where "i = compute_bit2idx (least_bit (treemap s))"
  have i: "unat i < 32" "treemap_is_marked s i \<noteq> 0"
    using least_bit_idx [OF tm, unfolded Let_def, folded i_def] unfolding treemap_is_marked_def by blast+
  define v where "v = treebin_at s i"
  obtain n where n: "(v, n) \<in> F" "256 \<le> unat n" "chunksize (mem s) v = n" "leaf (mem s) i v"
    using leaf_chunk [OF l i] by (auto simp: v_def)
  note wf = store_nonzero [OF linvD(2) [OF l] n(1)]
  obtain t where t: "unlink_large_chunk v s = ret () t" "linv t base e cs (F - {(v, n)}) {(v, n)}" "dvsize t = dvsize s"
    using linv_unlink_large [OF l n(1,2)] by blast
  have le: "nb \<le> n" using nb(2) n(2) by (simp add: word_le_nat_alt)
  have r: "unat (n - nb) = unat n - unat nb" by (rule unat_sub_noov [OF le])
  have ok: "ok_address s v" "ok_next v (v + nb)"
    using wf nb n(2) by (auto intro!: ok_next_plus simp: chunk_request_def)
  note eq = tmalloc_small_def Let_def i_def [symmetric] v_def [symmetric] n(3) tmalloc_small_walk_leaf [OF n(4)] chunk_plus_offset_def
  show ?thesis
  proof (cases "n - nb < MIN_CHUNK_SIZE")
    case True
    have "grants base e nb cs (chunk2mem v) (set_inuse_and_pinuse v n t)" by (rule linv_grant_whole [OF t(2) fits_whole [OF le True]])
    moreover have "tmalloc_small nb s = ret (chunk2mem v) (set_inuse_and_pinuse v n t)"
      using t(1) True ok unfolding eq by simp
    ultimately show ?thesis by blast
  next
    case False
    then have "unat nb + 32 \<le> unat n" using r by (simp add: size_consts word_less_nat_alt)
    moreover have "is_small (dvsize t)" using dv nb(2) t(3) by (simp add: is_small_iff word_less_nat_alt)
    ultimately obtain s' where s': "replace_dv (v + nb) (n - nb) (upd_mem (\<lambda>h. set_size_and_pinuse_of_free_chunk h (v + nb) (n - nb))
        (gm_set_size_and_pinuse_of_inuse_chunk v nb t)) = ret () s'" "grants base e nb cs (chunk2mem v) s'"
      using linv_cut_to_dv [OF t(2) nb(1)] by blast
    have "tmalloc_small nb s = ret (chunk2mem v) s'"
      using t(1) False ok s'(1) unfolding eq by simp
    then show ?thesis using s'(2) by blast
  qed
qed

text \<open>The end of \<open>tmalloc_large\<close>, when the search has chosen \<open>v\<close>.\<close>

definition tmalloc_large_use :: "u64 \<Rightarrow> mstate \<Rightarrow> addr \<Rightarrow> u64 \<Rightarrow> (mstate, addr) comp" where
  "tmalloc_large_use nb s v rsize =
     (if v \<noteq> 0 \<and> rsize < dvsize s - nb
      then (let r = chunk_plus_offset v nb
            in if ok_address s v \<and> ok_next v r
               then cbind (unlink_large_chunk v s) (\<lambda>_ s.
                 if rsize < MIN_CHUNK_SIZE
                 then ret (chunk2mem v) (set_inuse_and_pinuse v (rsize + nb) s)
                 else cbind (insert_chunk r rsize
                          (upd_mem (\<lambda>h. set_size_and_pinuse_of_free_chunk h r rsize)
                            (gm_set_size_and_pinuse_of_inuse_chunk v nb s)))
                        (\<lambda>_ s. ret (chunk2mem v) s))
               else throw Memory_Corrupted s)
      else ret 0 s)"

text \<open>
  The chunks that the search does not look at are too small, as long as they are short enough for
  \<open>compute_tree_index\<close> to sort them.
\<close>

lemma bit_left_bits_idx: "unat k < 32 \<Longrightarrow> bit (left_bits (idx2bit k)) n \<longleftrightarrow> unat k < n \<and> n < 32"
  by (rule bit_left_bits) (simp_all add: bit_idx2bit)

lemma larger_bin:
  assumes "256 \<le> unat n" "compute_tree_index n = i" "256 \<le> unat nb" "unat n < 2 ^ 40" "unat (compute_tree_index nb) < unat i"
  shows "nb \<le> n \<or> 2 ^ 40 \<le> unat nb"
proof (rule ccontr)
  assume "\<not> ?thesis"
  then have "unat n \<le> unat nb" "unat nb < 2 ^ 40" by (simp_all add: word_le_nat_alt)
  then show False using tree_index_mono [OF assms(1)] assms(2,5) by fastforce
qed

lemma none_fits_long: "short F \<Longrightarrow> 2 ^ 40 \<le> unat nb \<Longrightarrow> none_fits nb F"
  by (force simp: short_def none_fits_def word_less_nat_alt)

lemma no_larger_bin:
  assumes l: "linv s base e cs F {}" and nb: "256 \<le> unat nb"
    and no: "left_bits (idx2bit (compute_tree_index nb)) AND treemap s = 0" and short: "short F"
    and own: "\<forall>(p, n) \<in> F. 256 \<le> unat n \<longrightarrow> compute_tree_index n = compute_tree_index nb \<longrightarrow> n < nb"
  shows "none_fits nb F"
proof -
  have "n < nb" if x: "(p, n) \<in> F" for p n
  proof (rule ccontr)
    assume "\<not> n < nb"
    then have le: "unat nb \<le> unat n" by (simp add: word_less_nat_alt)
    let ?i = "compute_tree_index n"
    have n: "256 \<le> unat n" "unat n < 2 ^ 40" using le nb short x by (auto simp: short_def)
    have "unat (compute_tree_index nb) \<le> unat ?i" by (rule tree_index_mono [OF nb le n(2)])
    moreover have "?i \<noteq> compute_tree_index nb" using own x n(1) le by (auto simp: word_less_nat_alt)
    ultimately have "unat (compute_tree_index nb) < unat ?i" by (simp add: word_unat_eq_iff)
    then have "bit (left_bits (idx2bit (compute_tree_index nb))) (unat ?i)"
      by (simp add: bit_left_bits_idx tree_index_lt)
    moreover have "bit (treemap s) (unat ?i)"
      using store_large_marked [OF linvD(2) [OF l] x n(1)] by (simp add: treemap_is_marked_def and_idx2bit_neq_0)
    ultimately have "bit (left_bits (idx2bit (compute_tree_index nb)) AND treemap s) (unat ?i)" by (simp add: bit_and_iff)
    then show False unfolding no by simp
  qed
  then show ?thesis by (auto simp: none_fits_def)
qed

text \<open>The search finds nothing or a chunk of a tree bin that is large enough.\<close>

lemma tmalloc_large_choice:
  assumes l: "linv s base e cs F {}" and n256: "256 \<le> unat nb"
  shows "\<exists>v r. tmalloc_large nb s = tmalloc_large_use nb s v r \<and>
    (v = 0 \<and> (short F \<longrightarrow> none_fits nb F) \<or> (\<exists>n. (v, n) \<in> F \<and> 256 \<le> unat n \<and> nb \<le> n \<and> r = n - nb))"
proof -
  have nb: "nb \<noteq> 0" using n256 by auto
  define idx where "idx = compute_tree_index nb"
  define t where "t = treebin_at s idx"
  define leftbits where "leftbits = left_bits (idx2bit idx) AND treemap s"
  define u where "u = treebin_at s (compute_bit2idx (least_bit leftbits))"
  let ?K = "push_bit (unat (leftshift_for_tree_index idx)) nb"
  have walk0: "tmalloc_large_walk (mem s) nb 0 v r = Some (v, r)" for v r
    by (subst tmalloc_large_walk.simps) simp
  have eq: "tmalloc_large nb s =
    (case (if t \<noteq> 0 then tmalloc_large_search (mem s) nb t 0 (- nb) 0 ?K else Some (t, 0, - nb)) of
       None \<Rightarrow> None
     | Some (t, v, rsize) \<Rightarrow>
         (case tmalloc_large_walk (mem s) nb (if t = 0 \<and> v = 0 then if leftbits \<noteq> 0 then u else t else t) v rsize of
            None \<Rightarrow> None | Some (v, rsize) \<Rightarrow> tmalloc_large_use nb s v rsize))"
    unfolding tmalloc_large_def tmalloc_large_use_def Let_def idx_def t_def leftbits_def u_def ..
  have search: "\<exists>n. (t, n) \<in> F \<and> 256 \<le> unat n \<and> compute_tree_index n = idx \<and> chunksize (mem s) t = n \<and> leaf (mem s) idx t" if "t \<noteq> 0"
  proof -
    have i: "unat idx < 32" by (simp add: idx_def tree_index_lt)
    moreover have "treemap_is_marked s idx \<noteq> 0"
      using store_no_root [OF linvD(2) [OF l] i] that by (auto simp: t_def)
    ultimately show ?thesis using leaf_chunk [OF l] unfolding t_def by blast
  qed
  have next_bin: "\<exists>v r. tmalloc_large_walk (mem s) nb (if leftbits \<noteq> 0 then u else 0) 0 (- nb) = Some (v, r) \<and>
      (v = 0 \<and> (short F \<longrightarrow> none_fits nb F) \<or> (\<exists>n. (v, n) \<in> F \<and> 256 \<le> unat n \<and> nb \<le> n \<and> r = n - nb))"
    if own: "\<forall>(p, n) \<in> F. 256 \<le> unat n \<longrightarrow> compute_tree_index n = idx \<longrightarrow> n < nb"
  proof (cases "leftbits = 0")
    case True
    then have "short F \<longrightarrow> none_fits nb F" using no_larger_bin [OF l n256 _ _ own [unfolded idx_def]] by (simp add: leftbits_def idx_def)
    then show ?thesis using True by (simp add: walk0)
  next
    case False
    define i where "i = compute_bit2idx (least_bit leftbits)"
    have b: "unat i < 32" "leftbits AND idx2bit i \<noteq> 0"
      using least_bit_idx [OF False, unfolded Let_def, folded i_def] by simp_all
    then have "treemap_is_marked s i \<noteq> 0"
      unfolding treemap_is_marked_def and_idx2bit_neq_0 by (simp add: leftbits_def bit_and_iff)
    then obtain n where n: "(u, n) \<in> F" "256 \<le> unat n" "compute_tree_index n = i" "chunksize (mem s) u = n"
        "leaf (mem s) i u" "u \<noteq> 0"
      using leaf_chunk [OF l b(1)] unfolding u_def i_def by blast
    have "bit (left_bits (idx2bit idx)) (unat i)"
      using b(2) unfolding and_idx2bit_neq_0 by (simp add: leftbits_def bit_and_iff)
    then have "unat idx < unat i" by (simp add: idx_def bit_left_bits_idx [OF tree_index_lt])
    then have "short F \<longrightarrow> none_fits nb F" if "\<not> nb \<le> n"
      using larger_bin [OF n(2,3) n256] none_fits_long [of F nb] n(1) that \<open>unat idx < unat i\<close>
      by (force simp: short_def idx_def)
    then show ?thesis
      using False n(1,2,4) unfolding if_P [OF False] tmalloc_large_walk_leaf [OF n(5,6)]
      by (auto simp: remainder_fits [OF nb])
  qed
  show ?thesis
  proof (cases "t = 0")
    case True
    have "treemap_is_marked s idx = 0"
    proof (rule ccontr)
      assume "treemap_is_marked s idx \<noteq> 0"
      then show False using leaf_chunk [OF l, of idx] tree_index_lt [of nb] True by (auto simp: t_def idx_def)
    qed
    then have own: "\<forall>(p, n) \<in> F. 256 \<le> unat n \<longrightarrow> compute_tree_index n = idx \<longrightarrow> n < nb"
      using store_large_marked [OF linvD(2) [OF l]] by blast
    obtain v r where "tmalloc_large_walk (mem s) nb (if leftbits \<noteq> 0 then u else 0) 0 (- nb) = Some (v, r)"
        "v = 0 \<and> (short F \<longrightarrow> none_fits nb F) \<or> (\<exists>n. (v, n) \<in> F \<and> 256 \<le> unat n \<and> nb \<le> n \<and> r = n - nb)"
      using next_bin [OF own] by blast
    then show ?thesis using True by (intro exI [of _ v] exI [of _ r]) (simp add: eq)
  next
    case False
    obtain n where n: "(t, n) \<in> F" "256 \<le> unat n" "compute_tree_index n = idx" "chunksize (mem s) t = n" "leaf (mem s) idx t"
      using search [OF False] by blast
    show ?thesis
    proof (cases "nb \<le> n")
      case True
      then have fits: "n - nb < - nb" by (simp add: remainder_fits [OF nb])
      then have "tmalloc_large nb s = tmalloc_large_use nb s t (n - nb)"
        using False n(4) walk0 tmalloc_large_walk_leaf [OF n(5) False]
        by (simp add: eq tmalloc_large_search_leaf [OF n(5)] Let_def)
      then show ?thesis using n(1,2) True by blast
    next
      case nfit: False
      then have nf: "\<not> n - nb < - nb" by (simp add: remainder_fits [OF nb])
      have "k < nb" if "(p, k) \<in> F" "256 \<le> unat k" "compute_tree_index k = idx" for p k
        using store_one_size [OF linvD(2) [OF l] n(1,2) that(1,2)] that(3) n(3) nfit by simp
      then have own: "\<forall>(p, k) \<in> F. 256 \<le> unat k \<longrightarrow> compute_tree_index k = idx \<longrightarrow> k < nb" by blast
      obtain v r where "tmalloc_large_walk (mem s) nb (if leftbits \<noteq> 0 then u else 0) 0 (- nb) = Some (v, r)"
          "v = 0 \<and> (short F \<longrightarrow> none_fits nb F) \<or> (\<exists>n. (v, n) \<in> F \<and> 256 \<le> unat n \<and> nb \<le> n \<and> r = n - nb)"
        using next_bin [OF own] by blast
      then show ?thesis using False n(4) nf
        by (intro exI [of _ v] exI [of _ r]) (simp add: eq tmalloc_large_search_leaf [OF n(5)] Let_def)
    qed
  qed
qed

lemma grants_nonzero:
  assumes "grants base e nb cs m s'"
  shows "m \<noteq> 0"
proof -
  obtain a n cs' F where m: "m = chunk2mem a" "(a, n) \<in> uchunks cs'" "linv s' base e cs' F {}"
    using assms unfolding grants_def uinv_def by blast
  have "(a, True, n) \<in> set cs'" using m(2) by (simp add: uchunks_def)
  note wf = hrep_wf [OF linvD(1) [OF m(3)] this]
  have "unat a + unat n < 18446744073709551616" using wf(7) unat_lt_2_64 [of "top_chunk s'"] by linarith
  then have "unat (a + 32) = unat a + 32" using wf(4) by (simp add: unat_offset)
  then show ?thesis using m(1) by (auto simp: chunk2mem_def size_consts dest: arg_cong [where f = unat])
qed

text \<open>Only the insertion of the remainder can fail.\<close>

lemma remainder_less:
  assumes "d < nb" "nb \<le> n"
  shows "n - nb < d - (nb :: u64)"
proof -
  have "unat (n - nb) = unat n - unat nb" by (rule unat_sub_noov [OF assms(2)])
  moreover have "unat (d - nb) = unat d + 18446744073709551616 - unat nb"
    using assms(1) by (simp add: word_less_nat_alt unat_sub_if')
  ultimately show ?thesis
    using assms unat_lt_2_64 [of n] unat_lt_2_64 [of nb] unfolding word_less_nat_alt word_le_nat_alt by linarith
qed

lemma tmalloc_large_use_cases:
  assumes l: "linv s base e cs F {}" and nb: "chunk_request nb" and v: "(v, n) \<in> F" "256 \<le> unat n" "nb \<le> n"
  shows "(\<exists>m s'. tmalloc_large_use nb s v (n - nb) = ret m s' \<and> grants base e nb cs m s') \<or>
    tmalloc_large_use nb s v (n - nb) = ret 0 s \<and> nb \<le> dvsize s \<or>
    (\<exists>s1. tmalloc_large_use nb s v (n - nb) = throw Memory_Corrupted s1) \<and> (\<exists>k. clash k F)"
proof (cases "n - nb < dvsize s - nb")
  case use: True
  note wf = store_nonzero [OF linvD(2) [OF l] v(1)]
  obtain t where t: "unlink_large_chunk v s = ret () t" "linv t base e cs (F - {(v, n)}) {(v, n)}" "dvsize t = dvsize s"
    using linv_unlink_large [OF l v(1,2)] by blast
  have r: "unat (n - nb) = unat n - unat nb" by (rule unat_sub_noov [OF v(3)])
  have "unat v + unat nb < 18446744073709551616" "nb \<noteq> 0"
    using wf(6) v(3) nb by (auto simp: word_le_nat_alt chunk_request_def)
  then have ok: "ok_next v (v + nb)" by (rule ok_next_plus)
  note eq = tmalloc_large_use_def Let_def chunk_plus_offset_def
  show ?thesis
  proof (cases "n - nb < MIN_CHUNK_SIZE")
    case True
    have "grants base e nb cs (chunk2mem v) (set_inuse_and_pinuse v n t)" by (rule linv_grant_whole [OF t(2) fits_whole [OF v(3) True]])
    moreover have "tmalloc_large_use nb s v (n - nb) = ret (chunk2mem v) (set_inuse_and_pinuse v n t)"
      using t(1) True ok wf(1,2) use unfolding eq by simp
    ultimately show ?thesis by blast
  next
    case False
    then have fit: "unat nb + 32 \<le> unat n" using r by (simp add: size_consts word_less_nat_alt)
    let ?t = "upd_mem (\<lambda>h. set_size_and_pinuse_of_free_chunk h (v + nb) (n - nb)) (gm_set_size_and_pinuse_of_inuse_chunk v nb t)"
    obtain cs' where c: "linv ?t base e cs' (F - {(v, n)}) {(v + nb, n - nb)}" "(v, nb) \<notin> uchunks cs"
      "uchunks cs' = insert (v, nb) (uchunks cs)" using linv_loose_cut [OF t(2) nb fit] by blast
    have res: "tmalloc_large_use nb s v (n - nb) = cbind (insert_chunk (v + nb) (n - nb) ?t) (\<lambda>_ s. ret (chunk2mem v) s)"
      using t(1) False ok wf(1,2) use unfolding eq by simp
    show ?thesis
    proof (cases "clash (n - nb) (F - {(v, n)})")
      case True
      then have "\<exists>s1. insert_chunk (v + nb) (n - nb) ?t = throw Memory_Corrupted s1"
        using linv_insert [OF c(1), of "v + nb" "n - nb"] by simp
      moreover have "clash (n - nb) F" by (rule clash_mono [OF True]) blast
      ultimately show ?thesis using res by auto
    next
      case nc: False
      then obtain s' where s': "insert_chunk (v + nb) (n - nb) ?t = ret () s'"
        "linv s' base e cs' (insert (v + nb, n - nb) (F - {(v, n)})) {}"
        using linv_insert [OF c(1), of "v + nb" "n - nb"] by auto
      have "grants base e nb cs (chunk2mem v) s'" by (rule grantsI [OF s'(2) refl fits_refl c(2,3)])
      then show ?thesis using s'(1) res by auto
    qed
  qed
next
  case False
  then have "nb \<le> dvsize s" using remainder_less [OF _ v(3), of "dvsize s"] by (meson not_le)
  then show ?thesis using False by (simp add: tmalloc_large_use_def)
qed

lemma tmalloc_large_cases:
  assumes l: "linv s base e cs F {}" and nb: "chunk_request nb" "256 \<le> unat nb"
  shows "(\<exists>m s'. tmalloc_large nb s = ret m s' \<and> grants base e nb cs m s') \<or>
    tmalloc_large nb s = ret 0 s \<and> (nb \<le> dvsize s \<or> (short F \<longrightarrow> none_fits nb F)) \<or>
    (\<exists>s1. tmalloc_large nb s = throw Memory_Corrupted s1) \<and> (\<exists>k. clash k F) \<and> \<not> none_fits nb F"
proof -
  obtain v r where v: "tmalloc_large nb s = tmalloc_large_use nb s v r"
    "v = 0 \<and> (short F \<longrightarrow> none_fits nb F) \<or> (\<exists>n. (v, n) \<in> F \<and> 256 \<le> unat n \<and> nb \<le> n \<and> r = n - nb)"
    using tmalloc_large_choice [OF l nb(2)] by blast
  from v(2) consider (none) "v = 0" "short F \<longrightarrow> none_fits nb F"
    | (some) n where "(v, n) \<in> F" "256 \<le> unat n" "nb \<le> n" "r = n - nb" by blast
  then show ?thesis
  proof cases
    case none
    then show ?thesis using v(1) by (simp add: tmalloc_large_use_def)
  next
    case some
    have "\<not> none_fits nb F" using some(1,3) by (force simp: none_fits_def)
    with tmalloc_large_use_cases [OF l nb(1) some(1-3)] show ?thesis unfolding v(1) some(4) by blast
  qed
qed

section \<open>One pass of \<open>Alloc\<close>\<close>

text \<open>
  The pass gives the client a chunk that is large enough, or finds nothing and leaves the state as
  it was, or throws because the rest of a large chunk is of a second size for its tree bin.
\<close>

lemma pad_request_chunk:
  assumes "bytes < MAX_REQUEST"
  shows "chunk_request (request2size bytes)"
  using assms by (auto simp: chunk_request_def unat_request2size)

lemma small_request:
  assumes "bytes \<le> MAX_SMALL_REQUEST"
  shows "bytes < MAX_REQUEST" "unat (request2size bytes) \<le> 240"
    "(if bytes < MIN_REQUEST then MIN_CHUNK_SIZE else pad_request bytes) = request2size bytes"
proof -
  have b: "unat bytes \<le> 232"
    using assms by (simp add: word_le_nat_alt MAX_SMALL_REQUEST_def MAX_SMALL_SIZE_def MIN_LARGE_SIZE_def
        TREEBIN_SHIFT_def size_consts push_bit_eq_mult)
  then show "bytes < MAX_REQUEST" by (simp add: less_MAX_REQUEST)
  then show "unat (request2size bytes) \<le> 240" using b by (auto simp: unat_request2size)
qed (simp add: request2size_def)

lemma large_request:
  assumes "\<not> bytes \<le> MAX_SMALL_REQUEST"
  shows "pad_request bytes = request2size bytes"
proof -
  have "\<not> bytes < MIN_REQUEST"
    using assms by (simp add: word_le_nat_alt word_less_nat_alt MAX_SMALL_REQUEST_def MAX_SMALL_SIZE_def MIN_LARGE_SIZE_def
        TREEBIN_SHIFT_def size_consts push_bit_eq_mult)
  then show ?thesis by (simp add: request2size_def)
qed

lemma large_request_size:
  assumes "\<not> bytes \<le> MAX_SMALL_REQUEST" "bytes < MAX_REQUEST"
  shows "256 \<le> unat (request2size bytes)"
proof -
  have "232 < unat bytes"
    using assms by (simp add: word_le_nat_alt MAX_SMALL_REQUEST_def MAX_SMALL_SIZE_def MIN_LARGE_SIZE_def
        TREEBIN_SHIFT_def size_consts push_bit_eq_mult)
  then show ?thesis using assms(2) by (auto simp: unat_request2size)
qed

lemma no_tree_bin:
  assumes st: "store s F" and tm: "treemap s = 0" and nb: "256 \<le> unat nb"
  shows "none_fits nb F"
proof -
  have "unat n < 256" if "(p, n) \<in> F" for p n
    using store_large_marked [OF st that] tm by (force simp: treemap_is_marked_def)
  then show ?thesis using nb by (force simp: none_fits_def word_less_nat_alt)
qed

lemma no_small_bin:
  assumes st: "store s F" and nb: "chunk_request nb" "unat nb \<le> 240"
    and bits: "drop_bit (unat (small_index nb)) (smallmap s) = 0" and tm: "treemap s = 0"
  shows "none_fits nb F"
proof -
  have "n < nb" if x: "(p, n) \<in> F" for p n
  proof (rule ccontr)
    assume "\<not> n < nb"
    then have le: "unat nb \<le> unat n" by (simp add: word_less_nat_alt)
    have n: "unat n < 256" using store_large_marked [OF st x] tm by (force simp: treemap_is_marked_def)
    note m = store_small_marked [OF st x n]
    have "unat (small_index nb) \<le> unat (small_index n)" using m(2) small_request_index(2) [OF nb] le by simp
    then have "bit (drop_bit (unat (small_index nb)) (smallmap s)) (unat (small_index n) - unat (small_index nb))"
      using m(1) by (simp add: bit_drop_bit_eq smallmap_is_marked_def and_idx2bit_neq_0)
    then show False unfolding bits by simp
  qed
  then show ?thesis by (auto simp: none_fits_def)
qed

lemma alloc_once_cases:
  assumes l: "linv s base e cs F {}" and b: "bytes < MAX_REQUEST"
  shows "(\<exists>m s'. alloc_once bytes s = ret (Some m) s' \<and> grants base e (request2size bytes) cs m s') \<or>
    alloc_once bytes s = ret None s \<and> dvsize s < request2size bytes \<and> topsize s \<le> request2size bytes \<and>
      (short F \<longrightarrow> none_fits (request2size bytes) F) \<or>
    (\<exists>s1. alloc_once bytes s = throw Memory_Corrupted s1) \<and> MAX_SMALL_REQUEST < bytes \<and> (\<exists>k. clash k F) \<and>
      \<not> none_fits (request2size bytes) F"
proof (cases "bytes \<le> MAX_SMALL_REQUEST")
  case True
  let ?nb = "request2size bytes"
  let ?bits = "drop_bit (unat (small_index ?nb)) (smallmap s)"
  note sm = small_request [OF True]
  note nb = pad_request_chunk [OF b]
  have eq: "alloc_once bytes s =
    (if ?bits AND 3 \<noteq> 0 then alloc_small_exact (small_index ?nb) ?bits s
     else if dvsize s < ?nb
     then (if ?bits \<noteq> 0 then alloc_small_next ?nb (small_index ?nb) ?bits s
           else if treemap s \<noteq> 0
           then cbind (tmalloc_small ?nb s) (\<lambda>m s. if m \<noteq> 0 then ret (Some m) s else alloc_dv_or_top ?nb s)
           else alloc_dv_or_top ?nb s)
     else alloc_dv_or_top ?nb s)"
    using True by (simp add: alloc_once_def sm(3) Let_def)
  consider (exact) "?bits AND 3 \<noteq> 0" | (nxt) "?bits AND 3 = 0" "dvsize s < ?nb" "?bits \<noteq> 0"
    | (tree) "?bits AND 3 = 0" "dvsize s < ?nb" "?bits = 0" "treemap s \<noteq> 0"
    | (rest) "alloc_once bytes s = alloc_dv_or_top ?nb s" "?nb \<le> dvsize s \<or> ?bits = 0 \<and> treemap s = 0" unfolding eq
    by (cases "?bits AND 3 = 0"; cases "dvsize s < ?nb"; cases "?bits = 0"; cases "treemap s = 0") simp_all
  then show ?thesis
  proof cases
    case exact
    then show ?thesis using alloc_small_exact_grants [OF l nb sm(2) refl exact] by (simp add: eq)
  next
    case nxt
    then show ?thesis using alloc_small_next_grants [OF l nb sm(2) nxt(2) refl nxt(1,3)] by (simp add: eq)
  next
    case tree
    obtain m s' where m: "tmalloc_small ?nb s = ret m s'" "grants base e ?nb cs m s'"
      using tmalloc_small_grants [OF l nb sm(2) tree(2,4)] by blast
    then show ?thesis using tree grants_nonzero [OF m(2)] by (simp add: eq)
  next
    case rest
    show ?thesis
      unfolding rest(1) using alloc_dv_or_top_fits [OF l nb] rest(2) no_small_bin [OF linvD(2) [OF l] nb sm(2)] by auto
  qed
next
  case False
  let ?nb = "request2size bytes"
  note nb = pad_request_chunk [OF b]
  have big: "MAX_SMALL_REQUEST < bytes" using False by simp
  have eq: "alloc_once bytes s = (if treemap s \<noteq> 0
      then cbind (tmalloc_large ?nb s) (\<lambda>m s. if m \<noteq> 0 then ret (Some m) s else alloc_dv_or_top ?nb s)
      else alloc_dv_or_top ?nb s)"
    using False b by (simp add: not_le [symmetric] alloc_once_def large_request [OF False] Let_def)
  have big': "256 \<le> unat ?nb" using large_request_size [OF False] b by simp
  show ?thesis
  proof (cases "treemap s = 0")
    case True
    then have "alloc_once bytes s = alloc_dv_or_top ?nb s" by (simp add: eq)
    moreover have "none_fits ?nb F" by (rule no_tree_bin [OF linvD(2) [OF l] True big'])
    ultimately show ?thesis using alloc_dv_or_top_fits [OF l nb] by metis
  next
    case False
    consider (ok) m s' where "tmalloc_large ?nb s = ret m s'" "grants base e ?nb cs m s'"
      | (no) "tmalloc_large ?nb s = ret 0 s" "?nb \<le> dvsize s \<or> (short F \<longrightarrow> none_fits ?nb F)"
      | (err) s1 where "tmalloc_large ?nb s = throw Memory_Corrupted s1" "\<exists>k. clash k F" "\<not> none_fits ?nb F"
      using tmalloc_large_cases [OF l nb big'] by blast
    then show ?thesis
    proof cases
      case ok
      then show ?thesis using False grants_nonzero [OF ok(2)] by (simp add: eq)
    next
      case no
      then have "alloc_once bytes s = alloc_dv_or_top ?nb s" using False by (simp add: eq)
      then show ?thesis using alloc_dv_or_top_fits [OF l nb] no(2) by (auto simp: not_le)
    next
      case err
      then show ?thesis using False big by (simp add: eq)
    qed
  qed
qed

end
