(* ===== verification/Uni_Free.thy ===== *)
theory Uni_Free
  imports Uni_Invariant
begin

text \<open>
  \<open>Free\<close> on the invariant: the chunk is merged with its free neighbours, and what results is the new
  designated victim, a part of the top chunk, or a chunk of a bin.
\<close>

unbundle bit_operations_syntax

section \<open>Merging neighbouring chunks\<close>

lemma tiled_cover:
  assumes "tiled a cs e" "cs \<noteq> []" "unat a \<le> c" "c < unat e + 16"
  shows "\<exists>x u n. (x, u, n) \<in> set cs \<and> unat x \<le> c \<and> c < unat x + unat n + 16"
  using assms
proof (induction a cs e rule: tiled.induct)
  case (2 a b u n cs e)
  have n: "unat (a + n) = unat a + unat n" "b = a" "tiled (a + n) cs e" using 2(2) by (auto simp: tiled_step)
  show ?case
  proof (cases "c < unat a + unat n + 16")
    case True
    then show ?thesis using 2(4) n(2) by (intro exI [of _ a] exI [of _ u] exI [of _ n]) simp
  next
    case False
    have "cs \<noteq> []" using False 2(5) n by auto
    then have "\<exists>x v m. (x, v, m) \<in> set cs \<and> unat x \<le> c \<and> c < unat x + unat m + 16"
      using False n by (intro 2(1) [OF n(3) _ _ 2(5)]) simp_all
    then show ?thesis by auto
  qed
qed simp

lemma outside_bins_mid:
  assumes rep: "hrep h base cs tp tsz" and aw: "away s base (unat tp + unat tsz)" and F: "F \<subseteq> fchunks cs"
    and mid: "tiled a mid e" "mid \<noteq> []" "set mid \<subseteq> set cs" "fchunks mid \<inter> F = {}"
    and c: "unat a \<le> unat c" "unat c < unat e + 16"
  shows "c \<notin> bin_cells s F"
proof -
  obtain x u n where x: "(x, u, n) \<in> set mid" "unat x \<le> unat c" "unat c < unat x + unat n + 16"
    using tiled_cover [OF mid(1,2) c] by blast
  have xcs: "(x, u, n) \<in> set cs" using x(1) mid(3) by blast
  have "(x, n) \<notin> F"
  proof
    assume xF: "(x, n) \<in> F"
    then have "(x, False, n) \<in> set cs" using F by (auto simp: fchunks_def)
    then have "u = False" using tiled_unique [of base cs tp x u n False n] xcs rep by (simp add: hrep_def)
    then have "(x, n) \<in> fchunks mid" using x(1) by (simp add: fchunks_def)
    then show False using xF mid(4) by blast
  qed
  then show ?thesis by (rule outside_bins [OF rep aw F xcs _ x(2,3)])
qed

lemma parts_merge:
  assumes p: "parts s cs F X" and cs: "fchunks cs = R \<union> M" "R \<inter> M = {}" "F \<inter> M = {}" "X \<subseteq> M"
    and cs': "fchunks cs' = R \<union> N" "R \<inter> N = {}"
    and dv: "dvset s' \<union> X' = (dvset s - M) \<union> N" "dvset s' \<inter> X' = {}" "dvsize s' = 0 \<longrightarrow> dv s' = 0"
  shows "parts s' cs' F X'"
proof -
  have "F \<union> dvset s \<union> X = R \<union> M" "F \<inter> dvset s = {}" using p cs(1) by (simp_all add: parts_def)
  then have R: "R = F \<union> (dvset s - M)" and FD: "F \<inter> dvset s = {}" using cs(2-4) by blast+
  have "fchunks cs' = F \<union> (dvset s' \<union> X')" unfolding cs'(1) dv(1) R by blast
  moreover have "F \<inter> (dvset s' \<union> X') = {}" unfolding dv(1) using FD cs'(2) R by blast
  ultimately show ?thesis using dv(2,3) by (auto simp: parts_def)
qed

text \<open>The chunks \<open>mid\<close> become one free chunk.\<close>

lemma linv_merge:
  assumes l: "linv s base e (xs @ mid @ ys) F X" and mid: "tiled base xs p" "tiled p mid q" "mid \<noteq> []" "fchunks mid \<inter> F = {}"
    and nb: "last_use True xs" "ys = (q, True, k) # zs"
    and mem: "mem s' = set_size_and_pinuse_of_free_chunk (set_head (mem s) q (head_word False True k)) p (q - p)"
    and same: "gm_addr s' = gm_addr s" "least_addr s' = least_addr s" "smallmap s' = smallmap s" "treemap s' = treemap s"
      "treebins s' = treebins s" "top_chunk s' = top_chunk s" "topsize s' = topsize s"
    and parts: "parts s' (xs @ (p, False, q - p) # ys) F X'"
  shows "linv s' base e (xs @ (p, False, q - p) # ys) F X'"
proof -
  note D = linvD [OF l]
  have F: "F \<subseteq> fchunks (xs @ mid @ ys)" using D(5) by (auto simp: parts_def)
  have sz: "p + (q - p) = q" "32 \<le> unat (q - p)" "unat (q - p) = unat q - unat p"
    using tiled_size [OF mid(2,3) unat_lt_2_64] by simp_all
  have "(q, True, k) \<in> set (xs @ mid @ ys)" using nb(2) by simp
  note wf = hrep_wf [OF D(1) this]
  have b: "unat (top_chunk s) + unat (topsize s) + 16 < 18446744073709551616" using D(1) by (simp add: hrep_def)
  have e8: "unat (p + 8) = unat p + 8" "unat (q + 8) = unat q + 8"
    using sz wf(4,7) b by (auto intro!: unat_add_8)
  show ?thesis
  proof (rule linv_meta_step [OF D(2) same(1-5)])
    show "c \<notin> bin_cells s F" if "mem s' c \<noteq> mem s c" for c
    proof (rule outside_bins_mid [OF D(1,4) F mid(2,3) _ mid(4)])
      have "c = q + 8 \<or> c = p + 8 \<or> c = q"
        using that sz(1) by (auto simp: mem set_head_def set_foot_def set_prev_foot_def
            set_size_and_pinuse_of_free_chunk_def split: if_splits)
      then show "unat p \<le> unat c" "unat c < unat q + 16" using e8 sz by auto
    qed auto
    show "hrep (mem s') base (xs @ (p, False, q - p) # ys) (top_chunk s') (topsize s')"
      unfolding same(6,7) by (rule hrep_free_one [OF D(1) mid(1-3) nb mem])
  qed (use D same parts in simp_all)
qed

text \<open>The last chunks become part of the top chunk.\<close>

lemma linv_merge_top:
  assumes l: "linv s base e (xs @ mid) F X" and mid: "tiled base xs p" "tiled p mid (top_chunk s)" "mid \<noteq> []" "fchunks mid \<inter> F = {}"
    and nb: "last_use True xs" and N: "N = topsize s + (top_chunk s - p)"
    and mem: "mem s' = set_head (mem s) p (N OR PINUSE_BIT)"
    and same: "gm_addr s' = gm_addr s" "least_addr s' = least_addr s" "smallmap s' = smallmap s" "treemap s' = treemap s"
      "treebins s' = treebins s" "top_chunk s' = p" "topsize s' = N"
    and parts: "parts s' xs F X'"
  shows "linv s' base e xs F X'"
proof -
  note D = linvD [OF l]
  have F: "F \<subseteq> fchunks (xs @ mid)" using D(5) by (auto simp: parts_def)
  note sz = tiled_size [OF mid(2,3) unat_lt_2_64]
  have le: "unat p \<le> unat (top_chunk s)" by (rule tiled_le [OF mid(2)])
  have b: "unat (top_chunk s) + unat (topsize s) + 16 < 18446744073709551616" using D(1) by (simp add: hrep_def)
  have e8: "unat (p + 8) = unat p + 8" using le b by (intro unat_add_8) simp
  have "unat N = unat (topsize s) + (unat (top_chunk s) - unat p)"
    unfolding N using sz(3) le b by (simp add: unat_offset)
  then have e': "e = unat p + unat N" using D(6) le by simp
  show ?thesis
  proof (rule linv_meta_step [OF D(2) same(1-5)])
    show "c \<notin> bin_cells s F" if "mem s' c \<noteq> mem s c" for c
    proof (rule outside_bins_mid [OF D(1,4) F mid(2,3) _ mid(4)])
      have "c = p + 8" using that by (auto simp: mem set_head_def split: if_splits)
      then show "unat p \<le> unat c" "unat c < unat (top_chunk s) + 16" using e8 le by auto
    qed auto
    show "hrep (mem s') base xs (top_chunk s') (topsize s')"
      unfolding same(6,7) mem by (rule hrep_shrink [OF D(1) mid(1-3) nb N])
  qed (use D same parts e' in simp_all)
qed


unbundle bit_operations_syntax

section \<open>The neighbours of a chunk\<close>

lemma fchunks_disjoint:
  assumes "tiled a xs p" "tiled p ys q"
  shows "fchunks xs \<inter> fchunks ys = {}"
proof -
  have False if "(x, n) \<in> fchunks xs" "(x, n) \<in> fchunks ys" for x n
    using tiled_bounds [OF assms(1), of x False n] tiled_bounds [OF assms(2), of x False n] that
    by (auto simp: fchunks_def)
  then show ?thesis by auto
qed

lemma next_head:
  assumes rep: "hrep h base (xs @ (a, True, n) # ys) tp tsz"
  shows "ys = [] \<Longrightarrow> a + n = tp \<and> head h (a + n) = head_word True False tsz"
    "ys = (c, u, m) # zs \<Longrightarrow> c = a + n \<and> head h (a + n) = head_word True u m"
proof -
  note m = hrep_mid [OF rep]
  show "ys = [] \<Longrightarrow> a + n = tp \<and> head h (a + n) = head_word True False tsz"
    using m(3) rep by (simp add: hrep_def)
  assume ys: "ys = (c, u, m) # zs"
  then have "hrep h base ((xs @ [(a, True, n)]) @ (c, u, m) # zs) tp tsz" using rep by simp
  from hrep_head(1) [OF this] show "c = a + n \<and> head h (a + n) = head_word True u m" using m(3) ys by simp
qed

text \<open>What follows from the flags of the next head.\<close>

lemma flags_of_next:
  assumes "head h q = head_word True u m" "flag_free m"
  shows "pinuse h q \<noteq> 0" "cinuse h q = 0 \<longleftrightarrow> \<not> u" "head h q AND INUSE_BITS = INUSE_BITS \<longleftrightarrow> u" "chunksize h q = m"
    "set_free_with_pinuse h p S q = set_size_and_pinuse_of_free_chunk (set_head h q (head_word False u m)) p S"
  using head_word_simps(1-4,7) [OF assms(2), of True u]
  by (auto simp: assms(1) pinuse_def cinuse_def chunksize_def set_free_with_pinuse_def clear_pinuse_def)

lemma set_head_same: "head h q = v \<Longrightarrow> set_head h q v = h"
  by (auto simp: head_def set_head_def)

section \<open>Free\<close>

text \<open>The chunk \<open>x\<close> is no longer in the hands of the client.\<close>

definition releases :: "addr \<Rightarrow> nat \<Rightarrow> uchunk list \<Rightarrow> addr \<times> u64 \<Rightarrow> mstate \<Rightarrow> bool" where
  "releases base e cs x s' \<longleftrightarrow> (\<exists>cs'. uinv s' base e cs' \<and> uchunks cs' = uchunks cs - {x})"

lemma releasesI:
  assumes "linv s' base e cs' F {}" "uchunks cs' = uchunks cs - {x}"
  shows "releases base e cs x s'"
  using assms unfolding releases_def uinv_def by blast

lemma used_without:
  assumes rep: "hrep h base (xs @ pre @ (a, True, n) # ys) tp tsz" and "uchunks pre = {}"
  shows "uchunks (xs @ pre @ (a, True, n) # ys) - {(a, n)} = uchunks xs \<union> uchunks ys"
  using hrep_other(3) [of h base "xs @ pre" a True n ys tp tsz n] rep assms(2) by auto

text \<open>A loose chunk goes to its bin at the end.\<close>

lemma free_insert_releases:
  assumes l: "linv s base e cs' F {(p, S)}" and u: "uchunks cs' = uchunks cs - {x}"
  shows "(\<exists>s'. free_insert p S s = ret () s' \<and> releases base e cs x s') \<or>
    (\<exists>s1. free_insert p S s = throw Memory_Corrupted s1) \<and> (\<exists>k. clash k F)"
proof (cases "clash S F")
  case True
  then show ?thesis using linv_insert [OF l, of p S] by (auto simp: free_insert_def insert_chunk_def)
next
  case False
  then obtain s' where "insert_chunk p S s = ret () s'" "linv s' base e cs' (insert (p, S) F) {}"
    using linv_insert [OF l, of p S] by auto
  then show ?thesis using releasesI [OF _ u] by (auto simp: free_insert_def insert_chunk_def)
qed

text \<open>
  What \<open>Free\<close> knows after the backward step: it goes on with the chunk at \<open>p\<close> of \<open>psize\<close> bytes, which are those of the
  freed chunk and, when it was free, of the chunk \<open>pre\<close> before it. That one is loose now or it is \<open>dv\<close>.
\<close>

definition merging :: "mstate \<Rightarrow> addr \<Rightarrow> nat \<Rightarrow> uchunk list \<Rightarrow> uchunk list \<Rightarrow> addr \<Rightarrow> u64 \<Rightarrow> uchunk list \<Rightarrow>
    (addr \<times> u64) set \<Rightarrow> addr \<Rightarrow> bool" where
  "merging s base e xs pre a n ys F p \<longleftrightarrow>
     linv s base e (xs @ pre @ (a, True, n) # ys) F (if p = dv s then {} else fchunks pre) \<and>
     tiled base xs p \<and> tiled p pre a \<and> last_use True xs \<and> uchunks pre = {} \<and>
     (p = dv s \<longrightarrow> fchunks pre = dvset s \<and> dvsize s \<noteq> 0)"

lemma mergingD:
  assumes "merging s base e xs pre a n ys F p"
  shows "linv s base e (xs @ pre @ (a, True, n) # ys) F (if p = dv s then {} else fchunks pre)"
    "tiled base xs p" "tiled p (pre @ [(a, True, n)]) (a + n)" "last_use True xs" "uchunks pre = {}"
    "p = dv s \<Longrightarrow> fchunks pre = dvset s" "F \<inter> fchunks pre = {}" "fchunks xs \<inter> fchunks pre = {}" "fchunks ys \<inter> fchunks pre = {}"
    "tiled (a + n) ys (top_chunk s)" "p \<noteq> dv s \<Longrightarrow> dvset s \<inter> fchunks pre = {}" "unat p < unat (a + n)" "p \<noteq> 0"
    "(p, j) \<notin> fchunks xs \<union> fchunks ys"
proof -
  have a: "linv s base e (xs @ pre @ (a, True, n) # ys) F (if p = dv s then {} else fchunks pre)"
    "tiled base xs p" "tiled p pre a" "last_use True xs" "uchunks pre = {}"
    "p = dv s \<longrightarrow> fchunks pre = dvset s \<and> dvsize s \<noteq> 0"
    using assms by (simp_all add: merging_def)
  then show "linv s base e (xs @ pre @ (a, True, n) # ys) F (if p = dv s then {} else fchunks pre)"
    "tiled base xs p" "last_use True xs" "uchunks pre = {}" "p = dv s \<Longrightarrow> fchunks pre = dvset s" by simp_all
  note D = linvD [OF a(1)]
  have rep: "hrep (mem s) base ((xs @ pre) @ (a, True, n) # ys) (top_chunk s) (topsize s)" using D(1) by simp
  note m = hrep_mid [OF rep]
  show mid: "tiled p (pre @ [(a, True, n)]) (a + n)" using a(3) m(2) unfolding tiled_append by blast
  show ys: "tiled (a + n) ys (top_chunk s)" by (rule m(3))
  show "F \<inter> fchunks pre = {}"
    using D(5) a(6) by (cases "p = dv s") (auto simp: parts_def)
  show "p \<noteq> dv s \<Longrightarrow> dvset s \<inter> fchunks pre = {}" using D(5) by (auto simp: parts_def)
  show "fchunks xs \<inter> fchunks pre = {}" by (rule fchunks_disjoint [OF a(2,3)])
  show "fchunks ys \<inter> fchunks pre = {}" using fchunks_disjoint [OF mid ys] by auto
  show lt: "unat p < unat (a + n)" using tiled_le [OF a(3)] m(4,6) by simp
  have "(p, j) \<notin> fchunks xs" using tiled_bounds [OF a(2), of p False j] by (auto simp: fchunks_def)
  moreover have "(p, j) \<notin> fchunks ys" using tiled_bounds [OF ys, of p False j] lt by (auto simp: fchunks_def)
  ultimately show "(p, j) \<notin> fchunks xs \<union> fchunks ys" by blast
  have "base \<noteq> 0" using rep by (simp add: hrep_def)
  then show "p \<noteq> 0" using tiled_le [OF a(2)] by (auto simp: unat_eq_0)
qed

lemma free_into_top:
  assumes m: "merging s base e xs pre a n [] F p" and sz: "psize = a + n - p"
  shows "\<exists>s'. free_forward p psize (a + n) s = ret () s' \<and> releases base e (xs @ pre @ [(a, True, n)]) (a, n) s'"
proof -
  note M = mergingD [OF m]
  note D = linvD [OF M(1)]
  have rep: "hrep (mem s) base ((xs @ pre) @ (a, True, n) # []) (top_chunk s) (topsize s)" using D(1) by simp
  note nh = next_head(1) [OF rep refl]
  have "8 dvd unat (topsize s)" using rep by (simp add: hrep_def)
  then have ff: "flag_free (topsize s)" by (auto simp: flag_free_iff elim!: dvdE)
  have fl: "pinuse (mem s) (a + n) \<noteq> 0" "cinuse (mem s) (a + n) = 0"
    using flags_of_next(1,2) [OF conjunct2 [OF nh] ff] by simp_all
  let ?N = "topsize s + psize"
  let ?t = "upd_mem (\<lambda>h. set_head h p (?N OR PINUSE_BIT)) (s\<lparr>topsize := ?N, top_chunk := p\<rparr>)"
  let ?s' = "if p = dv s then ?t\<lparr>dv := 0, dvsize := 0\<rparr> else ?t"
  have eq: "free_forward p psize (a + n) s = ret () ?s'"
    using fl nh M(12) by (simp add: free_forward_def ok_next_def word_less_nat_alt Let_def upd_mem_def)
  have lin: "linv ?s' base e xs F {}"
  proof (rule linv_merge_top [of s base e xs "pre @ [(a, True, n)]"])
    show "linv s base e (xs @ pre @ [(a, True, n)]) F (if p = dv s then {} else fchunks pre)" by (rule M(1))
    show "fchunks (pre @ [(a, True, n)]) \<inter> F = {}" using M(7) by auto
    show "tiled p (pre @ [(a, True, n)]) (top_chunk s)" using M(3) nh by simp
    show "?N = topsize s + (top_chunk s - p)" using nh sz by simp
    show "parts ?s' xs F {}"
    proof (rule parts_merge [OF D(5), of "fchunks xs" "fchunks pre" _ "{}"])
      show "dvset ?s' \<union> {} = dvset s - fchunks pre \<union> {}" "dvset ?s' \<inter> {} = {}"
        using M(6,11) by (auto simp: dvset_def upd_mem_def)
      show "dvsize ?s' = 0 \<longrightarrow> dv ?s' = 0" using D(5) by (simp add: parts_def upd_mem_def)
    qed (use M(7,8) in auto)
  qed (use M in \<open>simp_all add: upd_mem_def\<close>)
  have u: "uchunks xs = uchunks (xs @ pre @ [(a, True, n)]) - {(a, n)}"
    using used_without [OF D(1) M(5)] by simp
  show ?thesis using eq releasesI [OF lin u] by blast
qed

lemma free_before_used_eq:
  assumes m: "merging s base e xs pre a n ys F p" and ys: "ys = (c, True, k) # zs" and sz: "psize = a + n - p" and dv: "p \<noteq> dv s"
  shows "\<exists>s'. free_forward p psize (a + n) s = free_insert p psize s' \<and> linv s' base e (xs @ (p, False, psize) # ys) F {(p, psize)}"
proof -
  note M = mergingD [OF m]
  note D = linvD [OF M(1)]
  have rep: "hrep (mem s) base ((xs @ pre) @ (a, True, n) # ys) (top_chunk s) (topsize s)" using D(1) by simp
  have rep2: "hrep (mem s) base ((xs @ pre @ [(a, True, n)]) @ (c, True, k) # zs) (top_chunk s) (topsize s)" using D(1) ys by simp
  have nh: "c = a + n" "head (mem s) (a + n) = head_word True True k" using next_head(2) [OF rep ys] by simp_all
  note fl = flags_of_next [OF nh(2) hrep_mid(11) [OF rep2]]
  let ?s' = "upd_mem (\<lambda>h. set_free_with_pinuse h p psize (a + n)) s"
  have "free_forward p psize (a + n) s = free_insert p psize ?s'"
    using fl M(12) by (simp add: free_forward_def ok_next_def word_less_nat_alt Let_def)
  moreover have "linv ?s' base e (xs @ (p, False, psize) # ys) F {(p, psize)}"
    unfolding sz
  proof (rule linv_merge [of s base e xs "pre @ [(a, True, n)]" ys F "if p = dv s then {} else fchunks pre" p "a + n" k zs])
    show "linv s base e (xs @ (pre @ [(a, True, n)]) @ ys) F (if p = dv s then {} else fchunks pre)" using M(1) by simp
    show "fchunks (pre @ [(a, True, n)]) \<inter> F = {}" using M(7) by auto
    show "mem (upd_mem (\<lambda>h. set_free_with_pinuse h p (a + n - p) (a + n)) s) =
        set_size_and_pinuse_of_free_chunk (set_head (mem s) (a + n) (head_word False True k)) p (a + n - p)"
      using fl(5) by simp
    show "parts (upd_mem (\<lambda>h. set_free_with_pinuse h p (a + n - p) (a + n)) s) (xs @ (p, False, a + n - p) # ys) F {(p, a + n - p)}"
    proof (rule parts_merge [OF D(5), of "fchunks xs \<union> fchunks ys" "fchunks pre" _ "{(p, a + n - p)}"])
      show "(fchunks xs \<union> fchunks ys) \<inter> {(p, a + n - p)} = {}" using M(14) by simp
    qed (use M(7-9,11) dv D(5) in \<open>auto simp: dvset_def upd_mem_def parts_def\<close>)
  qed (use M ys nh in \<open>simp_all add: upd_mem_def\<close>)
  ultimately show ?thesis by blast
qed

lemma free_before_used:
  assumes m: "merging s base e xs pre a n ys F p" and ys: "ys = (c, True, k) # zs" and sz: "psize = a + n - p" and dv: "p \<noteq> dv s"
  shows "(\<exists>s'. free_forward p psize (a + n) s = ret () s' \<and> releases base e (xs @ pre @ (a, True, n) # ys) (a, n) s') \<or>
    (\<exists>s1. free_forward p psize (a + n) s = throw Memory_Corrupted s1) \<and> (\<exists>k. clash k F)"
proof -
  obtain s' where s': "free_forward p psize (a + n) s = free_insert p psize s'"
    "linv s' base e (xs @ (p, False, psize) # ys) F {(p, psize)}"
    using free_before_used_eq [OF m ys sz dv] by blast
  note M = mergingD [OF m]
  have "uchunks (xs @ (p, False, psize) # ys) = uchunks (xs @ pre @ (a, True, n) # ys) - {(a, n)}"
    using used_without [OF linvD(1) [OF M(1)] M(5)] by simp
  from free_insert_releases [OF s'(2) this] show ?thesis using s'(1) by simp
qed

text \<open>The chunk behind is free: it ends before a chunk in use.\<close>

lemma free_behind:
  assumes m: "merging s base e xs pre a n ys F p" and ys: "ys = (c, False, k) # zs"
  obtains d j ws where "zs = (d, True, j) # ws" "d = c + k" "head (mem s) d = head_word False True j" "c = a + n"
    "head (mem s) c = head_word True False k" "flag_free k" "c \<noteq> top_chunk s" "(c, k) \<in> F \<union> dvset s" "unat p < unat c"
    "tiled p (pre @ [(a, True, n), (c, False, k)]) d" "unat d = unat c + unat k" "\<And>i. (c, i) \<notin> fchunks pre \<union> fchunks xs \<union> fchunks zs"
    "\<And>i. (p, i) \<notin> fchunks xs \<union> fchunks zs"
proof -
  note M = mergingD [OF m]
  note D = linvD [OF M(1)]
  have rep: "hrep (mem s) base ((xs @ pre) @ (a, True, n) # ys) (top_chunk s) (topsize s)" using D(1) by simp
  have rep2: "hrep (mem s) base ((xs @ pre @ [(a, True, n)]) @ (c, False, k) # zs) (top_chunk s) (topsize s)" using D(1) ys by simp
  have nh: "c = a + n" "head (mem s) (a + n) = head_word True False k" using next_head(2) [OF rep ys] by simp_all
  have "spaced ((xs @ pre @ [(a, True, n)]) @ (c, False, k) # zs)" using rep2 by (simp add: hrep_def)
  from spaced_next [OF this] obtain d j ws where zs: "zs = (d, True, j) # ws" by blast
  note m2 = hrep_mid [OF rep2]
  have d: "d = c + k" using m2(3) zs by simp
  have "hrep (mem s) base ((xs @ pre @ [(a, True, n), (c, False, k)]) @ (d, True, j) # ws) (top_chunk s) (topsize s)"
    using D(1) ys zs by simp
  from hrep_head(1) [OF this] have hd: "head (mem s) d = head_word False True j" by simp
  have cF: "(c, k) \<in> F \<union> dvset s"
  proof -
    have "(c, k) \<in> fchunks (xs @ pre @ (a, True, n) # ys)" using ys by simp
    then have "(c, k) \<in> F \<union> dvset s \<union> fchunks pre" using D(5) by (auto simp: parts_def split: if_splits)
    moreover have "(c, k) \<notin> fchunks pre" using hrep_other(2) [OF rep2, of k] by simp
    ultimately show ?thesis by blast
  qed
  have "c \<noteq> top_chunk s" using m2(4,6,7) by auto
  moreover have "tiled p (pre @ [(a, True, n), (c, False, k)]) d"
    using M(3) m2(2) nh(1) d by (auto simp: tiled_append)
  moreover have "(c, i) \<notin> fchunks pre \<union> fchunks xs \<union> fchunks zs" for i using hrep_other(2) [OF rep2, of i] by simp
  moreover have "(p, i) \<notin> fchunks xs \<union> fchunks zs" for i using M(14) [of i] ys by auto
  ultimately show ?thesis using that zs d hd nh cF m2(6,11) M(12) by blast
qed

text \<open>The linv-part of all merges with the chunk behind.\<close>

lemma free_merge_next:
  assumes m: "merging s base e xs pre a n ((c, False, k) # zs) F p" and zs: "zs = (d, True, j) # ws"
    and t: "linv t base e (xs @ pre @ (a, True, n) # (c, False, k) # zs) F' X" "head (mem t) d = head_word False True j"
    and F': "fchunks pre \<inter> F' = {}" "(c, k) \<notin> F'"
    and mid: "tiled p (pre @ [(a, True, n), (c, False, k)]) d"
    and mem: "mem s' = set_size_and_pinuse_of_free_chunk (mem t) p (d - p)"
    and same: "gm_addr s' = gm_addr t" "least_addr s' = least_addr t" "smallmap s' = smallmap t" "treemap s' = treemap t"
      "treebins s' = treebins t" "top_chunk s' = top_chunk t" "topsize s' = topsize t"
    and parts: "parts s' (xs @ (p, False, d - p) # zs) F' X'"
  shows "linv s' base e (xs @ (p, False, d - p) # zs) F' X'"
    "uchunks (xs @ (p, False, d - p) # zs) = uchunks (xs @ pre @ (a, True, n) # (c, False, k) # zs) - {(a, n)}"
proof -
  note M = mergingD [OF m]
  show "linv s' base e (xs @ (p, False, d - p) # zs) F' X'"
  proof (rule linv_merge [of t base e xs "pre @ [(a, True, n), (c, False, k)]" zs F' X p d j ws])
    show "linv t base e (xs @ (pre @ [(a, True, n), (c, False, k)]) @ zs) F' X" using t(1) by simp
    show "mem s' = set_size_and_pinuse_of_free_chunk (set_head (mem t) d (head_word False True j)) p (d - p)"
      using mem set_head_same [OF t(2)] by simp
  qed (use M(2,4) mid zs F' same parts in simp_all)
  have "hrep (mem s) base (xs @ pre @ (a, True, n) # (c, False, k) # zs) (top_chunk s) (topsize s)"
    using linvD(1) [OF M(1)] .
  from used_without [OF this M(5)]
  show "uchunks (xs @ (p, False, d - p) # zs) = uchunks (xs @ pre @ (a, True, n) # (c, False, k) # zs) - {(a, n)}" by simp
qed

lemma free_before_dv:
  assumes m: "merging s base e xs pre a n ys F p" and ys: "ys = (c, False, k) # zs" and sz: "psize = a + n - p" and dv: "c = dv s"
  shows "\<exists>s'. free_forward p psize (a + n) s = ret () s' \<and> releases base e (xs @ pre @ (a, True, n) # ys) (a, n) s'"
proof -
  note M = mergingD [OF m]
  note D = linvD [OF M(1)]
  obtain d j ws where B: "zs = (d, True, j) # ws" "d = c + k" "head (mem s) d = head_word False True j" "c = a + n"
    "head (mem s) c = head_word True False k" "flag_free k" "c \<noteq> top_chunk s" "(c, k) \<in> F \<union> dvset s" "unat p < unat c"
    "tiled p (pre @ [(a, True, n), (c, False, k)]) d" "unat d = unat c + unat k" "\<And>i. (c, i) \<notin> fchunks pre \<union> fchunks xs \<union> fchunks zs"
    "\<And>i. (p, i) \<notin> fchunks xs \<union> fchunks zs" using free_behind [OF m ys] by metis
  note fl = flags_of_next [OF B(5,6)]
  have pdv: "p \<noteq> dv s" using B(9) dv by auto
  have c0: "c \<noteq> 0" using B(9) by auto
  then have dv0: "dvsize s \<noteq> 0" using D(5) dv by (auto simp: parts_def)
  have kdv: "k = dvsize s" "(c, k) \<notin> F"
  proof -
    have reg: "regular s (F \<union> dvset s)"
    proof (rule linv_regular [OF M(1)])
      fix x i assume "(x, i) \<in> F \<union> dvset s"
      then have "(x, i) \<in> fchunks (xs @ pre @ (a, True, n) # ys)" using D(5) by (auto simp: parts_def split: if_splits)
      then show "\<exists>u. (x, u, i) \<in> set (xs @ pre @ (a, True, n) # ys)" using fchunksD by fastforce
    qed
    have "(c, dvsize s) \<in> F \<union> dvset s" using dv dv0 by (simp add: dvset_def)
    then show "k = dvsize s" by (rule regular_unique [OF reg B(8)])
    then show "(c, k) \<notin> F" using D(5) dv dv0 by (auto simp: parts_def dvset_def)
  qed
  have sum: "dvsize s + psize = d - p" using B(2,4) kdv sz by simp
  let ?s' = "upd_mem (\<lambda>h. set_size_and_pinuse_of_free_chunk h p (d - p)) (s\<lparr>dvsize := d - p, dv := p\<rparr>)"
  have eq: "free_forward p psize (a + n) s = ret () ?s'"
    unfolding B(4) [symmetric] free_forward_def Let_def
    using fl(1,2) B(7,9) dv sum by (simp add: ok_next_def word_less_nat_alt)
  have nz: "d - p \<noteq> 0" using B(9,11) by auto
  have parts: "parts ?s' (xs @ (p, False, d - p) # zs) F {}"
  proof (rule parts_merge [OF D(5), of "fchunks xs \<union> fchunks zs" "insert (c, k) (fchunks pre)" _ "{(p, d - p)}"])
    show "(fchunks xs \<union> fchunks zs) \<inter> {(p, d - p)} = {}" using B(13) by simp
    show "(fchunks xs \<union> fchunks zs) \<inter> insert (c, k) (fchunks pre) = {}" using B(12) M(8,9) ys by auto
    show "F \<inter> insert (c, k) (fchunks pre) = {}" using M(7) kdv by auto
    show "dvset ?s' \<union> {} = dvset s - insert (c, k) (fchunks pre) \<union> {(p, d - p)}"
      using nz dv dv0 kdv by (simp add: dvset_def upd_mem_def)
  qed (use pdv ys nz in \<open>auto simp: upd_mem_def\<close>)
  note lin = free_merge_next [OF m [unfolded ys] B(1) M(1) [unfolded ys] B(3) _ kdv(2) B(10) _ _ _ _ _ _ _ _ parts]
  have lin1: "linv ?s' base e (xs @ (p, False, d - p) # zs) F {}"
    by (rule lin(1)) (use M(7) in \<open>auto simp: upd_mem_def\<close>)
  have "uchunks (xs @ (p, False, d - p) # zs) = uchunks (xs @ pre @ (a, True, n) # ys) - {(a, n)}"
    unfolding ys by (rule lin(2)) (use M(7) in \<open>auto simp: upd_mem_def\<close>)
  from releasesI [OF lin1 this] eq show ?thesis by blast
qed

lemma free_before_binned:
  assumes m: "merging s base e xs pre a n ys F p" and ys: "ys = (c, False, k) # zs" and sz: "psize = a + n - p" and dv: "c \<noteq> dv s"
  shows "(\<exists>s'. free_forward p psize (a + n) s = ret () s' \<and> releases base e (xs @ pre @ (a, True, n) # ys) (a, n) s') \<or>
    (\<exists>s1. free_forward p psize (a + n) s = throw Memory_Corrupted s1) \<and> (\<exists>k. clash k F)"
proof -
  note M = mergingD [OF m]
  obtain d j ws where B: "zs = (d, True, j) # ws" "d = c + k" "head (mem s) d = head_word False True j" "c = a + n"
    "head (mem s) c = head_word True False k" "flag_free k" "c \<noteq> top_chunk s" "(c, k) \<in> F \<union> dvset s" "unat p < unat c"
    "tiled p (pre @ [(a, True, n), (c, False, k)]) d" "unat d = unat c + unat k" "\<And>i. (c, i) \<notin> fchunks pre \<union> fchunks xs \<union> fchunks zs"
    "\<And>i. (p, i) \<notin> fchunks xs \<union> fchunks zs" using free_behind [OF m ys] by metis
  note fl = flags_of_next [OF B(5,6)]
  have cF: "(c, k) \<in> F" using B(8) dv by (auto simp: dvset_def split: if_splits)
  let ?X = "if p = dv s then {} else fchunks pre" and ?F = "F - {(c, k)}"
  obtain t where t: "unlink_chunk c k s = ret () t" "store t ?F" "bins_step (bin_cells s F) s t"
    using store_unlink [OF linvD(2) [OF M(1)] cF] by blast
  note same = bins_step_same [OF t(3)]
  have lt: "linv t base e (xs @ pre @ (a, True, n) # (c, False, k) # zs) ?F (insert (c, k) ?X)"
    using linv_takes [OF M(1) cF t(3,2)] ys by simp
  note D = linvD [OF lt]
  have hd: "head (mem t) d = head_word False True j"
  proof -
    have "hrep (mem t) base ((xs @ pre @ [(a, True, n), (c, False, k)]) @ (d, True, j) # ws) (top_chunk t) (topsize t)"
      using D(1) B(1) by simp
    from hrep_head(1) [OF this] show ?thesis by simp
  qed
  have sum: "psize + k = d - p" using B(2,4) sz by simp
  let ?u = "upd_mem (\<lambda>h. set_size_and_pinuse_of_free_chunk h p (d - p)) t"
  let ?v = "if p = dv t then ?u\<lparr>dvsize := d - p\<rparr> else ?u" and ?Y = "if p = dv t then {} else {(p, d - p)}"
  have eq: "free_forward p psize (a + n) s = (if p = dv t then ret () ?v else free_insert p (d - p) ?v)"
    unfolding B(4) [symmetric] free_forward_def Let_def
    using fl(1,2,4) B(7,9) dv sum t(1) by (simp add: ok_next_def word_less_nat_alt) (simp add: upd_mem_def)
  have parts: "parts ?v (xs @ (p, False, d - p) # zs) ?F ?Y"
  proof (rule parts_merge [OF D(5), of "fchunks xs \<union> fchunks zs" "insert (c, k) (fchunks pre)" _ "{(p, d - p)}"])
    show "(fchunks xs \<union> fchunks zs) \<inter> {(p, d - p)} = {}" using B(13) by simp
    show "(fchunks xs \<union> fchunks zs) \<inter> insert (c, k) (fchunks pre) = {}" using B(12) M(8,9) ys by auto
    show "?F \<inter> insert (c, k) (fchunks pre) = {}" using M(7) by auto
    have nz: "d - p \<noteq> 0" using B(9,11) by auto
    have dvt: "dvset t = dvset s" "dv t = dv s" using same(3,4) by (simp_all add: dvset_def)
    have "(c, k) \<notin> dvset s" using dv by (simp add: dvset_def)
    then show "dvset ?v \<union> ?Y = dvset t - insert (c, k) (fchunks pre) \<union> {(p, d - p)}"
      using nz M(6,11) dvt by (auto simp: dvset_def upd_mem_def split: if_splits)
    show "dvset ?v \<inter> ?Y = {}" by (simp add: dvset_def upd_mem_def)
    show "dvsize ?v = 0 \<longrightarrow> dv ?v = 0" using D(5) nz by (simp add: parts_def upd_mem_def)
  qed auto
  have F': "fchunks pre \<inter> ?F = {}" "(c, k) \<notin> ?F" using M(7) by auto
  note lin = free_merge_next [OF m [unfolded ys] B(1) lt hd F' B(10) _ _ _ _ _ _ _ _ parts]
  have lin1: "linv ?v base e (xs @ (p, False, d - p) # zs) ?F ?Y" by (rule lin(1)) (simp_all add: upd_mem_def)
  have u: "uchunks (xs @ (p, False, d - p) # zs) = uchunks (xs @ pre @ (a, True, n) # ys) - {(a, n)}"
    unfolding ys by (rule lin(2)) (simp_all add: upd_mem_def)
  show ?thesis
  proof (cases "p = dv t")
    case True
    then have "linv ?v base e (xs @ (p, False, d - p) # zs) ?F {}" using lin1 by simp
    from releasesI [OF this u] show ?thesis using eq True by auto
  next
    case False
    then have "linv ?v base e (xs @ (p, False, d - p) # zs) ?F {(p, d - p)}" using lin1 by simp
    from free_insert_releases [OF this u] show ?thesis using eq False clash_mono [of _ ?F F] by auto
  qed
qed

lemma free_forward_cases:
  assumes m: "merging s base e xs pre a n ys F p" and sz: "psize = a + n - p"
    and dv: "p = dv s \<Longrightarrow> \<forall>c k zs. ys \<noteq> (c, True, k) # zs"
  shows "(\<exists>s'. free_forward p psize (a + n) s = ret () s' \<and> releases base e (xs @ pre @ (a, True, n) # ys) (a, n) s') \<or>
    (\<exists>s1. free_forward p psize (a + n) s = throw Memory_Corrupted s1) \<and> (\<exists>k. clash k F)"
proof (cases ys)
  case Nil
  then show ?thesis using free_into_top [of s base e xs pre a n F p] m sz by auto
next
  case (Cons y zs)
  obtain c u k where y: "y = (c, u, k)" by (cases y)
  show ?thesis
  proof (cases u)
    case True
    then show ?thesis using free_before_used [OF m _ sz, of c k zs] Cons y dv by blast
  next
    case False
    then show ?thesis
      using free_before_dv [OF m _ sz, of c k zs] free_before_binned [OF m _ sz, of c k zs] Cons y by blast
  qed
qed

section \<open>The whole of \<open>Free\<close>\<close>

lemma chunk2mem_nonzero:
  assumes "hrep h base cs tp tsz" "(a, u, n) \<in> set cs"
  shows "chunk2mem a \<noteq> 0"
proof -
  note wf = hrep_wf [OF assms]
  have "unat a + unat n < 18446744073709551616" using wf(7) unat_lt_2_64 [of tp] by linarith
  then have "unat (a + 32) = unat a + 32" using wf(4) by (simp add: unat_offset)
  then show ?thesis by (auto simp: chunk2mem_def size_consts dest: arg_cong [where f = unat])
qed

text \<open>The result of \<open>free_backward\<close> and what is done with it.\<close>

definition free_rest :: "addr \<Rightarrow> (mstate, (addr \<times> u64) option) comp \<Rightarrow> (mstate, unit) comp" where
  "free_rest nxt m = cbind m (\<lambda>r s. case r of None \<Rightarrow> ret () s | Some (p, psize) \<Rightarrow> free_forward p psize nxt s)"

lemma free_rest_simps [simp]:
  "free_rest nxt (ret None s) = ret () s" "free_rest nxt (ret (Some (p, psize)) s) = free_forward p psize nxt s"
  by (simp_all add: free_rest_def)

lemma gm_free_eq:
  assumes l: "linv s base e (xs @ (a, True, n) # ys) F {}"
  shows "gm_free (chunk2mem a) s = free_rest (a + n) (free_backward a n (a + n) s)"
proof -
  note D = linvD [OF l]
  have a: "(a, True, n) \<in> set (xs @ (a, True, n) # ys)" by simp
  note wf = hrep_wf [OF D(1) a]
  have "head (mem s) a = head_word (last_use True xs) True n" by (rule hrep_head(1) [OF D(1)])
  then have "is_inuse (mem s) a" "chunksize (mem s) a = n"
    using head_word_simps(1,5) [OF wf(5)] by (simp_all add: is_inuse_def chunksize_def)
  moreover have "ok_address s a" using D(3) wf(6) by (simp add: ok_address_def word_le_nat_alt)
  ultimately show ?thesis
    using chunk2mem_nonzero [OF D(1) a]
    by (simp add: gm_free_def free_rest_def mem2chunk_def chunk2mem_def Let_def chunk_plus_offset_def)
qed

lemma not_dv:
  assumes l: "linv s base e (xs @ (a, True, n) # ys) F {}"
  shows "a \<noteq> dv s"
proof
  assume a: "a = dv s"
  note D = linvD [OF l]
  have in_cs: "(a, True, n) \<in> set (xs @ (a, True, n) # ys)" by simp
  have "dvsize s \<noteq> 0" using D(5) a hrep_wf(1) [OF D(1) in_cs] by (auto simp: parts_def)
  then have "(a, dvsize s) \<in> fchunks (xs @ (a, True, n) # ys)" using D(5) a by (auto simp: parts_def dvset_def)
  then show False using hrep_other(2) [OF D(1), of "dvsize s"] by simp
qed

lemma free_no_backward:
  assumes l: "linv s base e (xs @ (a, True, n) # ys) F {}" and u: "last_use True xs"
  shows "free_backward a n (a + n) s = ret (Some (a, n)) s \<and> merging s base e xs [] a n ys F a"
proof -
  note D = linvD [OF l]
  have a: "(a, True, n) \<in> set (xs @ (a, True, n) # ys)" by simp
  have "head (mem s) a = head_word True True n" using hrep_head(1) [OF D(1)] u by simp
  then have "pinuse (mem s) a \<noteq> 0" using head_word_simps(2) [OF hrep_wf(5) [OF D(1) a]] by (simp add: pinuse_def)
  moreover have "tiled base xs a" using hrep_mid(1) [OF D(1)] .
  ultimately show ?thesis using l u not_dv [OF l] by (simp add: free_backward_def merging_def)
qed

text \<open>The chunk before is free.\<close>

lemma before_free:
  assumes l: "linv s base e (xs @ (b, False, k) # (a, True, n) # ys) F X"
  shows "a = b + k" "prev_foot (mem s) a = k" "pinuse (mem s) a = 0" "tiled base xs b" "tiled b [(b, False, k)] a"
    "last_use True xs" "ok_address s b" "b \<noteq> 0" "n + k = a + n - b" "flag_free n"
proof -
  note D = linvD [OF l]
  note m = hrep_mid [OF D(1)]
  show ab: "a = b + k" using m(3) by simp
  show "tiled base xs b" by (rule m(1))
  show "tiled b [(b, False, k)] a" using m(2) ab by simp
  have "spaced (xs @ (b, False, k) # (a, True, n) # ys)" using D(1) by (simp add: hrep_def)
  then show "last_use True xs" by (rule spaced_prev)
  show "prev_foot (mem s) a = k" using hrep_head(2) [OF D(1)] ab by simp
  have a: "(a, True, n) \<in> set (xs @ (b, False, k) # (a, True, n) # ys)" and
    b: "(b, False, k) \<in> set (xs @ (b, False, k) # (a, True, n) # ys)" by simp_all
  show "flag_free n" by (rule hrep_wf(5) [OF D(1) a])
  have "hrep (mem s) base ((xs @ [(b, False, k)]) @ (a, True, n) # ys) (top_chunk s) (topsize s)" using D(1) by simp
  from hrep_head(1) [OF this] show "pinuse (mem s) a = 0"
    using head_word_simps(2) [OF hrep_wf(5) [OF D(1) a], of False True] by (simp add: pinuse_def)
  show "b \<noteq> 0" by (rule hrep_wf(1) [OF D(1) b])
  show "ok_address s b" using D(3) hrep_wf(6) [OF D(1) b] by (simp add: ok_address_def word_le_nat_alt)
  show "n + k = a + n - b" using ab by simp
qed

lemma free_backward_binned:
  assumes l: "linv s base e (xs @ (b, False, k) # (a, True, n) # ys) F {}" and dv: "b \<noteq> dv s"
  shows "\<exists>t. free_backward a n (a + n) s = ret (Some (b, n + k)) t \<and> merging t base e xs [(b, False, k)] a n ys (F - {(b, k)}) b \<and>
    b \<noteq> dv t"
proof -
  note B = before_free [OF l]
  note D = linvD [OF l]
  have "(b, k) \<in> F" using D(5) dv by (auto simp: parts_def dvset_def split: if_splits)
  then obtain t where t: "unlink_chunk b k s = ret () t" "store t (F - {(b, k)})" "bins_step (bin_cells s F) s t"
    using store_unlink [OF D(2)] by blast
  have lt: "linv t base e (xs @ (b, False, k) # (a, True, n) # ys) (F - {(b, k)}) {(b, k)}"
    using linv_takes [OF l \<open>(b, k) \<in> F\<close> t(3,2)] .
  have dvt: "b \<noteq> dv t" using dv bins_step_same(3) [OF t(3)] by simp
  have "a - k = b" using B(1) by simp
  then have "free_backward a n (a + n) s = ret (Some (b, n + k)) t"
    using B(2,3,7) dv t(1) by (simp add: free_backward_def chunk_minus_offset_def Let_def)
  moreover have "merging t base e xs [(b, False, k)] a n ys (F - {(b, k)}) b"
    using lt B(4-6) dvt by (simp add: merging_def)
  ultimately show ?thesis using dvt by blast
qed

lemma dv_chunk:
  assumes l: "linv s base e cs F {}" and b: "(b, False, k) \<in> set cs" "b = dv s"
  shows "dvset s = {(b, k)}" "dvsize s = k" "k \<noteq> 0" "(b, k) \<notin> F"
proof -
  note D = linvD [OF l]
  have "dvsize s \<noteq> 0" using D(5) b(2) hrep_wf(1) [OF D(1) b(1)] by (auto simp: parts_def)
  then have "(b, dvsize s) \<in> fchunks cs" using D(5) b(2) by (auto simp: parts_def dvset_def)
  then have "(b, False, dvsize s) \<in> set cs" by (simp add: fchunks_def)
  moreover have "tiled base cs (top_chunk s)" using D(1) by (simp add: hrep_def)
  ultimately show eq: "dvsize s = k" using tiled_unique b(1) by blast
  with \<open>dvsize s \<noteq> 0\<close> show "k \<noteq> 0" "dvset s = {(b, k)}" using b(2) by (simp_all add: dvset_def)
  then show "(b, k) \<notin> F" using D(5) by (auto simp: parts_def)
qed

lemma free_backward_dv:
  assumes l: "linv s base e (xs @ (b, False, k) # (a, True, n) # ys) F {}" and dv: "b = dv s" and nu: "\<forall>c m zs. ys \<noteq> (c, True, m) # zs"
  shows "free_backward a n (a + n) s = ret (Some (b, n + k)) s \<and> merging s base e xs [(b, False, k)] a n ys F b"
proof -
  note B = before_free [OF l]
  note D = linvD [OF l]
  have rep: "hrep (mem s) base ((xs @ [(b, False, k)]) @ (a, True, n) # ys) (top_chunk s) (topsize s)" using D(1) by simp
  have "head (mem s) (a + n) AND INUSE_BITS \<noteq> INUSE_BITS"
  proof (cases ys)
    case Nil
    have "8 dvd unat (topsize s)" using rep by (simp add: hrep_def)
    then have ff: "flag_free (topsize s)" by (auto simp: flag_free_iff elim!: dvdE)
    have "head (mem s) (a + n) = head_word True False (topsize s)" using next_head(1) [OF rep Nil] by blast
    from flags_of_next(3) [OF this ff] show ?thesis by simp
  next
    case (Cons y zs)
    obtain c m where y: "y = (c, False, m)" using nu Cons by (cases y) auto
    then have "(c, False, m) \<in> set (xs @ (b, False, k) # (a, True, n) # ys)" using Cons by simp
    then have ff: "flag_free m" by (rule hrep_wf(5) [OF D(1)])
    have "head (mem s) (a + n) = head_word True False m" using next_head(2) [OF rep Cons [unfolded y]] by blast
    from flags_of_next(3) [OF this ff] show ?thesis by simp
  qed
  moreover have "a - k = b" using B(1) by simp
  ultimately have "free_backward a n (a + n) s = ret (Some (b, n + k)) s"
    using B(2,3,7) dv by (simp add: free_backward_def chunk_minus_offset_def Let_def)
  moreover have "merging s base e xs [(b, False, k)] a n ys F b"
    using l B(4-6) dv dv_chunk(1-3) [OF l, of b k] by (simp add: merging_def)
  ultimately show ?thesis by blast
qed

text \<open>Before \<open>dv\<close> and behind a chunk in use: \<open>dv\<close> grows, and \<open>Free\<close> returns early.\<close>

lemma free_backward_grows_dv:
  assumes l: "linv s base e (xs @ (b, False, k) # (a, True, n) # ys) F {}" and dv: "b = dv s" and ys: "ys = (c, True, m) # zs"
  shows "\<exists>s'. free_backward a n (a + n) s = ret None s' \<and>
    releases base e (xs @ (b, False, k) # (a, True, n) # ys) (a, n) s'"
proof -
  note B = before_free [OF l]
  note D = linvD [OF l]
  have rep: "hrep (mem s) base ((xs @ [(b, False, k)]) @ (a, True, n) # ys) (top_chunk s) (topsize s)" using D(1) by simp
  have rep2: "hrep (mem s) base ((xs @ [(b, False, k), (a, True, n)]) @ (c, True, m) # zs) (top_chunk s) (topsize s)"
    using D(1) ys by simp
  have nh: "c = a + n" "head (mem s) (a + n) = head_word True True m" using next_head(2) [OF rep ys] by simp_all
  note fl = flags_of_next [OF nh(2) hrep_mid(11) [OF rep2]]
  note dvk = dv_chunk [OF l, of b k]
  let ?S = "a + n - b"
  let ?s' = "upd_mem (\<lambda>h. set_free_with_pinuse h b ?S (a + n)) (s\<lparr>dvsize := ?S\<rparr>)"
  have "a - k = b" using B(1) by simp
  then have eq: "free_backward a n (a + n) s = ret None ?s'"
    using B(2,3,7) dv fl(3) unfolding free_backward_def Let_def B(2) chunk_minus_offset_def B(9) by simp
  have mid: "tiled b [(b, False, k), (a, True, n)] (a + n)"
    using B(5) hrep_mid(2) [OF rep] tiled_append [of b "[(b, False, k)]" "[(a, True, n)]" "a + n"] by auto
  have nz: "?S \<noteq> 0" using tiled_size(1) [OF mid] by auto
  have other: "(b, i) \<notin> fchunks xs \<union> fchunks ys" for i using hrep_other(2) [OF D(1), of i] by simp
  have lin: "linv ?s' base e (xs @ (b, False, ?S) # ys) F {}"
  proof (rule linv_merge [of s base e xs "[(b, False, k), (a, True, n)]" ys F "{}" b "a + n" m zs])
    show "parts ?s' (xs @ (b, False, ?S) # ys) F {}"
    proof (rule parts_merge [OF D(5), of "fchunks xs \<union> fchunks ys" "{(b, k)}" _ "{(b, ?S)}"])
      show "dvset ?s' \<union> {} = dvset s - {(b, k)} \<union> {(b, ?S)}"
        using dvk(1) dv nz by (simp add: dvset_def upd_mem_def)
    qed (use other dvk nz dv in \<open>auto simp: upd_mem_def\<close>)
  qed (use l B mid ys nh fl(5) dvk dv in \<open>simp_all add: upd_mem_def\<close>)
  have "uchunks (xs @ (b, False, ?S) # ys) = uchunks (xs @ (b, False, k) # (a, True, n) # ys) - {(a, n)}"
    using used_without [of "mem s" base xs "[(b, False, k)]"] D(1) by simp
  from releasesI [OF lin this] eq show ?thesis by blast
qed

text \<open>A chunk between two chunks in use goes to a bin as it is, or the call throws.\<close>

lemma gm_free_alone:
  assumes l: "linv s base e (xs @ (a, True, n) # (c, True, k) # zs) F {}" and u: "last_use True xs"
  shows "if clash n F then \<exists>s1. gm_free (chunk2mem a) s = throw Memory_Corrupted s1
    else \<exists>s'. gm_free (chunk2mem a) s = ret () s' \<and>
      linv s' base e (xs @ (a, False, n) # (c, True, k) # zs) (insert (a, n) F) {}"
proof -
  note f = free_no_backward [OF l u]
  obtain s1 where s1: "free_forward a n (a + n) s = free_insert a n s1"
    "linv s1 base e (xs @ (a, False, n) # (c, True, k) # zs) F {(a, n)}"
    using free_before_used_eq [OF conjunct2 [OF f] refl, of n] not_dv [OF l] by auto
  have "gm_free (chunk2mem a) s = insert_chunk a n s1"
    using gm_free_eq [OF l] conjunct1 [OF f] s1(1) by (simp add: free_insert_def insert_chunk_def)
  then show ?thesis using linv_insert [OF s1(2), of a n] by auto
qed

lemma gm_free_cases:
  assumes l: "linv s base e cs F {}" and x: "(a, n) \<in> uchunks cs"
  shows "(\<exists>s'. gm_free (chunk2mem a) s = ret () s' \<and> releases base e cs (a, n) s') \<or>
    (\<exists>s1. gm_free (chunk2mem a) s = throw Memory_Corrupted s1) \<and> (\<exists>k. clash k F)"
proof -
  have "(a, True, n) \<in> set cs" using x by (simp add: uchunks_def)
  then obtain xs ys where cs: "cs = xs @ (a, True, n) # ys" by (meson split_list)
  note l' = l [unfolded cs]
  note eq = gm_free_eq [OF l']
  show ?thesis
  proof (cases "last_use True xs")
    case True
    note f = free_no_backward [OF l' True]
    show ?thesis
      using free_forward_cases [of s base e xs "[]" a n ys F a n] f not_dv [OF l'] by (simp add: eq cs)
  next
    case False
    then obtain xs' b k where xs: "xs = xs' @ [(b, False, k)]"
      by (cases xs rule: rev_cases) (auto simp: last_use_def)
    have cs2: "cs = xs' @ (b, False, k) # (a, True, n) # ys" using cs xs by simp
    note l2 = l [unfolded cs2]
    have psz: "n + k = a + n - b" by (rule before_free(9) [OF l2])
    consider (binned) "b \<noteq> dv s" | (dv) "b = dv s" "\<forall>c m zs. ys \<noteq> (c, True, m) # zs"
      | (grow) c m zs where "b = dv s" "ys = (c, True, m) # zs" by blast
    then show ?thesis
    proof cases
      case binned
      obtain t where t: "free_backward a n (a + n) s = ret (Some (b, n + k)) t"
        "merging t base e xs' [(b, False, k)] a n ys (F - {(b, k)}) b" "b \<noteq> dv t"
        using free_backward_binned [OF l2 binned] by blast
      show ?thesis using free_forward_cases [OF t(2) psz] t(1,3) clash_mono [of _ "F - {(b, k)}" F]
      by (simp add: eq cs2) blast
    next
      case dv
      note f = free_backward_dv [OF l2 dv]
      show ?thesis
        using free_forward_cases [OF conjunct2 [OF f] psz dv(2)] conjunct1 [OF f] by (simp add: eq cs2)
    next
      case grow
      then show ?thesis using free_backward_grows_dv [OF l2 grow] by (auto simp: eq cs2)
    qed
  qed
qed

end
