(* ===== verification/Uni_History.thy ===== *)
theory Uni_History
  imports Uni_Alloc Uni_Free
begin

text \<open>
  Histories of a \<open>UniAllocator\<close>: from a new object whose \<open>MallocState\<close> is zeroed, any sequence of \<open>Alloc\<close>,
  \<open>Free\<close> of what the client holds, and writes of the client into its chunks. The invariant of
  \<open>Uni_Invariant\<close> holds after each of them, so the chunks of the client never overlap. The theorems on
  histories are those of the locale \<open>fresh_object\<close>.
\<close>

unbundle bit_operations_syntax

section \<open>Initialisation\<close>

text \<open>A \<open>MallocState\<close> as \<open>InitOrExpand\<close> needs to find it.\<close>

definition blank :: "mstate \<Rightarrow> bool" where
  "blank s \<longleftrightarrow> smallmap s = 0 \<and> treemap s = 0 \<and> treebins s = replicate 32 0 \<and> dvsize s = 0 \<and> dv s = 0 \<and>
     top_chunk s = 0 \<and> topsize s = 0 \<and> least_addr s = 0"

text \<open>
  A segment of \<open>n\<close> bytes at \<open>p\<close> that the allocator can use: not null, aligned to 8 bytes, without wrap-around,
  and, with the word behind it that \<open>init_top\<close> writes, away from the \<open>MallocState\<close> at \<open>g\<close>.
\<close>

definition good_segment :: "addr \<Rightarrow> addr \<Rightarrow> u64 \<Rightarrow> bool" where
  "good_segment g p n \<longleftrightarrow> p \<noteq> 0 \<and> 8 dvd unat p \<and> 8 dvd unat n \<and> 32 \<le> unat n \<and> unat p + unat n + 8 < 2 ^ 64 \<and>
     unat g + 616 < 2 ^ 64 \<and> (unat p + unat n + 8 \<le> unat g + 72 \<or> unat g + 616 \<le> unat p)"

text \<open>Where the chunks are in a segment of \<open>n\<close> bytes at \<open>p\<close>: aligned to 16 bytes, less the word at the end.\<close>

definition placed :: "addr \<Rightarrow> nat \<Rightarrow> addr \<Rightarrow> u64 \<Rightarrow> bool" where
  "placed base e p n \<longleftrightarrow> unat p \<le> unat base \<and> unat base \<le> unat p + 8 \<and> e + 8 = unat p + unat n"

lemma init_bins_only_mem: "init_bins s = s\<lparr>mem := mem (init_bins s)\<rparr>"
proof -
  have "unat NSMALLBINS \<le> 32" by (simp add: NSMALLBINS_def)
  then obtain h where "fold init_bin [0..<unat NSMALLBINS] s = s\<lparr>mem := h\<rparr>" using fold_init_bin by blast
  then show ?thesis by (simp add: init_bins_fold)
qed

lemma segment_start:
  assumes g: "good_segment g p n"
  defines "d \<equiv> align_offset (chunk2mem p)"
  shows "unat d \<le> 8" "8 dvd unat d" "16 dvd unat (p + d)" "unat (p + d) = unat p + unat d"
    "unat (n - TOP_FOOT_SIZE - d) = unat n - 8 - unat d"
proof -
  have g': "8 dvd unat p" "8 dvd unat n" "32 \<le> unat n" "unat p + unat n + 8 < 18446744073709551616"
    using g by (simp_all add: good_segment_def)
  have m: "unat (chunk2mem p) = unat p + 32" using g' by (simp add: chunk2mem_def size_consts unat_offset)
  then have d: "unat d = (16 - (unat p + 32) mod 16) mod 16" unfolding d_def unat_align_offset by simp
  obtain k where k: "unat p = 8 * k" using g'(1) by (auto elim: dvdE)
  have dk: "unat d = (if even k then 0 else 8)"
    unfolding d k by (cases "even k") (auto elim!: evenE oddE)
  then show "unat d \<le> 8" "8 dvd unat d" by auto
  then show pd: "unat (p + d) = unat p + unat d" using g' by (simp add: unat_offset)
  show "16 dvd unat (p + d)" unfolding pd dk k by (auto elim!: evenE oddE)
  have t: "unat (n - TOP_FOOT_SIZE) = unat n - 8"
    using g'(3) by (subst unat_sub_noov) (simp_all add: size_consts word_le_nat_alt)
  show "unat (n - TOP_FOOT_SIZE - d) = unat n - 8 - unat d"
    using t \<open>unat d \<le> 8\<close> g'(3) by (subst unat_sub_noov) (simp_all add: word_le_nat_alt)
qed

lemma store_blank:
  assumes "smallmap s = 0" "treemap s = 0" "treebins s = replicate 32 0" "least_addr s \<noteq> 0" "unat (gm_addr s) + 616 < 18446744073709551616"
  shows "store s {}"
proof -
  have "tree_ok s (\<lambda>_. []) {}"
    using assms(2,3) by (auto simp: tree_ok_def treemap_is_marked_def treebin_at_def less_NTREEBINS)
  moreover have "small_ok (\<lambda>_. []) {}" by (simp add: small_ok_def)
  moreover have "regular s {}" using assms(4,5) by (simp add: regular_def)
  ultimately show ?thesis using small_bins_empty [OF assms(1)] assms(3) by (intro storeI) simp_all
qed

lemma init_or_expand_inv:
  assumes b: "blank (gm u)" and al: "al_alloc ops (underlying u) (increasing_size u * increasing_step u) = (p, b')"
    and g: "good_segment (gm_addr (gm u)) p (increasing_size u * increasing_step u)"
  shows "\<exists>u' base e. init_or_expand ops u = ret () u' \<and> uinv (gm u') base e [] \<and>
    placed base e p (increasing_size u * increasing_step u) \<and>
    smallmap (gm u') = 0 \<and> treemap (gm u') = 0 \<and> dvsize (gm u') = 0 \<and>
    unat (increasing_size u * increasing_step u) \<le> unat (topsize (gm u')) + 16"
proof -
  let ?n = "increasing_size u * increasing_step u"
  let ?d = "align_offset (chunk2mem p)"
  let ?s = "init_bins ((gm u)\<lparr>least_addr := p, magic := SIZE_T_ONE, release_checks := MAX_RELEASE_CHECK_RATE\<rparr>)"
  let ?t = "init_top ?s p (?n - TOP_FOOT_SIZE)"
  let ?u = "u\<lparr>underlying := b', gm := ?t\<rparr>"
  have b': "smallmap (gm u) = 0" "treemap (gm u) = 0" "treebins (gm u) = replicate 32 0" "dvsize (gm u) = 0" "dv (gm u) = 0"
    "top_chunk (gm u) = 0" "least_addr (gm u) = 0" using b by (simp_all add: blank_def)
  have g': "p \<noteq> 0" "8 dvd unat ?n" "32 \<le> unat ?n" "unat p + unat ?n + 8 < 18446744073709551616"
    "unat (gm_addr (gm u)) + 616 < 18446744073709551616"
    "unat p + unat ?n + 8 \<le> unat (gm_addr (gm u)) + 72 \<or> unat (gm_addr (gm u)) + 616 \<le> unat p"
    using g by (simp_all add: good_segment_def)
  note seg = segment_start [OF g]
  have eq: "init_or_expand ops u = ret () ?u"
    using b'(6,7) g'(1) al by (simp add: init_or_expand_def Let_def is_initialized_def)
  obtain h where s: "?s = (gm u)\<lparr>least_addr := p, magic := SIZE_T_ONE, release_checks := MAX_RELEASE_CHECK_RATE, mem := h\<rparr>"
    using init_bins_only_mem [of "(gm u)\<lparr>least_addr := p, magic := SIZE_T_ONE, release_checks := MAX_RELEASE_CHECK_RATE\<rparr>"]
    by simp
  let ?top = "p + ?d" and ?sz = "?n - TOP_FOOT_SIZE - ?d"
  have t: "top_chunk ?t = ?top" "topsize ?t = ?sz" "smallmap ?t = 0" "treemap ?t = 0" "treebins ?t = replicate 32 0"
    "least_addr ?t = p" "gm_addr ?t = gm_addr (gm u)" "dvsize ?t = 0" "dv ?t = 0"
    using b' by (simp_all add: init_top_def Let_def upd_mem_def s)
  have nz: "?sz \<noteq> 0" using seg(1,5) g'(3) by auto
  then have hd: "head (mem ?t) ?top = ?sz OR PINUSE_BIT"
    by (simp add: init_top_def Let_def upd_mem_def head_def set_head_def chunk_plus_offset_def)
  have "hrep (mem ?t) ?top [] ?top ?sz"
    using seg g' hd by (auto simp: hrep_def head_word_def unat_eq_0 [symmetric] dvd_diff_nat)
  moreover have "store ?t {}" by (rule store_blank) (use t g' in simp_all)
  moreover have "parts ?t [] {} {}" using t by (simp add: parts_def dvset_def)
  moreover have "away ?t ?top (unat ?top + unat ?sz)" using g'(3,6) seg by (auto simp: away_def t)
  moreover have "p \<le> ?top" using seg(4) by (simp add: word_le_nat_alt)
  ultimately have "linv ?t ?top (unat ?top + unat ?sz) [] {} {}" unfolding linv_def t by simp
  then have "uinv (gm ?u) ?top (unat ?top + unat ?sz) []" by (auto simp: uinv_def)
  moreover have "unat p \<le> unat ?top" "unat ?top \<le> unat p + 8" "unat ?top + unat ?sz + 8 = unat p + unat ?n" using seg g'(3) by simp_all
  moreover have "unat ?n \<le> unat ?sz + 16" using seg(1,5) by simp
  ultimately show ?thesis
    using eq t(2-4,8) unfolding placed_def by (intro exI [of _ ?u] exI [of _ ?top] exI [of _ "unat ?top + unat ?sz"] conjI) simp_all
qed

section \<open>Calls on the invariant\<close>

lemma uinv_initialized:
  assumes "uinv s base e cs"
  shows "is_initialized s"
proof -
  obtain F where l: "linv s base e cs F {}" using assms by (auto simp: uinv_def)
  then have "base \<noteq> 0" "tiled base cs (top_chunk s)" using linvD(1) by (auto simp: hrep_def)
  then have "top_chunk s \<noteq> 0" using tiled_le [of base cs "top_chunk s"] by (auto simp: unat_eq_0 [symmetric])
  then show ?thesis by (simp add: is_initialized_def)
qed

lemma uinv_dvsize:
  assumes "uinv s base e cs"
  shows "dvsize s < MAX_SIZE_T"
proof -
  have max: "MAX_SIZE_T = 18446744073709551615" by (simp add: MAX_SIZE_T_def)
  have "unat (dvsize s) < 18446744073709551615"
  proof (cases "dvsize s = 0")
    case False
    obtain F where l: "linv s base e cs F {}" using assms by (auto simp: uinv_def)
    have "(dv s, dvsize s) \<in> F \<union> dvset s \<union> {}" using False by (simp add: dvset_def)
    from linv_free_not_used [OF l this] have x: "(dv s, False, dvsize s) \<in> set cs" by auto
    have "unat (top_chunk s) + unat (topsize s) + 16 < 18446744073709551616" using linvD(1) [OF l] by (simp add: hrep_def)
    then show ?thesis using hrep_wf(7) [OF linvD(1) [OF l] x] by simp
  qed simp
  then show ?thesis unfolding max by (simp add: word_less_nat_alt)
qed

lemma uni_alloc_once:
  "alloc_once bytes (gm u) = ret (Some m) s \<Longrightarrow> uni_alloc ops bytes u = ret m (u\<lparr>gm := s\<rparr>)"
  "alloc_once bytes (gm u) = throw err s \<Longrightarrow> uni_alloc ops bytes u = throw err (u\<lparr>gm := s\<rparr>)"
  by (subst uni_alloc.simps; simp add: ret_def throw_def)+

lemma uni_alloc_lemma:
  assumes i: "uinv (gm u) base e cs" and b: "bytes < MAX_REQUEST"
  shows "(\<exists>m s'. uni_alloc ops bytes u = ret m (u\<lparr>gm := s'\<rparr>) \<and> grants base e (request2size bytes) cs m s') \<or>
    uni_alloc ops bytes u = None \<and> topsize (gm u) \<le> request2size bytes \<and>
      (short (fchunks cs) \<longrightarrow> none_fits (request2size bytes) (fchunks cs)) \<or>
    (\<exists>s'. uni_alloc ops bytes u = throw Memory_Corrupted (u\<lparr>gm := s'\<rparr>) \<and> MAX_SMALL_REQUEST < bytes \<and> treemap (gm u) \<noteq> 0 \<and>
      \<not> none_fits (request2size bytes) (fchunks cs))"
proof -
  obtain F where l: "linv (gm u) base e cs F {}" using i by (auto simp: uinv_def)
  have fc: "fchunks cs = F \<union> dvset (gm u)" using linvD(5) [OF l] unfolding parts_def by blast
  have all: "short (fchunks cs) \<longrightarrow> none_fits nb (fchunks cs)" if "short F \<longrightarrow> none_fits nb F" "dvsize (gm u) < nb" for nb
    using that unfolding fc by (auto simp: short_def none_fits_def dvset_def)
  have some: "\<not> none_fits nb (fchunks cs)" if "\<not> none_fits nb F" for nb
    using that unfolding fc by (auto simp: none_fits_def)
  show ?thesis
    using alloc_once_cases [OF l b] uni_alloc_once [of bytes u] uni_alloc_loops [of bytes u] uinv_initialized [OF i]
      clash_treemap [OF linvD(2) [OF l]] all some by blast
qed

lemma uni_alloc_too_much:
  assumes i: "uinv (gm u) base e cs" and b: "MAX_REQUEST \<le> bytes"
  shows "uni_alloc ops bytes u = None"
  using uni_alloc_oversized [OF uinv_initialized [OF i] b uinv_dvsize [OF i]] .

text \<open>The first call finds nothing and sets the segment up.\<close>

lemma alloc_once_blank:
  assumes "blank s"
  shows "alloc_once bytes s = ret None s"
proof -
  have n: "alloc_dv_or_top nb s = ret None s" if "nb \<noteq> 0" for nb
    using assms that by (intro alloc_dv_or_top_None) (auto simp: blank_def word_neq_0_conv)
  have "smallmap s = 0" "treemap s = 0" using assms by (simp_all add: blank_def)
  moreover have "pad_request bytes \<noteq> 0" if "\<not> bytes \<le> MAX_SMALL_REQUEST" "bytes < MAX_REQUEST"
    using pad_request_chunk [OF that(2)] that(1) large_request by (auto simp: chunk_request_def)
  moreover have "(if bytes < MIN_REQUEST then MIN_CHUNK_SIZE else pad_request bytes) \<noteq> 0" if "bytes \<le> MAX_SMALL_REQUEST"
    unfolding small_request(3) [OF that] using pad_request_chunk [OF small_request(1) [OF that]]
    by (auto simp: chunk_request_def)
  ultimately show ?thesis
    unfolding alloc_once_def Let_def by (auto simp: n not_le MAX_SIZE_T_def)
qed

lemma uni_alloc_blank:
  assumes b: "blank (gm u)" and i: "init_or_expand ops u = ret () u'"
  shows "uni_alloc ops bytes u = uni_alloc ops bytes u'"
  using alloc_once_blank [OF b, of bytes] i by (subst uni_alloc.simps) (simp add: ret_def)


section \<open>Writes of the client\<close>

text \<open>
  The cells the allocator leaves to the client of the payload \<open>m\<close>: the rest of its chunk, and the first word of the
  next one, which is the allocator's only while the chunk is free.
\<close>

definition own_cell :: "mstate \<Rightarrow> addr \<Rightarrow> addr \<Rightarrow> bool" where
  "own_cell s m c \<longleftrightarrow> 8 dvd unat c \<and> m \<le> c \<and> c \<le> mem2chunk m + chunksize (mem s) (mem2chunk m)"

definition poke :: "addr \<Rightarrow> u64 \<Rightarrow> 'b uni \<Rightarrow> 'b uni" where
  "poke c v u = u\<lparr>gm := upd_mem (\<lambda>h. h(c := v)) (gm u)\<rparr>"

lemma heads_poke:
  assumes "heads h pu cs"
    and "\<And>x u n. (x, u, n) \<in> set cs \<Longrightarrow> h' (x + 8) = h (x + 8) \<and> (u \<or> h' (x + n) = h (x + n))"
  shows "heads h' pu cs"
  using assms
proof (induction h pu cs rule: heads.induct)
  case (2 h pu a u n cs)
  have "h' (a + 8) = h (a + 8) \<and> (u \<or> h' (a + n) = h (a + n))" by (rule "2.prems"(2)) simp
  moreover have "heads h' u cs" by (rule "2.IH") (use "2.prems" in auto)
  ultimately show ?case using "2.prems"(1) by (auto simp: head_def prev_foot_def)
qed simp

lemma hrep_poke:
  assumes rep: "hrep h base cs tp tsz" and a: "(a, True, n) \<in> set cs"
    and c: "unat a + 32 \<le> unat c" "unat c \<le> unat a + unat n" "8 dvd unat c"
  shows "hrep (h(c := v)) base cs tp tsz"
proof -
  have r: "unat tp + unat tsz + 16 < 18446744073709551616" "heads h True cs" using rep by (simp_all add: hrep_def)
  note wa = hrep_wf [OF rep a]
  have keep: "c \<noteq> x + 8 \<and> (u \<or> c \<noteq> x + k)" if x: "(x, u, k) \<in> set cs" for x u k
  proof -
    note wx = hrep_wf [OF rep x]
    have e: "unat (x + 8) = unat x + 8" using wx(4,7) r(1) by (subst unat_add_8) simp_all
    show ?thesis
    proof (cases "(a, n) = (x, k)")
      case True
      have "u" using tiled_unique [of base cs tp a True n u k] rep a x True by (auto simp: hrep_def)
      then show ?thesis using True e c(1) by auto
    next
      case False
      have "unat a + unat n \<le> unat x \<or> unat x + unat k \<le> unat a" by (rule hrep_disjoint [OF rep a x False])
      then show ?thesis using e wx(4,8) c(1,2) by auto
    qed
  qed
  have "heads (h(c := v)) True cs" 
  proof (rule heads_poke [OF r(2)])
    fix x u k assume "(x, u, k) \<in> set cs"
    from keep [OF this] show "(h(c := v)) (x + 8) = h (x + 8) \<and> (u \<or> (h(c := v)) (x + k) = h (x + k))" by auto
  qed
  moreover have "unat (tp + 8) = unat tp + 8" using r(1) by (subst unat_add_8) simp_all
  then have "c \<noteq> tp + 8" using wa(7) c(2) by auto
  ultimately show ?thesis using rep by (auto simp: hrep_def head_def)
qed

lemma parts_same:
  assumes "parts s cs F X" "dv s' = dv s" "dvsize s' = dvsize s"
  shows "parts s' cs F X"
proof -
  have "dvset s' = dvset s" using assms(2,3) by (simp add: dvset_def)
  then show ?thesis using assms unfolding parts_def by simp
qed

lemma uinv_poke:
  assumes i: "uinv s base e cs" and a: "(a, n) \<in> uchunks cs" and c: "own_cell s (chunk2mem a) c"
  shows "uinv (upd_mem (\<lambda>h. h(c := v)) s) base e cs"
proof -
  obtain F where l: "linv s base e cs F {}" using i by (auto simp: uinv_def)
  note D = linvD [OF l]
  have x: "(a, True, n) \<in> set cs" using a by (simp add: uchunks_def)
  note wa = hrep_wf [OF D(1) x]
  have r: "unat (top_chunk s) + unat (topsize s) + 16 < 18446744073709551616" using D(1) by (simp add: hrep_def)
  have m: "unat (chunk2mem a) = unat a + 32"
    using wa(4,7) r by (simp add: chunk2mem_def size_consts unat_offset)
  have "mem2chunk (chunk2mem a) = a" by (simp add: mem2chunk_def chunk2mem_def)
  then have c': "unat a + 32 \<le> unat c" "unat c \<le> unat a + unat n" "8 dvd unat c"
    using c m wa(8) hrep_chunksize [OF D(1) x] by (simp_all add: own_cell_def word_le_nat_alt)
  have "(a, n) \<notin> F" using linv_free_not_used [OF l] a by blast
  moreover have "F \<subseteq> fchunks cs" using D(5) by (auto simp: parts_def)
  ultimately have out: "c \<notin> bin_cells s F"
    using outside_bins [OF D(1,4) _ x, of F c] c'(1,2) by simp
  let ?s = "upd_mem (\<lambda>h. h(c := v)) s"
  have "linv ?s base e cs F {}"
  proof (rule linv_meta_step [OF D(2)])
    show "hrep (mem ?s) base cs (top_chunk ?s) (topsize ?s)"
      using hrep_poke [OF D(1) x c'] by (simp add: upd_mem_def)
    show "c' \<notin> bin_cells s F" if "mem ?s c' \<noteq> mem s c'" for c'
      using out that by (auto simp: upd_mem_def split: if_splits)
    show "parts ?s cs F {}" 
      using parts_same [OF D(5), of ?s] by (simp add: upd_mem_def)
  qed (use D l in \<open>simp_all add: upd_mem_def linv_def\<close>)
  then show ?thesis by (auto simp: uinv_def)
qed


section \<open>Histories\<close>

text \<open>
  The states that calls on the object \<open>u0\<close> lead to, with the payloads the clients hold and the sizes they asked for.
  A call that throws or does not return ends a history.
\<close>

inductive uni_history :: "'b allocator_ops \<Rightarrow> 'b uni \<Rightarrow> 'b uni \<Rightarrow> (addr \<times> u64) set \<Rightarrow> bool"
  for ops :: "'b allocator_ops" and u0 :: "'b uni" where
  fresh: "uni_history ops u0 u0 {}"
| alloc: "uni_history ops u0 u L \<Longrightarrow> uni_alloc ops bytes u = ret m u' \<Longrightarrow> uni_history ops u0 u' (insert (m, bytes) L)"
| free: "uni_history ops u0 u L \<Longrightarrow> (m, bytes) \<in> L \<Longrightarrow> uni_free m u = ret () u' \<Longrightarrow>
    uni_history ops u0 u' (L - {(m, bytes)})"
| store: "uni_history ops u0 u L \<Longrightarrow> (m, bytes) \<in> L \<Longrightarrow> own_cell (gm u) m c \<Longrightarrow> uni_history ops u0 (poke c v u) L"

text \<open>The clients hold exactly the chunks in use, each large enough for the request.\<close>

definition owners :: "uchunk list \<Rightarrow> (addr \<times> u64) set \<Rightarrow> bool" where
  "owners cs L \<longleftrightarrow> inj_on fst L \<and> (\<forall>(m, b) \<in> L. b < MAX_REQUEST \<and> (\<exists>n. (mem2chunk m, n) \<in> uchunks cs \<and> fits (request2size b) n)) \<and>
     (\<forall>(a, n) \<in> uchunks cs. chunk2mem a \<in> fst ` L)"

lemma chunk_mem [simp]: "mem2chunk (chunk2mem a) = a" "chunk2mem (mem2chunk m) = m"
  by (simp_all add: mem2chunk_def chunk2mem_def)

lemma uchunks_unique:
  assumes "uinv s base e cs" "(a, n) \<in> uchunks cs" "(a, k) \<in> uchunks cs"
  shows "n = k"
proof -
  obtain F where "linv s base e cs F {}" using assms(1) by (auto simp: uinv_def)
  then have "tiled base cs (top_chunk s)" using linvD(1) by (auto simp: hrep_def)
  then show ?thesis using tiled_unique assms(2,3) by (fastforce simp: uchunks_def)
qed

lemma owners_alloc:
  assumes o: "owners cs L" and i: "uinv s' base e cs'" and b: "b < MAX_REQUEST" "fits (request2size b) n"
    and new: "(a, n) \<notin> uchunks cs" "uchunks cs' = insert (a, n) (uchunks cs)"
  shows "owners cs' (insert (chunk2mem a, b) L)"
proof -
  have "(a, k) \<notin> uchunks cs" for k using uchunks_unique [OF i, of a n k] new by auto
  then have "(chunk2mem a, k) \<notin> L" for k using o by (force simp: owners_def)
  then have "chunk2mem a \<notin> fst ` L" by force
  then show ?thesis using o b new(2) by (auto simp: owners_def)
qed

lemma owners_free:
  assumes o: "owners cs L" and i: "uinv s base e cs" and m: "(m, b) \<in> L" "(mem2chunk m, n) \<in> uchunks cs"
    and rest: "uchunks cs' = uchunks cs - {(mem2chunk m, n)}"
  shows "owners cs' (L - {(m, b)})"
proof -
  have inj: "(m, k) \<in> L \<Longrightarrow> k = b" for k using o m(1) by (force simp: owners_def inj_on_def)
  have "chunk2mem a \<in> fst ` (L - {(m, b)})" if a: "(a, k) \<in> uchunks cs" "(a, k) \<noteq> (mem2chunk m, n)" for a k
  proof -
    have "a \<noteq> mem2chunk m" using uchunks_unique [OF i a(1)] m(2) a(2) by auto
    then have "chunk2mem a \<noteq> m" by (metis chunk_mem(1))
    moreover have "chunk2mem a \<in> fst ` L" using o a(1) by (auto simp: owners_def)
    ultimately show ?thesis by force
  qed
  moreover have "inj_on fst (L - {(m, b)})" using o by (auto simp: owners_def inj_on_diff)
  moreover have "\<exists>j. (mem2chunk p, j) \<in> uchunks cs - {(mem2chunk m, n)} \<and> fits (request2size q) j \<and> q < MAX_REQUEST"
    if p: "(p, q) \<in> L" "(p, q) \<noteq> (m, b)" for p q
  proof -
    have "p \<noteq> m" using inj p by auto
    then have "mem2chunk p \<noteq> mem2chunk m" by (metis chunk_mem(2))
    then show ?thesis using o p(1) by (fastforce simp: owners_def)
  qed
  ultimately show ?thesis unfolding owners_def rest by fastforce
qed

text \<open>The invariant of histories of an object whose first segment is the \<open>n\<close> bytes at \<open>p\<close>.\<close>

definition hist_inv :: "'b uni \<Rightarrow> addr \<Rightarrow> u64 \<Rightarrow> 'b uni \<Rightarrow> (addr \<times> u64) set \<Rightarrow> bool" where
  "hist_inv u0 p n u L \<longleftrightarrow> u = u0 \<and> L = {} \<or>
     (\<exists>base e cs. uinv (gm u) base e cs \<and> owners cs L \<and> placed base e p n)"

lemma hist_invI:
  "uinv (gm u) base e cs \<Longrightarrow> owners cs L \<Longrightarrow> placed base e p n \<Longrightarrow> hist_inv u0 p n u L"
  unfolding hist_inv_def by blast

lemma alloc_keeps:
  assumes i: "uinv (gm u) base e cs" and o: "owners cs L" and run: "uni_alloc ops bytes u = ret m u'"
  shows "\<exists>cs'. uinv (gm u') base e cs' \<and> owners cs' (insert (m, bytes) L)"
proof -
  have b: "bytes < MAX_REQUEST" using uni_alloc_too_much [OF i, of bytes ops] run by (force simp: ret_def)
  have "\<exists>s'. u' = u\<lparr>gm := s'\<rparr> \<and> grants base e (request2size bytes) cs m s'"
    using uni_alloc_lemma [OF i b, of ops] run by (auto simp: ret_def throw_def)
  then obtain s' a n cs' where s': "u' = u\<lparr>gm := s'\<rparr>" "m = chunk2mem a" "fits (request2size bytes) n" "uinv s' base e cs'"
    "(a, n) \<notin> uchunks cs" "uchunks cs' = insert (a, n) (uchunks cs)" unfolding grants_def by blast
  show ?thesis using owners_alloc [OF o s'(4) b s'(3,5,6)] s'(1,2,4) by auto
qed

lemma owned_chunk:
  assumes "owners cs L" "(m, b) \<in> L"
  shows "\<exists>n. (mem2chunk m, n) \<in> uchunks cs \<and> fits (request2size b) n" "b < MAX_REQUEST"
  using assms by (auto simp: owners_def)

lemma uni_free_lemma:
  assumes i: "uinv (gm u) base e cs" and x: "(mem2chunk m, n) \<in> uchunks cs"
  shows "(\<exists>s'. uni_free m u = ret () (u\<lparr>gm := s'\<rparr>) \<and> releases base e cs (mem2chunk m, n) s') \<or>
    (\<exists>s'. uni_free m u = throw Memory_Corrupted (u\<lparr>gm := s'\<rparr>)) \<and> treemap (gm u) \<noteq> 0"
proof -
  obtain F where l: "linv (gm u) base e cs F {}" using i by (auto simp: uinv_def)
  show ?thesis
    using gm_free_cases [OF l x] clash_treemap [OF linvD(2) [OF l]] by (auto simp: uni_free_def ret_def throw_def)
qed

lemma free_keeps:
  assumes i: "uinv (gm u) base e cs" and o: "owners cs L" and m: "(m, b) \<in> L" and run: "uni_free m u = ret () u'"
  shows "\<exists>cs'. uinv (gm u') base e cs' \<and> owners cs' (L - {(m, b)})"
proof -
  obtain n where n: "(mem2chunk m, n) \<in> uchunks cs" using owned_chunk(1) [OF o m] by blast
  obtain s' cs' where s': "u' = u\<lparr>gm := s'\<rparr>" "uinv s' base e cs'" "uchunks cs' = uchunks cs - {(mem2chunk m, n)}"
    using uni_free_lemma [OF i n] run by (auto simp: releases_def ret_def throw_def)
  then show ?thesis using owners_free [OF o i m n s'(3)] by auto
qed


section \<open>Memory given back\<close>

lemma tiled_covers:
  "tiled b cs e \<Longrightarrow> unat b \<le> x \<Longrightarrow> x < unat e \<Longrightarrow> \<exists>(c, u, k) \<in> set cs. unat c \<le> x \<and> x < unat c + unat k"
proof (induction b cs e rule: tiled.induct)
  case (2 a b u n cs e)
  then show ?case by (cases "x < unat a + unat n") (auto simp: tiled_step)
qed simp

text \<open>
  The bytes of a chunk that was given back lie within one free chunk, or within \<open>top\<close>, which is larger:
  free chunks never touch.
\<close>

lemma given_back:
  assumes i: "uinv s base e cs" and i': "uinv s' base e cs'" and x: "(a, n) \<in> uchunks cs"
    and u: "uchunks cs' = uchunks cs - {(a, n)}"
  shows "n < topsize s' \<or> (\<exists>(c, k) \<in> fchunks cs'. n \<le> k)"
proof -
  obtain F where l: "linv s base e cs F {}" using i by (auto simp: uinv_def)
  obtain F' where l': "linv s' base e cs' F' {}" using i' by (auto simp: uinv_def)
  note D = linvD [OF l] and D' = linvD [OF l']
  have xs: "(a, True, n) \<in> set cs" using x by (simp add: uchunks_def)
  note w = hrep_wf [OF D(1) xs]
  have t: "tiled base cs' (top_chunk s')" "spaced cs'" using D'(1) by (simp_all add: hrep_def)
  have tz: "0 < unat (topsize s)" using D(1) by (simp add: hrep_def unat_gt_0)
  have apart: "unat a + unat n \<le> unat c \<or> unat c + unat k \<le> unat a" if "(c, True, k) \<in> set cs'" for c k
  proof -
    have "(c, k) \<in> uchunks cs'" using that by (simp add: uchunks_def)
    then have c: "(c, k) \<in> uchunks cs" "(a, n) \<noteq> (c, k)" unfolding u by auto
    have "(c, True, k) \<in> set cs" using c(1) by (simp add: uchunks_def)
    from hrep_disjoint [OF D(1) xs this c(2)] show ?thesis .
  qed
  show ?thesis
  proof (cases "unat a < unat (top_chunk s')")
    case False
    have "unat n < unat (topsize s')" using False w(7) tz D(6) D'(6) by linarith
    then show ?thesis by (simp add: word_less_nat_alt)
  next
    case True
    then obtain c v k where c: "(c, v, k) \<in> set cs'" "unat c \<le> unat a" "unat a < unat c + unat k"
      using tiled_covers [OF t(1) w(6)] by blast
    have v: "\<not> v" using apart [of c k] c w(4) by auto
    obtain xs ys where cs': "cs' = xs @ (c, False, k) # ys" using c(1) v by (auto dest: split_list)
    obtain d j zs where ys: "ys = (d, True, j) # zs" using spaced_next t(2) cs' by blast
    have "tiled (c + k) ys (top_chunk s')" "unat (c + k) = unat c + unat k" using tiled_mid(2,6) t(1) cs' by blast+
    then have "unat d = unat c + unat k" "32 \<le> unat j" using ys by auto
    then have "unat a + unat n \<le> unat c + unat k" using apart [of d j] c(3) by (auto simp: cs' ys)
    then have "n \<le> k" using c(2) by (simp add: word_le_nat_alt)
    moreover have "(c, k) \<in> fchunks cs'" by (simp add: cs')
    ultimately show ?thesis by blast
  qed
qed

text \<open>The chunks in use determine the others: between them lies one free chunk or none, and behind them \<open>top\<close>.\<close>

lemma spaced_Cons: "spaced (x # cs) \<Longrightarrow> spaced cs"
  by (cases cs) (auto simp: spaced_def successively_Cons last_use_def)

lemma uchunks_addr: "tiled a cs e \<Longrightarrow> (x, n) \<in> uchunks cs \<Longrightarrow> unat a \<le> unat x"
  using tiled_bounds [of a cs e x True n] by (auto simp: uchunks_def)

lemma uchunks_tail:
  assumes "tiled a ((a, True, n) # r) e"
  shows "uchunks r = uchunks ((a, True, n) # r) - {(a, n)}"
proof -
  have "tiled (a + n) r e" "unat (a + n) = unat a + unat n" "32 \<le> unat n" using assms by (auto simp: tiled_step)
  then have "(a, n) \<notin> uchunks r" using uchunks_addr [of "a + n" r e a n] by auto
  then show ?thesis by simp
qed

lemma no_uchunks: "spaced cs \<Longrightarrow> uchunks cs = {} \<Longrightarrow> cs = []"
  by (cases cs rule: rev_cases) (auto simp: spaced_def last_use_def split: if_splits)

lemma tiled_end: "tiled a cs e \<Longrightarrow> tiled a cs f \<longleftrightarrow> f = e"
  by (induction a cs e rule: tiled.induct) auto

lemma uchunks_determine:
  "tiled a cs e \<Longrightarrow> spaced cs \<Longrightarrow> tiled a ds f \<Longrightarrow> spaced ds \<Longrightarrow> uchunks cs = uchunks ds \<Longrightarrow> cs = ds"
proof (induction cs arbitrary: a ds)
  case Nil
  then show ?case using no_uchunks [of ds] by simp
next
  case (Cons x cs)
  obtain u n where x: "x = (a, u, n)" using Cons.prems(1) by (cases x) simp
  have cs: "tiled (a + n) cs e" "spaced cs" "unat (a + n) = unat a + unat n"
    using Cons.prems(1) spaced_Cons [OF Cons.prems(2)] by (auto simp: x tiled_step)
  have "ds \<noteq> []" using no_uchunks [OF Cons.prems(2)] Cons.prems(5) by auto
  then obtain v k ds' where ds: "ds = (a, v, k) # ds'" using Cons.prems(3) by (cases ds) auto
  have ds': "tiled (a + k) ds' f" "spaced ds'" "unat (a + k) = unat a + unat k"
    using Cons.prems(3) spaced_Cons Cons.prems(4) by (auto simp: ds tiled_step)
  have "(a, True, n) \<in> set ds" if u
  proof -
    have "(a, n) \<in> uchunks ds" using that Cons.prems(5) [symmetric] by (simp add: x)
    then show ?thesis by (simp add: uchunks_def)
  qed
  moreover have "(a, True, k) \<in> set (x # cs)" if v
  proof -
    have "(a, k) \<in> uchunks (x # cs)" using that Cons.prems(5) by (simp add: ds)
    then show ?thesis by (simp add: uchunks_def)
  qed
  ultimately have uv: "u = v \<and> (u \<longrightarrow> n = k)"
    using tiled_unique [OF Cons.prems(1), of a u n True k] tiled_unique [OF Cons.prems(3), of a v k True n] x ds by auto
  have "n = k"
  proof (cases u)
    case False
    obtain d m zs where c: "cs = (d, True, m) # zs" using spaced_next [of "[]" a n cs] Cons.prems(2) x False by auto
    obtain d' m' zs' where d: "ds' = (d', True, m') # zs'" using spaced_next [of "[]" a k ds'] Cons.prems(4) ds uv False by auto
    have a: "d = a + n" "d' = a + k" using cs(1) ds'(1) by (simp_all add: c d)
    have eq: "uchunks cs = uchunks ds'" using Cons.prems(5) uv False by (simp add: x ds)
    have "unat (a + k) \<le> unat (a + n)" by (rule uchunks_addr [OF ds'(1), of _ m]) (use eq a in \<open>auto simp: c\<close>)
    moreover have "unat (a + n) \<le> unat (a + k)" by (rule uchunks_addr [OF cs(1), of _ m']) (use eq a in \<open>auto simp: d\<close>)
    ultimately show ?thesis using cs(3) ds'(3) by (simp add: word_unat_eq_iff)
  qed (use uv in simp)
  moreover have "uchunks cs = uchunks ds'"
  proof (cases u)
    case True
    have "uchunks cs = uchunks (x # cs) - {(a, n)}" using uchunks_tail [of a n cs e] Cons.prems(1) x True by simp
    moreover have "uchunks ds' = uchunks ds - {(a, k)}" using uchunks_tail [of a k ds' f] Cons.prems(3) ds uv True by simp
    ultimately show ?thesis using Cons.prems(5) \<open>n = k\<close> by simp
  qed (use Cons.prems(5) uv in \<open>simp add: x ds\<close>)
  ultimately show ?case using Cons.IH [OF cs(1,2), of ds'] ds' uv by (simp add: x ds)
qed

lemma uinv_determined:
  assumes i: "uinv s base e cs" and i': "uinv s' base e cs'" and u: "uchunks cs' = uchunks cs"
  shows "cs' = cs \<and> top_chunk s' = top_chunk s \<and> topsize s' = topsize s"
proof -
  obtain F where l: "linv s base e cs F {}" using i by (auto simp: uinv_def)
  obtain F' where l': "linv s' base e cs' F' {}" using i' by (auto simp: uinv_def)
  note D = linvD [OF l] and D' = linvD [OF l']
  have t: "tiled base cs (top_chunk s)" "spaced cs" using D(1) by (simp_all add: hrep_def)
  have t': "tiled base cs' (top_chunk s')" "spaced cs'" using D'(1) by (simp_all add: hrep_def)
  have eq: "cs' = cs" by (rule uchunks_determine [OF t' t u])
  have "top_chunk s' = top_chunk s" using tiled_end [OF t(1)] t'(1) eq by simp
  then show ?thesis using eq D(6) D'(6) by (simp add: word_unat_eq_iff)
qed

lemma uinv_short:
  assumes "uinv s base e cs" "e < unat base + 2 ^ 40"
  shows "short (fchunks cs)"
proof -
  obtain F where l: "linv s base e cs F {}" using assms(1) by (auto simp: uinv_def)
  have "unat n < 2 ^ 40" if "(a, n) \<in> fchunks cs" for a n
  proof -
    have "(a, False, n) \<in> set cs" using that by (simp add: fchunks_def)
    note w = hrep_wf(6,7) [OF linvD(1) [OF l] this]
    then show ?thesis using assms(2) linvD(6) [OF l] by simp
  qed
  then show ?thesis by (auto simp: short_def)
qed

lemma request2size_mono:
  assumes "a \<le> b" "b < MAX_REQUEST"
  shows "request2size a \<le> request2size b"
proof -
  have "a < MAX_REQUEST" using assms by simp
  then show ?thesis using assms by (auto simp: word_le_nat_alt unat_request2size)
qed

text \<open>What a payload of the client is.\<close>

lemma payload_chunk:
  assumes i: "uinv (gm u) base e cs" and o: "owners cs L" and m: "(m, b) \<in> L"
  defines "n \<equiv> chunksize (mem (gm u)) (mem2chunk m)"
  shows "(mem2chunk m, True, n) \<in> set cs" "request2size b \<le> n" "unat n < unat (request2size b) + 32" "16 dvd unat m"
    "unat m = unat (mem2chunk m) + 32"
    "unat base \<le> unat (mem2chunk m)" "unat (mem2chunk m) + unat n < e"
proof -
  obtain k where k: "(mem2chunk m, k) \<in> uchunks cs" "fits (request2size b) k" using owned_chunk(1) [OF o m] by blast
  obtain F where l: "linv (gm u) base e cs F {}" using i by (auto simp: uinv_def)
  note D = linvD [OF l]
  have x: "(mem2chunk m, True, k) \<in> set cs" using k(1) by (simp add: uchunks_def)
  have n: "n = k" unfolding n_def by (rule hrep_chunksize [OF D(1) x])
  note w = hrep_wf [OF D(1) x]
  have r: "unat (top_chunk (gm u)) + unat (topsize (gm u)) + 16 < 18446744073709551616" "0 < unat (topsize (gm u))"
    using D(1) by (simp_all add: hrep_def unat_gt_0)
  show "(mem2chunk m, True, n) \<in> set cs" using x n by simp
  show "request2size b \<le> n" "unat n < unat (request2size b) + 32" using k(2) n by (simp_all add: fits_def)
  show "unat base \<le> unat (mem2chunk m)" by (rule w(6))
  show "unat (mem2chunk m) + unat n < e" unfolding n using w(7) D(6) r(2) by linarith
  have "unat (chunk2mem (mem2chunk m)) = unat (mem2chunk m) + 32"
    using w(4,7) r(1) by (simp add: chunk2mem_def size_consts unat_offset del: chunk_mem)
  then show e: "unat m = unat (mem2chunk m) + 32" by simp
  show "16 dvd unat m" unfolding e using w(2) by simp
qed

section \<open>What a history comes back to\<close>

text \<open>Without free chunks in the bins no bin is marked.\<close>

lemma store_empty:
  assumes "store s {}"
  shows "smallmap s = 0" "treemap s = 0"
proof -
  obtain L T where a: "small_bins s L" "small_ok L {}" "tree_ok s T {}" using storeE [OF assms] by metis
  have i: "unat (of_nat k :: u32) = k" "of_nat k < NSMALLBINS" "of_nat k < NTREEBINS" if "k < 32" for k :: nat
    using that by (simp_all add: less_NSMALLBINS less_NTREEBINS unat_of_nat)
  have "\<not> bit (smallmap s) k" if "k < 32" for k
  proof -
    have "L (of_nat k) = []" using a(2) i(2) [OF that] by (auto simp: small_ok_def neq_Nil_conv)
    then have "smallmap_is_marked s (of_nat k) = 0" using small_binsD(1) [OF a(1) i(2) [OF that]] by (simp add: bin_list_def)
    then show ?thesis 
      using i(1) [OF that] and_idx2bit_neq_0 [of "smallmap s" "of_nat k"] by (simp add: smallmap_is_marked_def)
  qed
  then show "smallmap s = 0" using bit_u32_lt [of "smallmap s"] by (auto simp: bit_eq_iff)
  have "\<not> bit (treemap s) k" if "k < 32" for k
  proof -
    have "p \<notin> set (T (of_nat k))" for p using tree_okD(2) [OF a(3) i(3) [OF that]] by auto
    then have "T (of_nat k) = []" by (cases "T (of_nat k)") auto
    then have "treemap_is_marked s (of_nat k) = 0" using tree_okD(1) [OF a(3) i(3) [OF that]] by simp
    then show ?thesis 
      using i(1) [OF that] and_idx2bit_neq_0 [of "treemap s" "of_nat k"] by (simp add: treemap_is_marked_def)
  qed
  then show "treemap s = 0" using bit_u32_lt [of "treemap s"] by (auto simp: bit_eq_iff)
qed

lemma uinv_idle:
  assumes i: "uinv s base e cs" and u: "uchunks cs = {}"
  shows "cs = [] \<and> top_chunk s = base \<and> unat base + unat (topsize s) = e \<and> smallmap s = 0 \<and> treemap s = 0 \<and> dvsize s = 0"
proof -
  obtain F where l: "linv s base e cs F {}" using i by (auto simp: uinv_def)
  note D = linvD [OF l]
  have t: "tiled base cs (top_chunk s)" "spaced cs" using D(1) by (simp_all add: hrep_def)
  have cs: "cs = []" by (rule no_uchunks [OF t(2) u])
  then have "F = {}" "dvset s = {}" using D(5) by (auto simp: parts_def)
  then show ?thesis using cs t(1) D(2,6) store_empty [of s] by (auto simp: dvset_def split: if_splits)
qed

section \<open>A new object\<close>

text \<open>What the first \<open>InitOrExpand\<close> relies on: a zeroed \<open>MallocState\<close> and a segment it can use from the underlying allocator.\<close>

locale fresh_object =
  fixes ops :: "'b allocator_ops" and u0 :: "'b uni" and p :: addr and b' :: 'b
  assumes zeroed: "blank (gm u0)"
    and segment: "al_alloc ops (underlying u0) (increasing_size u0 * increasing_step u0) = (p, b')"
    and usable: "good_segment (gm_addr (gm u0)) p (increasing_size u0 * increasing_step u0)"
begin

lemma history_inv:
  assumes "uni_history ops u0 u L"
  shows "hist_inv u0 p (increasing_size u0 * increasing_step u0) u L" (is "hist_inv _ _ ?n _ _")
  using assms
proof (induction rule: uni_history.induct)
  case fresh
  then show ?case by (simp add: hist_inv_def)
next
  case (alloc u L bytes m u')
  then consider (new) "u = u0" "L = {}" | (old) base e cs where "uinv (gm u) base e cs" "owners cs L"
      "placed base e p ?n"
    by (auto simp: hist_inv_def)
  then show ?case
  proof cases
    case new
    obtain u1 base e where u1: "init_or_expand ops u0 = ret () u1" "uinv (gm u1) base e []" "placed base e p ?n" using init_or_expand_inv [OF zeroed segment usable] by blast
    have "uni_alloc ops bytes u1 = ret m u'" using alloc(2) new(1) uni_alloc_blank [OF zeroed u1(1)] by simp
    moreover have "owners [] L" using new(2) by (simp add: owners_def)
    ultimately show ?thesis using alloc_keeps [OF u1(2)] hist_invI u1(3) by blast
  next
    case old
    then show ?thesis using alloc_keeps [OF old(1,2) alloc(2)] hist_invI by blast
  qed
next
  case (free u L m bytes u')
  then obtain base e cs where i: "uinv (gm u) base e cs" "owners cs L" "placed base e p ?n"
    by (auto simp: hist_inv_def)
  then show ?case using free_keeps [OF i(1,2) free(2,3)] hist_invI by blast
next
  case (store u L m bytes c v)
  then obtain base e cs where i: "uinv (gm u) base e cs" "owners cs L" "placed base e p ?n"
    by (auto simp: hist_inv_def)
  obtain n where n: "(mem2chunk m, n) \<in> uchunks cs" using owned_chunk(1) [OF i(2) store(2)] by blast
  have "own_cell (gm u) (chunk2mem (mem2chunk m)) c" using store(3) by simp
  from uinv_poke [OF i(1) n this] have "uinv (gm (poke c v u)) base e cs" by (simp add: poke_def)
  then show ?case using hist_invI i by blast
qed


lemma history_holds:
  assumes "uni_history ops u0 u L" and "(m, b) \<in> L"
  obtains base e cs where "uinv (gm u) base e cs" "owners cs L" "unat p \<le> unat base"
    "e + 8 = unat p + unat (increasing_size u0 * increasing_step u0)"
  using history_inv [OF assms(1)] assms(2) by (auto simp: hist_inv_def placed_def)

text \<open>When the clients have given everything back, all is as after the first \<open>InitOrExpand\<close>.\<close>

lemma idle_whole:
  assumes "uni_history ops u0 u {}" and "is_initialized (gm u)"
  shows "smallmap (gm u) = 0 \<and> treemap (gm u) = 0 \<and> dvsize (gm u) = 0 \<and> unat (top_chunk (gm u)) \<le> unat p + 8 \<and>
    unat (top_chunk (gm u)) + unat (topsize (gm u)) + 8 = unat p + unat (increasing_size u0 * increasing_step u0)"
proof -
  have "u \<noteq> u0" using assms(2) zeroed by (auto simp: blank_def is_initialized_def)
  then obtain base e cs where i: "uinv (gm u) base e cs" "owners cs {}" and pl: "placed base e p (increasing_size u0 * increasing_step u0)"
    using history_inv [OF assms(1)] by (auto simp: hist_inv_def)
  have "uchunks cs = {}" using i(2) by (auto simp: owners_def)
  from uinv_idle [OF i(1) this] pl show ?thesis by (auto simp: placed_def)
qed

lemma payloads_safe:
  assumes "uni_history ops u0 u L" and "(m, b) \<in> L"
  defines "n \<equiv> \<lambda>m. chunksize (mem (gm u)) (mem2chunk m)"
  shows "16 dvd unat m \<and> request2size b \<le> n m \<and> unat (n m) < unat (request2size b) + 32 \<and>
    cinuse (mem (gm u)) (mem2chunk m) \<noteq> 0 \<and> unat p \<le> unat (mem2chunk m) \<and>
    unat (mem2chunk m) + unat (n m) + 8 < unat p + unat (increasing_size u0 * increasing_step u0) \<and>
    (\<forall>(q, c) \<in> L. q \<noteq> m \<longrightarrow> unat (mem2chunk m) + unat (n m) \<le> unat (mem2chunk q) \<or>
       unat (mem2chunk q) + unat (n q) \<le> unat (mem2chunk m))"
proof -
  obtain base e cs where i: "uinv (gm u) base e cs" and o: "owners cs L" and b: "unat p \<le> unat base"
    "e + 8 = unat p + unat (increasing_size u0 * increasing_step u0)" by (rule history_holds [OF assms(1,2)])
  have nm: "n q = chunksize (mem (gm u)) (mem2chunk q)" for q by (simp add: n_def)
  note m = payload_chunk [OF i o assms(2), folded nm]
  obtain F where "linv (gm u) base e cs F {}" using i by (auto simp: uinv_def)
  note rep = linvD(1) [OF this]
  have "cinuse (mem (gm u)) (mem2chunk m) \<noteq> 0"
  proof -
    obtain xs ys where "cs = xs @ (mem2chunk m, True, n m) # ys" using m(1) by (meson split_list)
    then have "head (mem (gm u)) (mem2chunk m) = head_word (last_use True xs) True (n m)" using hrep_head(1) rep by blast
    then show ?thesis using hrep_wf(5) [OF rep m(1)] by (simp add: cinuse_def head_word_simps)
  qed
  moreover have "unat (mem2chunk m) + unat (n m) \<le> unat (mem2chunk q) \<or> unat (mem2chunk q) + unat (n q) \<le> unat (mem2chunk m)"
    if q: "(q, c) \<in> L" "q \<noteq> m" for q c
  proof -
    have "mem2chunk q \<noteq> mem2chunk m" using q(2) by (metis chunk_mem(2))
    then have "(mem2chunk m, n m) \<noteq> (mem2chunk q, n q)" by auto
    from hrep_disjoint [OF rep m(1) payload_chunk(1) [OF i o q(1), folded nm] this] show ?thesis .
  qed
  ultimately show ?thesis using m(2-4,6,7) b by auto
qed

lemma no_abort:
  assumes "uni_history ops u0 u L" and "(m, b) \<in> L"
  shows "((\<exists>u'. uni_free m u = ret () u' \<and> uni_history ops u0 u' (L - {(m, b)})) \<or>
      (\<exists>u'. uni_free m u = throw Memory_Corrupted u') \<and> treemap (gm u) \<noteq> 0) \<and>
    (\<forall>c err u'. uni_alloc ops c u = throw err u' \<longrightarrow>
      err = Memory_Corrupted \<and> MAX_SMALL_REQUEST < c \<and> treemap (gm u) \<noteq> 0)"
proof -
  obtain base e cs where i: "uinv (gm u) base e cs" and o: "owners cs L" by (rule history_holds [OF assms(1,2)])
  obtain n where n: "(mem2chunk m, n) \<in> uchunks cs" using owned_chunk(1) [OF o assms(2)] by blast
  have "err = Memory_Corrupted \<and> MAX_SMALL_REQUEST < c \<and> treemap (gm u) \<noteq> 0"
    if r: "uni_alloc ops c u = throw err u'" for c err u'
  proof -
    have c: "c < MAX_REQUEST" using uni_alloc_too_much [OF i, of c ops] r by (force simp: throw_def)
    show ?thesis using uni_alloc_lemma [OF i c, of ops] r by (auto simp: ret_def throw_def)
  qed
  moreover have "(\<exists>u'. uni_free m u = ret () u' \<and> uni_history ops u0 u' (L - {(m, b)})) \<or>
      (\<exists>u'. uni_free m u = throw Memory_Corrupted u') \<and> treemap (gm u) \<noteq> 0"
    using uni_free_lemma [OF i n] uni_history.free [OF assms(1,2)] by metis
  ultimately show ?thesis by blast
qed

lemma freed_available:
  assumes "uni_history ops u0 u L" and "(m, b) \<in> L"
    and small: "unat (increasing_size u0 * increasing_step u0) < 2 ^ 40" and "uni_free m u = ret () u'" and "c \<le> b"
  shows "uni_alloc ops c u' \<noteq> None"
proof
  assume none: "uni_alloc ops c u' = None"
  obtain base e cs where i: "uinv (gm u) base e cs" and o: "owners cs L" and s: "unat p \<le> unat base"
    "e + 8 = unat p + unat (increasing_size u0 * increasing_step u0)" by (rule history_holds [OF assms(1,2)])
  obtain n where n: "(mem2chunk m, n) \<in> uchunks cs" "fits (request2size b) n" "b < MAX_REQUEST"
    using owned_chunk [OF o assms(2)] by blast
  obtain s' where s': "u' = u\<lparr>gm := s'\<rparr>" "releases base e cs (mem2chunk m, n) s'"
    using uni_free_lemma [OF i n(1)] assms(4) by (auto simp: ret_def throw_def)
  then obtain cs' where c': "uinv (gm u') base e cs'" "uchunks cs' = uchunks cs - {(mem2chunk m, n)}"
    by (auto simp: releases_def)
  have le: "request2size c \<le> n" using order_trans [OF request2size_mono [OF assms(5) n(3)]] n(2) by (simp add: fits_def)
  have "c < MAX_REQUEST" using assms(5) n(3) by simp
  note none' = uni_alloc_lemma [OF c'(1) this, of ops]
  have "short (fchunks cs')" by (rule uinv_short [OF c'(1)]) (use s small in simp)
  then have "topsize (gm u') \<le> request2size c" "\<forall>x \<in> fchunks cs'. snd x < request2size c"
    using none' none by (simp_all add: ret_def throw_def none_fits_def)
  then show False using given_back [OF i c'(1) n(1) c'(2)] le by fastforce
qed

lemma top_terminates:
  assumes "uni_history ops u0 u L" and "L \<noteq> {}"
    and "bytes < MAX_REQUEST" and "request2size bytes < topsize (gm u)"
  shows "uni_alloc ops bytes u \<noteq> None \<and>
    (bytes \<le> MAX_SMALL_REQUEST \<longrightarrow> (\<exists>m u'. uni_alloc ops bytes u = ret m u' \<and> uni_history ops u0 u' (insert (m, bytes) L)))"
proof -
  obtain m b where "(m, b) \<in> L" using assms(2) by auto
  then obtain base e cs where i: "uinv (gm u) base e cs" using history_holds [OF assms(1)] by metis
  have "\<not> topsize (gm u) \<le> request2size bytes" using assms(4) by simp
  then consider (ok) m u' where "uni_alloc ops bytes u = ret m u'"
    | (err) u' where "uni_alloc ops bytes u = throw Memory_Corrupted u'" "MAX_SMALL_REQUEST < bytes"
    using uni_alloc_lemma [OF i assms(3), of ops] by metis
  then show ?thesis
  proof cases
    case ok
    then show ?thesis using uni_history.alloc [OF assms(1) ok] by (auto simp: ret_def)
  next
    case err
    then have "\<not> bytes \<le> MAX_SMALL_REQUEST" by simp
    then show ?thesis using err(1) by (simp add: throw_def)
  qed
qed

end

end
