(* ===== verification/Uni_Properties.thy ===== *)
theory Uni_Properties
  imports Uni_History
begin

text \<open>
  The properties of calls and histories of \<open>UniAllocator\<close>, with an example object for their witnesses: the calls refine
  the list of chunks, histories are safe, memory that is given back is merged and available, \<open>Alloc\<close> ends exactly when
  something is large enough, and examples of correct use that throw or destroy the heap.
\<close>

section \<open>An example\<close>

text \<open>A zeroed \<open>MallocState\<close> at 4096 over an allocator that hands out the memory at 65536.\<close>

definition example_ops :: "unit allocator_ops" where
  "example_ops = \<lparr>al_alloc = \<lambda>b n. (65536, b), al_free = \<lambda>b p. b\<rparr>"

definition example_gm :: mstate where
  "example_gm = \<lparr>smallmap = 0, treemap = 0, dvsize = 0, topsize = 0, least_addr = 0, dv = 0, top_chunk = 0, trim_check = 0,
     release_checks = 0, magic = 0, treebins = replicate 32 0, footprint = 0, max_footprint = 0, footprint_limit = 0,
     mflags = 0, extp = 0, exts = 0, gm_addr = 4096, mem = (\<lambda>_. 0)\<rparr>"

definition example_uni :: "unit uni" where
  "example_uni = uni_new example_gm () 4096 \<lparr>dev_type = CPU, dev_idx = 0\<rparr>"

lemma example_start:
  "blank (gm example_uni)"
  "al_alloc example_ops (underlying example_uni) (increasing_size example_uni * increasing_step example_uni) = (65536, ())"
  "good_segment (gm_addr (gm example_uni)) 65536 (increasing_size example_uni * increasing_step example_uni)"
  "unat (increasing_size example_uni * increasing_step example_uni) = 4096"
  by (simp_all add: example_uni_def example_gm_def example_ops_def uni_new_def blank_def good_segment_def)

interpretation example: fresh_object example_ops example_uni 65536 "()"
  by unfold_locales (rule example_start)+

text \<open>What the first \<open>Alloc\<close> leads to.\<close>

lemma alloc_once_empty:
  assumes "smallmap s = 0" "treemap s = 0" "bytes < MAX_REQUEST"
  shows "alloc_once bytes s = alloc_dv_or_top (request2size bytes) s"
proof (cases "bytes \<le> MAX_SMALL_REQUEST")
  case True
  then show ?thesis using assms(1,2) by (simp add: alloc_once_def small_request(3) Let_def)
next
  case False
  then show ?thesis using assms by (simp add: alloc_once_def large_request not_le [symmetric] Let_def)
qed

lemma alloc_dv_or_top_maps: "alloc_dv_or_top nb s = ret m s' \<Longrightarrow> treemap s' = treemap s"
  by (auto simp: alloc_dv_or_top_def Let_def upd_mem_def set_inuse_and_pinuse_def
      gm_set_size_and_pinuse_of_inuse_chunk_def split: if_splits)

lemma alloc_dv_or_top_cuts:
  assumes "alloc_dv_or_top nb s = ret m s'" "dvsize s < nb" "nb < topsize s"
  shows "topsize s' = topsize s - nb"
proof -
  have "\<not> nb \<le> dvsize s" using assms(2) by simp
  then show ?thesis
    using assms(1,3) by (auto simp: alloc_dv_or_top_def Let_def upd_mem_def gm_set_size_and_pinuse_of_inuse_chunk_def)
qed

lemma example_alloc:
  obtains u m base e cs n where "uni_alloc example_ops 24 example_uni = ret m u" "uinv (gm u) base e cs"
    "(mem2chunk m, n) \<in> uchunks cs" "treemap (gm u) = 0" "e < unat base + 2 ^ 40" "request2size 24 < topsize (gm u)"
proof -
  obtain u0 base e where u0: "init_or_expand example_ops example_uni = ret () u0" "uinv (gm u0) base e []"
      "65536 \<le> unat base" "e + 8 = 65536 + 4096" "smallmap (gm u0) = 0" "treemap (gm u0) = 0" "dvsize (gm u0) = 0"
      "4096 \<le> unat (topsize (gm u0)) + 16"
    using init_or_expand_inv [OF example_start(1-3)] example_start(4) by (auto simp: placed_def)
  have b: "(24 :: u64) < MAX_REQUEST" by (simp add: less_MAX_REQUEST)
  have r: "unat (request2size 24) = 32" using b by (simp add: unat_request2size)
  then have "\<not> topsize (gm u0) \<le> request2size 24" using u0(8) by (simp add: word_le_nat_alt)
  moreover obtain F where l: "linv (gm u0) base e [] F {}" using u0(2) by (auto simp: uinv_def)
  ultimately obtain m s where m: "alloc_once 24 (gm u0) = ret (Some m) s" "grants base e (request2size 24) [] m s"
    using alloc_once_cases [OF l b] clash_treemap [OF linvD(2) [OF l]] u0(6) by blast
  then obtain a n cs where a: "m = chunk2mem a" "uinv s base e cs" "uchunks cs = {(a, n)}"
    by (auto simp: grants_def)
  have "alloc_once 24 (gm u0) = alloc_dv_or_top (request2size 24) (gm u0)" by (rule alloc_once_empty [OF u0(5,6) b])
  then have "treemap s = 0" using alloc_dv_or_top_maps m(1) u0(6) by metis
  moreover have "request2size 24 < topsize s"
  proof -
    have top: "dvsize (gm u0) < request2size 24" "request2size 24 < topsize (gm u0)"
      using r u0(7,8) by (simp_all add: word_less_nat_alt)
    have "topsize s = topsize (gm u0) - request2size 24"
      using alloc_dv_or_top_cuts [OF _ top, of "Some m" s] \<open>alloc_once 24 (gm u0) = alloc_dv_or_top (request2size 24) (gm u0)\<close> m(1) by simp
    moreover have "unat (topsize (gm u0) - request2size 24) = unat (topsize (gm u0)) - 32"
      using top(2) r by (subst unat_sub_noov) simp_all
    ultimately show ?thesis using r u0(8) by (simp add: word_less_nat_alt)
  qed
  moreover have "uni_alloc example_ops 24 example_uni = ret m (u0\<lparr>gm := s\<rparr>)"
    using uni_alloc_blank [OF example_start(1) u0(1)] uni_alloc_once(1) [OF m(1)] by simp
  ultimately show thesis using that [of m "u0\<lparr>gm := s\<rparr>" base e cs n] a u0(3,4) by simp
qed

lemma example_history:
  obtains u m base e cs n where "uni_history example_ops example_uni u {(m, 24)}" "uinv (gm u) base e cs"
    "(mem2chunk m, n) \<in> uchunks cs" "treemap (gm u) = 0" "e < unat base + 2 ^ 40" "request2size 24 < topsize (gm u)"
proof -
  obtain u m base e cs n where a: "uni_alloc example_ops 24 example_uni = ret m u" "uinv (gm u) base e cs"
    "(mem2chunk m, n) \<in> uchunks cs" "treemap (gm u) = 0" "e < unat base + 2 ^ 40" "request2size 24 < topsize (gm u)" by (rule example_alloc)
  have "uni_history example_ops example_uni u (insert (m, 24) {})"
    by (rule uni_history.alloc [OF uni_history.fresh a(1)])
  then show thesis using that a by simp
qed

section \<open>Initialisation\<close>

text \<open>
  C16: On a zeroed \<open>MallocState\<close>, and with a segment from the underlying allocator that is not null, 8-byte
  aligned and away from the object, \<open>InitOrExpand\<close> returns and establishes the invariant of the allocator: the
  segment from \<open>base\<close>, less the word reserved at its end, is \<open>top\<close>, and all bins are empty.
\<close>

theorem init_or_expand_establishes:
  assumes "blank (gm u)" and "al_alloc ops (underlying u) (increasing_size u * increasing_step u) = (p, b')"
    and "good_segment (gm_addr (gm u)) p (increasing_size u * increasing_step u)"
  shows "\<exists>u' base e. init_or_expand ops u = ret () u' \<and> uinv (gm u') base e [] \<and>
    unat p \<le> unat base \<and> e + 8 = unat p + unat (increasing_size u * increasing_step u)"
  using init_or_expand_inv [OF assms] unfolding placed_def by blast

theorem init_or_expand_establishes_witness:
  "blank (gm example_uni) \<and>
   (\<exists>u' base e. init_or_expand example_ops example_uni = ret () u' \<and> uinv (gm u') base e [] \<and>
     65536 \<le> unat base \<and> e + 8 = 65536 + 4096)"
  using init_or_expand_establishes [OF example_start(1-3)] example_start(1,4) by simp

section \<open>Calls\<close>

text \<open>
  C3: \<open>Alloc\<close> implements its specification on the chunks of a segment below 2^40 bytes. It returns the payload of a
  chunk that was free, now in use, of at least the size \<open>request2size\<close> and less than 32 bytes more; all other chunks in
  use stay as they are. It does not return only when no free chunk and not \<open>top\<close> is large enough. It
  throws \<open>MemoryCorruptedException\<close> only on a large request while a tree bin is in use.
\<close>

theorem uni_alloc_refines:
  assumes "uinv (gm u) base e cs" and "e < unat base + 2 ^ 40" and "bytes < MAX_REQUEST"
  shows "case uni_alloc ops bytes u of
      None \<Rightarrow> topsize (gm u) \<le> request2size bytes \<and> (\<forall>(a, n) \<in> fchunks cs. n < request2size bytes)
    | Some (Normal m u') \<Rightarrow> (\<exists>n cs'. request2size bytes \<le> n \<and> unat n < unat (request2size bytes) + 32 \<and>
        uinv (gm u') base e cs' \<and> (mem2chunk m, n) \<notin> uchunks cs \<and> uchunks cs' = insert (mem2chunk m, n) (uchunks cs))
    | Some (Fault err u') \<Rightarrow> err = Memory_Corrupted \<and> MAX_SMALL_REQUEST < bytes \<and> treemap (gm u) \<noteq> 0"
proof -
  consider (got) m s' where "uni_alloc ops bytes u = ret m (u\<lparr>gm := s'\<rparr>)" "grants base e (request2size bytes) cs m s'"
    | (no) "uni_alloc ops bytes u = None" "topsize (gm u) \<le> request2size bytes" "none_fits (request2size bytes) (fchunks cs)"
    | (err) s' where "uni_alloc ops bytes u = throw Memory_Corrupted (u\<lparr>gm := s'\<rparr>)" "MAX_SMALL_REQUEST < bytes" "treemap (gm u) \<noteq> 0"
    using uni_alloc_lemma [OF assms(1,3), of ops] uinv_short [OF assms(1,2)] by metis
  then show ?thesis
  proof cases
    case got
    obtain a n cs' where "m = chunk2mem a" "fits (request2size bytes) n" "uinv s' base e cs'"
      "(a, n) \<notin> uchunks cs" "uchunks cs' = insert (a, n) (uchunks cs)" using got(2) unfolding grants_def by blast
    then show ?thesis using got(1) by (simp add: ret_def fits_def) blast
  qed (auto simp: throw_def none_fits_def)
qed

theorem uni_alloc_refines_witness:
  "\<exists>u base e cs. uinv (gm u) base e cs \<and> uchunks cs \<noteq> {} \<and>
    (case uni_alloc example_ops 100 u of
      None \<Rightarrow> topsize (gm u) \<le> request2size 100
    | Some (Normal m u') \<Rightarrow> (\<exists>n cs'. 112 \<le> n \<and> uinv (gm u') base e cs' \<and> (mem2chunk m, n) \<in> uchunks cs')
    | Some (Fault err u') \<Rightarrow> False)"
proof -
  obtain u m base e cs n where x: "uni_history example_ops example_uni u {(m, 24)}" and h: "uinv (gm u) base e cs"
    "(mem2chunk m, n) \<in> uchunks cs" "treemap (gm u) = 0" "e < unat base + 2 ^ 40" "request2size 24 < topsize (gm u)" by (rule example_history)
  have b: "(100 :: u64) < MAX_REQUEST" by (simp add: less_MAX_REQUEST)
  have r: "request2size 100 = 112" using b by (simp add: word_unat_eq_iff unat_request2size)
  show ?thesis
    using uni_alloc_refines [OF h(1,4) b, of example_ops] h(1-3)
    by (intro exI [of _ u] exI [of _ base] exI [of _ e] exI [of _ cs], cases "uni_alloc example_ops 100 u"; simp add: r split: outcome.splits)
      blast+
qed

text \<open>
  C4: \<open>Free\<close> of a chunk in use implements its specification: it returns, the chunk is not in use any more, every other
  chunk in use stays as it is and the invariant holds, whatever the neighbours are and wherever the merged chunk
  goes. The one exception is \<open>MemoryCorruptedException\<close>, thrown only while a tree bin is in use.
\<close>

theorem uni_free_refines:
  assumes "uinv (gm u) base e cs" and "(mem2chunk m, n) \<in> uchunks cs"
  shows "case uni_free m u of
      None \<Rightarrow> False
    | Some (Normal _ u') \<Rightarrow> (\<exists>cs'. uinv (gm u') base e cs' \<and> uchunks cs' = uchunks cs - {(mem2chunk m, n)})
    | Some (Fault err u') \<Rightarrow> err = Memory_Corrupted \<and> treemap (gm u) \<noteq> 0"
proof -
  consider (ok) s' where "uni_free m u = ret () (u\<lparr>gm := s'\<rparr>)" "releases base e cs (mem2chunk m, n) s'"
    | (err) s' where "uni_free m u = throw Memory_Corrupted (u\<lparr>gm := s'\<rparr>)" "treemap (gm u) \<noteq> 0"
    using uni_free_lemma [OF assms] by blast
  then show ?thesis by cases (simp_all add: ret_def throw_def releases_def)
qed

theorem uni_free_refines_witness:
  "\<exists>(u :: unit uni) base e cs m n. uinv (gm u) base e cs \<and> (mem2chunk m, n) \<in> uchunks cs \<and>
    (case uni_free m u of
      Some (Normal _ u') \<Rightarrow> (\<exists>cs'. uinv (gm u') base e cs' \<and> uchunks cs' = uchunks cs - {(mem2chunk m, n)})
    | _ \<Rightarrow> False)"
proof -
  obtain u m base e cs n where x: "uni_history example_ops example_uni u {(m, 24)}" and h: "uinv (gm u) base e cs"
    "(mem2chunk m, n) \<in> uchunks cs" "treemap (gm u) = 0" "e < unat base + 2 ^ 40" "request2size 24 < topsize (gm u)" by (rule example_history)
  show ?thesis
    using uni_free_refines [OF h(1,2)] h
    by (intro exI [of _ u] exI [of _ base] exI [of _ e] exI [of _ cs] exI [of _ m] exI [of _ n], cases "uni_free m u")
      (simp_all split: outcome.splits)
qed

section \<open>Histories\<close>

text \<open>
  C1: After any sequence of \<open>Alloc\<close>s, \<open>Free\<close>s of what the clients hold and writes of the clients within their chunks, every
  payload is 16-byte aligned, its chunk is marked in use, has the size that \<open>request2size\<close> computes (or less than 32
  bytes more) and lies in the segment the underlying allocator gave, and the chunks of two payloads never overlap. It is
  the chunks that are apart: the bytes that were asked for can reach beyond them (\<open>requested_bytes_reach_next_head\<close>).
\<close>

theorem uni_histories_are_safe:
  assumes "blank (gm u0)" and "al_alloc ops (underlying u0) (increasing_size u0 * increasing_step u0) = (p, b')"
    and "good_segment (gm_addr (gm u0)) p (increasing_size u0 * increasing_step u0)"
    and "uni_history ops u0 u L" and "(m, b) \<in> L"
  defines "n \<equiv> \<lambda>m. chunksize (mem (gm u)) (mem2chunk m)"
  shows "16 dvd unat m \<and> request2size b \<le> n m \<and> unat (n m) < unat (request2size b) + 32 \<and>
    cinuse (mem (gm u)) (mem2chunk m) \<noteq> 0 \<and> unat p \<le> unat (mem2chunk m) \<and>
    unat (mem2chunk m) + unat (n m) + 8 < unat p + unat (increasing_size u0 * increasing_step u0) \<and>
    (\<forall>(q, c) \<in> L. q \<noteq> m \<longrightarrow> unat (mem2chunk m) + unat (n m) \<le> unat (mem2chunk q) \<or>
       unat (mem2chunk q) + unat (n q) \<le> unat (mem2chunk m))"
  unfolding n_def by (rule fresh_object.payloads_safe [OF fresh_object.intro [OF assms(1-3)] assms(4,5)])

theorem uni_histories_are_safe_witness:
  "\<exists>u m. uni_history example_ops example_uni u {(m, 24)} \<and> 16 dvd unat m \<and>
    cinuse (mem (gm u)) (mem2chunk m) \<noteq> 0 \<and> 65536 \<le> unat (mem2chunk m)"
proof -
  obtain u m base e cs n where h: "uni_history example_ops example_uni u {(m, 24)}" and x: "uinv (gm u) base e cs"
    "(mem2chunk m, n) \<in> uchunks cs" "treemap (gm u) = 0" "e < unat base + 2 ^ 40" "request2size 24 < topsize (gm u)" by (rule example_history)
  show ?thesis
    using uni_histories_are_safe [OF example_start(1-3) h, of m 24] h by (intro exI [of _ u] exI [of _ m]) simp
qed

text \<open>
  C12: In every history \<open>Free\<close> of a payload returns and leads to the history without it. The one exception is
  \<open>MemoryCorruptedException\<close>, thrown only while a tree bin is in use. \<open>Alloc\<close> of any size never raises anything else.
\<close>

theorem uni_histories_never_abort:
  assumes "blank (gm u0)" and "al_alloc ops (underlying u0) (increasing_size u0 * increasing_step u0) = (p, b')"
    and "good_segment (gm_addr (gm u0)) p (increasing_size u0 * increasing_step u0)"
    and "uni_history ops u0 u L" and "(m, b) \<in> L"
  shows "((\<exists>u'. uni_free m u = ret () u' \<and> uni_history ops u0 u' (L - {(m, b)})) \<or>
      (\<exists>u'. uni_free m u = throw Memory_Corrupted u') \<and> treemap (gm u) \<noteq> 0) \<and>
    (\<forall>c err u'. uni_alloc ops c u = throw err u' \<longrightarrow>
      err = Memory_Corrupted \<and> MAX_SMALL_REQUEST < c \<and> treemap (gm u) \<noteq> 0)"
  by (rule fresh_object.no_abort [OF fresh_object.intro [OF assms(1-3)] assms(4,5)])

theorem uni_histories_never_abort_witness:
  "\<exists>u m u'. uni_history example_ops example_uni u {(m, 24)} \<and> uni_free m u = ret () u' \<and> uni_history example_ops example_uni u' {}"
proof -
  obtain u m base e cs n where h: "uni_history example_ops example_uni u {(m, 24)}" and x: "uinv (gm u) base e cs"
    "(mem2chunk m, n) \<in> uchunks cs" "treemap (gm u) = 0" "e < unat base + 2 ^ 40" "request2size 24 < topsize (gm u)" by (rule example_history)
  obtain u' where "uni_free m u = ret () u'" "uni_history example_ops example_uni u' ({(m, 24)} - {(m, 24)})"
    using uni_histories_never_abort [OF example_start(1-3) h, of m 24] x(3) by blast
  then show ?thesis using h by auto
qed

section \<open>Termination\<close>

text \<open>
  C5: What was given back can be had again. In a segment below 2^40 bytes, when \<open>Free\<close> of a payload has returned, then
  \<open>Alloc\<close> of as many bytes or fewer ends: the retry loop of \<open>Alloc\<close>, which has no other exit, is not entered,
  since the merged chunk lies in a bin, in \<open>dv\<close> or in \<open>top\<close>, where \<open>Alloc\<close> finds it or another one.
\<close>

theorem freed_memory_is_available:
  assumes "blank (gm u0)" and "al_alloc ops (underlying u0) (increasing_size u0 * increasing_step u0) = (p, b')"
    and "good_segment (gm_addr (gm u0)) p (increasing_size u0 * increasing_step u0)"
    and "uni_history ops u0 u L" and "(m, b) \<in> L"
    and small: "unat (increasing_size u0 * increasing_step u0) < 2 ^ 40" and "uni_free m u = ret () u'" and "c \<le> b"
  shows "uni_alloc ops c u' \<noteq> None"
  by (rule fresh_object.freed_available [OF fresh_object.intro [OF assms(1-3)] assms(4-8)])

theorem freed_memory_is_available_witness:
  "\<exists>u m u'. uni_history example_ops example_uni u {(m, 24)} \<and> uni_free m u = ret () u' \<and> uni_alloc example_ops 24 u' \<noteq> None"
proof -
  obtain u m base e cs n where h: "uni_history example_ops example_uni u {(m, 24)}" and x: "uinv (gm u) base e cs"
    "(mem2chunk m, n) \<in> uchunks cs" "treemap (gm u) = 0" "e < unat base + 2 ^ 40" "request2size 24 < topsize (gm u)" by (rule example_history)
  obtain u' where u': "uni_free m u = ret () u'" using uni_free_lemma [OF x(1,2)] x(3) by auto
  have "uni_alloc example_ops 24 u' \<noteq> None"
    by (rule freed_memory_is_available [OF example_start(1-3) h _ _ u', of 24]) (simp_all add: example_start(4))
  then show ?thesis using h u' by blast
qed

text \<open>
  As long as \<open>top\<close> is larger than the chunk a request needs, \<open>Alloc\<close> ends; a small request (at most 232 bytes)
  also succeeds: it returns a payload, and so do all its steps.
\<close>

lemma alloc_from_top_terminates:
  assumes "blank (gm u0)" and "al_alloc ops (underlying u0) (increasing_size u0 * increasing_step u0) = (p, b')"
    and "good_segment (gm_addr (gm u0)) p (increasing_size u0 * increasing_step u0)"
    and "uni_history ops u0 u L" and "L \<noteq> {}"
    and "bytes < MAX_REQUEST" and "request2size bytes < topsize (gm u)"
  shows "uni_alloc ops bytes u \<noteq> None \<and>
    (bytes \<le> MAX_SMALL_REQUEST \<longrightarrow> (\<exists>m u'. uni_alloc ops bytes u = ret m u' \<and> uni_history ops u0 u' (insert (m, bytes) L)))"
  by (rule fresh_object.top_terminates [OF fresh_object.intro [OF assms(1-3)] assms(4-7)])

section \<open>Correct use that throws\<close>

text \<open>Requests that are served from \<open>top\<close>, one after the other: all bins stay empty.\<close>

definition unbinned :: "mstate \<Rightarrow> addr \<Rightarrow> nat \<Rightarrow> uchunk list \<Rightarrow> bool" where
  "unbinned s base e cs \<longleftrightarrow> linv s base e cs {} {} \<and> smallmap s = 0 \<and> treemap s = 0 \<and> dvsize s = 0"

lemma unbinned_alloc:
  assumes v: "unbinned (gm u) base e cs" and b: "bytes < MAX_REQUEST" and r: "request2size bytes = nb" "nb < topsize (gm u)"
  shows "\<exists>u'. uni_alloc ops bytes u = ret (chunk2mem (top_chunk (gm u))) u' \<and>
    unbinned (gm u') base e (cs @ [(top_chunk (gm u), True, nb)]) \<and> unat (topsize (gm u')) = unat (topsize (gm u)) - unat nb"
proof -
  let ?s = "gm u"
  have v': "linv ?s base e cs {} {}" "smallmap ?s = 0" "treemap ?s = 0" "dvsize ?s = 0" using v by (simp_all add: unbinned_def)
  have nb: "chunk_request nb" using pad_request_chunk [OF b] r(1) by simp
  then have "dvsize ?s < nb" using v'(4) by (auto simp: chunk_request_def word_less_nat_alt)
  from alloc_top [OF v'(1) nb this r(2)] obtain s' where s': "alloc_dv_or_top nb ?s = ret (Some (chunk2mem (top_chunk ?s))) s'"
    "linv s' base e (cs @ [(top_chunk ?s, True, nb)]) {} {}" "smallmap s' = 0" "treemap s' = 0" "dvsize s' = 0"
    "topsize s' = topsize ?s - nb" using v'(2-4) by auto
  have "alloc_once bytes ?s = ret (Some (chunk2mem (top_chunk ?s))) s'"
    using alloc_once_empty [OF v'(2,3) b] s'(1) r(1) by simp
  from uni_alloc_once(1) [OF this] have "uni_alloc ops bytes u = ret (chunk2mem (top_chunk ?s)) (u\<lparr>gm := s'\<rparr>)" .
  moreover have "unbinned s' base e (cs @ [(top_chunk ?s, True, nb)])" using s' by (simp add: unbinned_def)
  moreover have "unat (topsize s') = unat (topsize ?s) - unat nb"
    using r(2) unfolding s'(6) by (intro unat_sub_noov) simp
  ultimately show ?thesis by (intro exI [of _ "u\<lparr>gm := s'\<rparr>"]) simp
qed

lemma unbinned_start:
  obtains u base e where "init_or_expand example_ops example_uni = ret () u" "unbinned (gm u) base e []"
    "4080 \<le> unat (topsize (gm u))"
proof -
  obtain u base e where u: "init_or_expand example_ops example_uni = ret () u" "uinv (gm u) base e []"
      "smallmap (gm u) = 0" "treemap (gm u) = 0" "dvsize (gm u) = 0" "4096 \<le> unat (topsize (gm u)) + 16"
    using init_or_expand_inv [OF example_start(1-3)] example_start(4) by (auto simp: placed_def)
  obtain F where l: "linv (gm u) base e [] F {}" using u(2) by (auto simp: uinv_def)
  then have "F = {}" using linvD(5) [OF l] by (auto simp: parts_def)
  then show thesis using that [of u base e] u l by (simp add: unbinned_def)
qed

lemma example_requests:
  "(240 :: u64) < MAX_REQUEST" "(24 :: u64) < MAX_REQUEST" "(256 :: u64) < MAX_REQUEST"
  "request2size 240 = 256" "request2size 24 = 32" "request2size 256 = 272"
proof -
  show b: "(240 :: u64) < MAX_REQUEST" "(24 :: u64) < MAX_REQUEST" "(256 :: u64) < MAX_REQUEST"
    by (simp_all add: less_MAX_REQUEST)
  show "request2size 240 = 256" "request2size 24 = 32" "request2size 256 = 272"
    using b by (simp_all add: word_unat_eq_iff unat_request2size)
qed

lemma four_allocs:
  obtains u a b c d base e where "uni_history example_ops example_uni u
      {(chunk2mem d, 24), (chunk2mem c, 256), (chunk2mem b, 24), (chunk2mem a, 240)}"
    "unbinned (gm u) base e [(a, True, 256), (b, True, 32), (c, True, 272), (d, True, 32)]"
proof -
  let ?H = "uni_history example_ops example_uni"
  obtain u0 base e where u0: "init_or_expand example_ops example_uni = ret () u0" "unbinned (gm u0) base e []"
    "4080 \<le> unat (topsize (gm u0))" by (rule unbinned_start)
  let ?a = "top_chunk (gm u0)"
  have "256 < topsize (gm u0)" using u0(3) by (simp add: word_less_nat_alt)
  from unbinned_alloc [where ops = example_ops, OF u0(2) example_requests(1,4) this] obtain u1 where
    u1: "uni_alloc example_ops 240 u0 = ret (chunk2mem ?a) u1" "unbinned (gm u1) base e [(?a, True, 256)]"
      "3824 \<le> unat (topsize (gm u1))" using u0(3) by auto
  have h1: "?H u1 {(chunk2mem ?a, 240)}"
    using uni_history.alloc [OF uni_history.fresh, of example_ops 240 example_uni "chunk2mem ?a" u1]
      uni_alloc_blank [OF example_start(1) u0(1)] u1(1) by simp
  let ?b = "top_chunk (gm u1)"
  have "32 < topsize (gm u1)" using u1(3) by (simp add: word_less_nat_alt)
  from unbinned_alloc [where ops = example_ops, OF u1(2) example_requests(2,5) this] obtain u2 where
    u2: "uni_alloc example_ops 24 u1 = ret (chunk2mem ?b) u2" "unbinned (gm u2) base e [(?a, True, 256), (?b, True, 32)]"
      "3792 \<le> unat (topsize (gm u2))" using u1(3) by auto
  let ?c = "top_chunk (gm u2)"
  have "272 < topsize (gm u2)" using u2(3) by (simp add: word_less_nat_alt)
  from unbinned_alloc [where ops = example_ops, OF u2(2) example_requests(3,6) this] obtain u3 where
    u3: "uni_alloc example_ops 256 u2 = ret (chunk2mem ?c) u3"
      "unbinned (gm u3) base e [(?a, True, 256), (?b, True, 32), (?c, True, 272)]"
      "3520 \<le> unat (topsize (gm u3))" using u2(3) by auto
  let ?d = "top_chunk (gm u3)"
  have "32 < topsize (gm u3)" using u3(3) by (simp add: word_less_nat_alt)
  from unbinned_alloc [where ops = example_ops, OF u3(2) example_requests(2,5) this] obtain u4 where
    u4: "uni_alloc example_ops 24 u3 = ret (chunk2mem ?d) u4"
      "unbinned (gm u4) base e [(?a, True, 256), (?b, True, 32), (?c, True, 272), (?d, True, 32)]" by auto
  show thesis
    by (rule that [OF uni_history.alloc [OF uni_history.alloc [OF uni_history.alloc [OF h1 u2(1)] u3(1)] u4(1)] u4(2)])
qed

text \<open>
  C13: A history of an object on which nobody made a mistake, and \<open>Free\<close> throws \<open>MemoryCorruptedException\<close>: after
  requests for 240, 24, 256 and 24 bytes the payload of 240 bytes is given back, then that of 256 bytes.
\<close>

theorem correct_use_can_throw:
  "\<exists>u u' m L. uni_history example_ops example_uni u L \<and> (m, 256) \<in> L \<and> uni_free m u = throw Memory_Corrupted u'"
proof -
  let ?H = "uni_history example_ops example_uni"
  obtain u4 a b c d base e where h4: "?H u4 {(chunk2mem d, 24), (chunk2mem c, 256), (chunk2mem b, 24), (chunk2mem a, 240)}"
    and u4: "unbinned (gm u4) base e [(a, True, 256), (b, True, 32), (c, True, 272), (d, True, 32)]"
    by (rule four_allocs)
  let ?L = "{(chunk2mem d, 24), (chunk2mem c, 256), (chunk2mem b, 24), (chunk2mem a, 240)} :: (addr \<times> u64) set"
  have l4: "linv (gm u4) base e ([] @ (a, True, 256) # (b, True, 32) # [(c, True, 272), (d, True, 32)]) {} {}"
    using u4 by (simp add: unbinned_def)
  from gm_free_alone [OF this] obtain s5 where s5: "gm_free (chunk2mem a) (gm u4) = ret () s5"
    "linv s5 base e ([] @ (a, False, 256) # (b, True, 32) # [(c, True, 272), (d, True, 32)]) {(a, 256)} {}"
    by (auto simp: clash_def)
  let ?u5 = "u4\<lparr>gm := s5\<rparr>"
  have "uni_free (chunk2mem a) u4 = ret () ?u5" using s5(1) by (simp add: uni_free_def ret_def)
  then have h5: "?H ?u5 (?L - {(chunk2mem a, 240)})" by (rule uni_history.free [OF h4, rotated]) simp
  have "compute_tree_index 256 = 0" by code_simp
  then have "clash 272 {(a, 256)}" by (simp add: clash_def ex_tree_index)
  then obtain s6 where "gm_free (chunk2mem c) s5 = throw Memory_Corrupted s6"
    using gm_free_alone [of s5 base e "[(a, False, 256), (b, True, 32)]" c 272 d 32 "[]" "{(a, 256)}"] s5(2) by auto
  then have "uni_free (chunk2mem c) ?u5 = throw Memory_Corrupted (?u5\<lparr>gm := s6\<rparr>)" by (simp add: uni_free_def throw_def)
  moreover have "(chunk2mem c, 256) \<in> ?L - {(chunk2mem a, 240)}" by simp
  ultimately show ?thesis using h5 by blast
qed

section \<open>Correct use that destroys the heap\<close>

lemma uinv_top_head:
  assumes "uinv s base e cs"
  shows "head (mem s) (top_chunk s) \<noteq> 0"
proof -
  obtain F where l: "linv s base e cs F {}" using assms by (auto simp: uinv_def)
  then have r: "head (mem s) (top_chunk s) = head_word True False (topsize s)" "8 dvd unat (topsize s)"
    using linvD(1) [OF l] by (simp_all add: hrep_def)
  then have "flag_free (topsize s)" by (auto simp: flag_free_iff elim!: dvdE)
  then have "head_word True False (topsize s) AND PINUSE_BIT \<noteq> 0" by (simp add: head_word_simps)
  then show ?thesis unfolding r(1) by auto
qed

text \<open>
  C14: The second word of the 24 bytes a client has asked for is the head of \<open>top\<close>: the payload starts 32 bytes behind
  the start of a chunk of 32 bytes. A client that writes a zero there, well within its bytes, leaves no heap: whatever
  chunks one looks for, the state does not represent them.
\<close>

theorem requested_bytes_reach_next_head:
  "\<exists>u m. uni_history example_ops example_uni u {(m, 24)} \<and> unat m \<le> unat (m + 8) \<and> unat (m + 8) + 8 \<le> unat m + 24 \<and>
    m = top_chunk (gm u) \<and> (\<forall>base e cs. \<not> uinv (gm (poke (m + 8) 0 u)) base e cs)"
proof -
  obtain u0 base e where u0: "init_or_expand example_ops example_uni = ret () u0" "unbinned (gm u0) base e []"
    "4080 \<le> unat (topsize (gm u0))" by (rule unbinned_start)
  let ?a = "top_chunk (gm u0)"
  have "32 < topsize (gm u0)" using u0(3) by (simp add: word_less_nat_alt)
  from unbinned_alloc [where ops = example_ops, OF u0(2) example_requests(2,5) this] obtain u where
    u: "uni_alloc example_ops 24 u0 = ret (chunk2mem ?a) u" "unbinned (gm u) base e [(?a, True, 32)]" by auto
  have "uni_history example_ops example_uni u {(chunk2mem ?a, 24)}"
    using uni_history.alloc [OF uni_history.fresh, of example_ops 24 example_uni "chunk2mem ?a" u]
      uni_alloc_blank [OF example_start(1) u0(1)] u(1) by simp
  moreover have rep: "hrep (mem (gm u)) base [(?a, True, 32)] (top_chunk (gm u)) (topsize (gm u))"
    using u(2) linvD(1) by (auto simp: unbinned_def)
  then have top: "chunk2mem ?a = top_chunk (gm u)" by (simp add: hrep_def chunk2mem_def size_consts)
  moreover have "unat (top_chunk (gm u)) + unat (topsize (gm u)) + 16 < 2 ^ 64" using rep unfolding hrep_def by blast
  then have "unat (top_chunk (gm u) + 8) = unat (top_chunk (gm u)) + 8" by (intro unat_add_8) simp
  moreover have "\<not> uinv (gm (poke (top_chunk (gm u) + 8) 0 u)) base e cs" for base e cs
    using uinv_top_head [of "gm (poke (top_chunk (gm u) + 8) 0 u)" base e cs]
    by (auto simp: poke_def upd_mem_def head_def)
  ultimately show ?thesis by (intro exI [of _ u] exI [of _ "chunk2mem ?a"]) simp
qed

section \<open>Exact termination, and what a history comes back to\<close>

text \<open>
  C8: \<open>Alloc\<close> ends exactly when some memory is large enough: a request below \<open>MAX_REQUEST\<close> returns or throws if
  \<open>top\<close> is larger than the chunk it needs or some free chunk is at least as large, and in every other state the call
  never returns: it calls itself on the same state for ever.
\<close>

theorem alloc_ends_iff_something_fits:
  assumes "uinv (gm u) base e cs" and "e < unat base + 2 ^ 40" and "bytes < MAX_REQUEST"
  shows "uni_alloc ops bytes u \<noteq> None \<longleftrightarrow>
    request2size bytes < topsize (gm u) \<or> (\<exists>(a, n) \<in> fchunks cs. request2size bytes \<le> n)"
proof -
  consider (got) m s' where "uni_alloc ops bytes u = ret m (u\<lparr>gm := s'\<rparr>)" "grants base e (request2size bytes) cs m s'"
    | (no) "uni_alloc ops bytes u = None" "topsize (gm u) \<le> request2size bytes" "none_fits (request2size bytes) (fchunks cs)"
    | (err) s' where "uni_alloc ops bytes u = throw Memory_Corrupted (u\<lparr>gm := s'\<rparr>)" "\<not> none_fits (request2size bytes) (fchunks cs)"
    using uni_alloc_lemma [OF assms(1,3), of ops] uinv_short [OF assms(1,2)] by metis
  then show ?thesis
  proof cases
    case got
    obtain a n cs' where a: "fits (request2size bytes) n" "uinv s' base e cs'"
      "(a, n) \<notin> uchunks cs" "uchunks cs' = insert (a, n) (uchunks cs)" using got(2) unfolding grants_def by blast
    have "(a, n) \<in> uchunks cs'" "uchunks cs = uchunks cs' - {(a, n)}" using a(3,4) by auto
    then have "n < topsize (gm u) \<or> (\<exists>(c, k) \<in> fchunks cs. n \<le> k)" by (rule given_back [OF a(2) assms(1)])
    moreover have "request2size bytes \<le> n" using a(1) by (simp add: fits_def)
    ultimately have "request2size bytes < topsize (gm u) \<or> (\<exists>(c, k) \<in> fchunks cs. request2size bytes \<le> k)"
      by (auto intro: le_less_trans order_trans)
    then show ?thesis using got(1) by (simp add: ret_def)
  next
    case no
    then show ?thesis by (auto simp: none_fits_def not_less)
  next
    case err
    then show ?thesis by (force simp: throw_def none_fits_def not_less)
  qed
qed

theorem alloc_ends_iff_something_fits_witness:
  "\<exists>u base e cs. uinv (gm u) base e cs \<and> request2size 24 < topsize (gm u) \<and> uni_alloc example_ops 24 u \<noteq> None"
proof -
  obtain u m base e cs n where x: "uni_history example_ops example_uni u {(m, 24)}" and h: "uinv (gm u) base e cs"
    "(mem2chunk m, n) \<in> uchunks cs" "treemap (gm u) = 0" "e < unat base + 2 ^ 40" "request2size 24 < topsize (gm u)"
    by (rule example_history)
  have "(24 :: u64) < MAX_REQUEST" by (simp add: less_MAX_REQUEST)
  from alloc_ends_iff_something_fits [OF h(1,4) this, of example_ops] h(1,5) show ?thesis by blast
qed

text \<open>
  C6: An \<open>Alloc\<close> and the \<open>Free\<close> of what it returned leave the segment as it was: the same chunks, in use and free, of the
  same sizes, and the same \<open>top\<close>. Whatever \<open>Alloc\<close> has cut, \<open>Free\<close> merges again, whichever bin it came from.
\<close>

theorem alloc_free_round_trip:
  assumes "uinv (gm u) base e cs" and "uni_alloc ops bytes u = ret m u1" and "uni_free m u1 = ret () u2"
  shows "uinv (gm u2) base e cs \<and> top_chunk (gm u2) = top_chunk (gm u) \<and> topsize (gm u2) = topsize (gm u)"
proof -
  have b: "bytes < MAX_REQUEST" using uni_alloc_too_much [OF assms(1), of bytes ops] assms(2) by (force simp: ret_def)
  have "\<exists>s'. u1 = u\<lparr>gm := s'\<rparr> \<and> grants base e (request2size bytes) cs m s'"
    using uni_alloc_lemma [OF assms(1) b, of ops] assms(2) by (auto simp: ret_def throw_def)
  then obtain n cs1 where c1: "uinv (gm u1) base e cs1" "(mem2chunk m, n) \<notin> uchunks cs"
    "uchunks cs1 = insert (mem2chunk m, n) (uchunks cs)" by (auto simp: grants_def)
  have x: "(mem2chunk m, n) \<in> uchunks cs1" using c1(3) by simp
  obtain s' where "u2 = u1\<lparr>gm := s'\<rparr>" "releases base e cs1 (mem2chunk m, n) s'"
    using uni_free_lemma [OF c1(1) x] assms(3) by (auto simp: ret_def throw_def)
  then obtain cs2 where c2: "uinv (gm u2) base e cs2" "uchunks cs2 = uchunks cs1 - {(mem2chunk m, n)}"
    by (auto simp: releases_def)
  have "uchunks cs2 = uchunks cs" using c2(2) c1(2,3) by simp
  from uinv_determined [OF assms(1) c2(1) this] c2(1) show ?thesis by simp
qed

theorem alloc_free_round_trip_witness:
  "\<exists>u u1 u2 m. uni_alloc example_ops 24 u = ret m u1 \<and> uni_free m u1 = ret () u2 \<and>
    top_chunk (gm u2) = top_chunk (gm u) \<and> topsize (gm u2) = topsize (gm u) \<and> 4080 \<le> unat (topsize (gm u))"
proof -
  obtain u base e where u: "init_or_expand example_ops example_uni = ret () u" "unbinned (gm u) base e []"
    "4080 \<le> unat (topsize (gm u))" by (rule unbinned_start)
  have "32 < topsize (gm u)" using u(3) by (simp add: word_less_nat_alt)
  from unbinned_alloc [where ops = example_ops, OF u(2) example_requests(2,5) this] obtain m u1 cs where
    u1: "uni_alloc example_ops 24 u = ret m u1" "m = chunk2mem (top_chunk (gm u))"
      "unbinned (gm u1) base e [(top_chunk (gm u), True, 32)]" by auto
  have i: "uinv (gm u) base e []" "uinv (gm u1) base e [(top_chunk (gm u), True, 32)]"
    using u(2) u1(3) by (auto simp: unbinned_def uinv_def)
  obtain u2 where u2: "uni_free m u1 = ret () u2"
    using uni_free_lemma [OF i(2), of m 32] u1(2,3) by (auto simp: unbinned_def)
  show ?thesis using alloc_free_round_trip [OF i(1) u1(1) u2] u1(1) u2 u(3) by blast
qed

text \<open>
  C7: No history fragments the segment for good: when the clients have given back all they held, every bin is empty, there
  is no \<open>dv\<close>, and \<open>top\<close> is the whole segment again, as after the first \<open>InitOrExpand\<close>.
\<close>

theorem idle_segment_is_whole:
  assumes "blank (gm u0)" and "al_alloc ops (underlying u0) (increasing_size u0 * increasing_step u0) = (p, b')"
    and "good_segment (gm_addr (gm u0)) p (increasing_size u0 * increasing_step u0)"
    and "uni_history ops u0 u {}" and "is_initialized (gm u)"
  shows "smallmap (gm u) = 0 \<and> treemap (gm u) = 0 \<and> dvsize (gm u) = 0 \<and> unat (top_chunk (gm u)) \<le> unat p + 8 \<and>
    unat (top_chunk (gm u)) + unat (topsize (gm u)) + 8 = unat p + unat (increasing_size u0 * increasing_step u0)"
  by (rule fresh_object.idle_whole [OF fresh_object.intro [OF assms(1-3)] assms(4,5)])

theorem idle_segment_is_whole_witness:
  "\<exists>u. uni_history example_ops example_uni u {} \<and> is_initialized (gm u) \<and> 4080 \<le> unat (topsize (gm u))"
proof -
  obtain u m base e cs n where h: "uni_history example_ops example_uni u {(m, 24)}" and x: "uinv (gm u) base e cs"
    "(mem2chunk m, n) \<in> uchunks cs" "treemap (gm u) = 0" "e < unat base + 2 ^ 40" "request2size 24 < topsize (gm u)"
    by (rule example_history)
  obtain s' where s': "uni_free m u = ret () (u\<lparr>gm := s'\<rparr>)" "releases base e cs (mem2chunk m, n) s'"
    using uni_free_lemma [OF x(1,2)] x(3) by auto
  have e: "uni_history example_ops example_uni (u\<lparr>gm := s'\<rparr>) {}"
    using uni_history.free [OF h _ s'(1), of 24] by simp
  have i: "is_initialized (gm (u\<lparr>gm := s'\<rparr>))" using s'(2) uinv_initialized by (auto simp: releases_def)
  show ?thesis
    using idle_segment_is_whole [OF example_start(1-3) e i] e i example_start(4)
    by (intro exI [of _ "u\<lparr>gm := s'\<rparr>"]) simp
qed

end
