(* ===== verification/Chunk_Views.thy ===== *)
theory Chunk_Views
  imports Uni_Properties
begin

text \<open>
  What the members of \<open>Chunk\<close> (\<open>chunk.h\<close>) read off a chunk of a heap that satisfies the invariant: on a free chunk
  they all agree (the conditions that the comments in \<open>do_check_free_chunk\<close> name); \<open>next_pinuse\<close> reads another word than
  it should.
\<close>

unbundle bit_operations_syntax

section \<open>The links of the chunks in the bins\<close>

lemma ring_links:
  assumes "ring h b ps" "p \<in> set (b # ps)"
  shows "bk h (fd h p) = p \<and> fd h (bk h p) = p"
proof (cases "p = b")
  case True
  have l: "links h ([b] @ (ps @ [b]))" "links h ((b # ps) @ [b])" using assms(1) by (simp_all add: ring_def)
  show ?thesis using iffD1 [OF links_append l(1)] iffD1 [OF links_append l(2)] True by simp
next
  case False
  then obtain xs ys where "ps = xs @ p # ys" using assms(2) by (auto dest: split_list)
  then show ?thesis using ring_neighbours [of h b xs p ys] assms(1) by simp
qed

lemma store_links:
  assumes st: "store s F" and x: "(p, n) \<in> F"
  shows "bk (mem s) (fd (mem s) p) = p \<and> fd (mem s) (bk (mem s) p) = p"
proof -
  obtain L T where a: "regular s F" "small_bins s L" "small_ok L F" "tree_ok s T F" using storeE [OF st] by metis
  show ?thesis
  proof (cases "unat n < 256")
    case True
    have "8 dvd unat n" using bin_chunkD(3) [OF regularD(3) [OF a(1) x]] dvd_trans [of 8 16 "unat n"] by simp
    note j = small_index_size [OF True this]
    have p: "p \<in> set (L (small_index n))" using a(3) x j by (simp add: small_ok_def)
    then have "ring (mem s) (smallbin_at s (small_index n)) (L (small_index n))"
      using small_binsD(1) [OF a(2) j(2)] by (auto simp: bin_list_def split: if_splits)
    then show ?thesis by (rule ring_links) (use p in simp)
  next
    case False
    let ?i = "compute_tree_index n"
    have i: "?i < NTREEBINS" using tree_index_lt [of n] by (simp add: less_NTREEBINS)
    have p: "p \<in> set (T ?i)" unfolding tree_okD(2) [OF a(4) i] using x False by (auto simp: not_less)
    then obtain t ts where T: "T ?i = t # ts" by (cases "T ?i") auto
    have "ring (mem s) t ts" using tree_okD(1) [OF a(4) i] T by simp
    then show ?thesis by (rule ring_links) (use p T in simp)
  qed
qed

section \<open>Free chunks\<close>

lemma linv_head:
  assumes l: "linv s base e cs F X" and x: "(a, u, n) \<in> set cs"
  obtains xs ys where "cs = xs @ (a, u, n) # ys" "head (mem s) a = head_word (last_use True xs) u n" "flag_free n"
    "chunksize (mem s) a = n"
proof -
  note D = linvD [OF l]
  obtain xs ys where cs: "cs = xs @ (a, u, n) # ys" using x by (meson split_list)
  have ff: "flag_free n" by (rule hrep_wf(5) [OF D(1) x])
  with that [OF cs] hrep_head(1) D(1) cs ff hrep_chunksize [OF D(1) x] show thesis by blast
qed

text \<open>
  What the members of \<open>Chunk\<close> read off a free chunk, in every state on the invariant, hence after any history: its
  size is a multiple of 16 and not below \<open>MIN_CHUNK_SIZE\<close>, it is not in use and the chunks on both sides are, its foot
  and the flag in the chunk behind it agree with its head, and unless it is \<open>dv\<close> it is linked into its bin both ways.
\<close>

lemma inv_free_chunk:
  assumes i: "uinv s base e cs" and x: "(a, n) \<in> fchunks cs"
  shows "ok_address s a" "16 dvd unat (chunk2mem a)" "16 dvd unat n" "MIN_CHUNK_SIZE \<le> n" "chunksize (mem s) a = n"
    "\<not> is_inuse (mem s) a" "pinuse (mem s) a \<noteq> 0" "is_inuse (mem s) (chunk_plus_offset a n)"
    "pinuse (mem s) (chunk_plus_offset a n) = 0" "prev_foot (mem s) (chunk_plus_offset a n) = n"
    "a \<noteq> dv s \<Longrightarrow> bk (mem s) (fd (mem s) a) = a \<and> fd (mem s) (bk (mem s) a) = a"
proof -
  obtain F where l: "linv s base e cs F {}" using i by (auto simp: uinv_def)
  note D = linvD [OF l]
  have x': "(a, False, n) \<in> set cs" using x by (simp add: fchunks_def)
  note w = hrep_wf [OF D(1) x']
  have "unat (top_chunk s) + unat (topsize s) + 16 < 18446744073709551616" using D(1) by (simp add: hrep_def)
  then have "unat (chunk2mem a) = unat a + 32" using w(4,7) by (simp add: chunk2mem_def size_consts unat_offset)
  then show "16 dvd unat (chunk2mem a)" using w(2) by simp
  show "ok_address s a" using D(3) w(6) by (simp add: ok_address_def word_le_nat_alt)
  show "16 dvd unat n" by (rule w(3))
  show "MIN_CHUNK_SIZE \<le> n" using w(4) by (simp add: size_consts word_le_nat_alt)
  obtain xs ys where h: "cs = xs @ (a, False, n) # ys" "head (mem s) a = head_word (last_use True xs) False n" "flag_free n"
    "chunksize (mem s) a = n" by (rule linv_head [OF l x'])
  show "chunksize (mem s) a = n" by (rule h(4))
  have rep: "hrep (mem s) base (xs @ (a, False, n) # ys) (top_chunk s) (topsize s)" using D(1) h(1) by simp
  then have sp: "spaced (xs @ (a, False, n) # ys)" by (simp add: hrep_def)
  have pu: "last_use True xs" by (rule spaced_prev [OF sp])
  show "\<not> is_inuse (mem s) a" "pinuse (mem s) a \<noteq> 0"
    using h(2) pu head_word_simps(2,5) [OF h(3)] by (simp_all add: is_inuse_def pinuse_def)
  obtain c k zs where ys: "ys = (c, True, k) # zs" using spaced_next [OF sp] by blast
  have "tiled (a + n) ys (top_chunk s)" using hrep_mid(3) [OF rep] .
  then have c: "c = a + n" by (simp add: ys)
  have rep': "hrep (mem s) base ((xs @ [(a, False, n)]) @ (a + n, True, k) # zs) (top_chunk s) (topsize s)"
    using rep ys c by simp
  have "flag_free k" using hrep_wf(5) [OF rep', of "a + n" True k] by simp
  moreover have "head (mem s) (a + n) = head_word False True k" using hrep_head(1) [OF rep'] by simp
  ultimately show "is_inuse (mem s) (chunk_plus_offset a n)" "pinuse (mem s) (chunk_plus_offset a n) = 0"
    using head_word_simps(2,5) [of k False True] by (simp_all add: is_inuse_def pinuse_def chunk_plus_offset_def)
  show "prev_foot (mem s) (chunk_plus_offset a n) = n" using hrep_head(2) [OF rep] by (simp add: chunk_plus_offset_def)
  show "bk (mem s) (fd (mem s) a) = a \<and> fd (mem s) (bk (mem s) a) = a" if "a \<noteq> dv s"
  proof -
    have "(a, n) \<in> F" using x D(5) that by (auto simp: parts_def dvset_def split: if_splits)
    then show ?thesis by (rule store_links [OF D(2)])
  qed
qed

section \<open>The chunk behind\<close>

text \<open>
  C15: \<open>next_pinuse\<close> does not read the flag of the chunk behind: after requests for 24 and 2000 bytes, the client writes a
  zero into its 2000 bytes, and \<open>next_pinuse\<close> of the first chunk, which is in use, is zero, although the chunk that starts
  where the first one ends has its \<open>pinuse\<close> flag set: \<open>next_chunk\<close> steps 32 times too far.
\<close>

theorem next_pinuse_misreads:
  "\<exists>u m m2. uni_history example_ops example_uni u {(m2, 2000), (m, 24)} \<and> is_inuse (mem (gm u)) (mem2chunk m) \<and>
    next_pinuse (mem (gm u)) (mem2chunk m) = 0 \<and>
    pinuse (mem (gm u)) (chunk_plus_offset (mem2chunk m) (chunksize (mem (gm u)) (mem2chunk m))) \<noteq> 0"
proof -
  let ?H = "uni_history example_ops example_uni"
  obtain u0 base e where u0: "init_or_expand example_ops example_uni = ret () u0" "unbinned (gm u0) base e []"
    "4080 \<le> unat (topsize (gm u0))" by (rule unbinned_start)
  let ?a = "top_chunk (gm u0)"
  have "32 < topsize (gm u0)" using u0(3) by (simp add: word_less_nat_alt)
  from unbinned_alloc [where ops = example_ops, OF u0(2) example_requests(2,5) this] obtain u1 where
    u1: "uni_alloc example_ops 24 u0 = ret (chunk2mem ?a) u1" "unbinned (gm u1) base e [(?a, True, 32)]"
      "4048 \<le> unat (topsize (gm u1))" using u0(3) by auto
  have h1: "?H u1 {(chunk2mem ?a, 24)}"
    using uni_history.alloc [OF uni_history.fresh, of example_ops 24 example_uni "chunk2mem ?a" u1]
      uni_alloc_blank [OF example_start(1) u0(1)] u1(1) by simp
  have b: "(2000 :: u64) < MAX_REQUEST" by (simp add: less_MAX_REQUEST)
  then have r: "request2size 2000 = 2016" by (simp add: word_unat_eq_iff unat_request2size)
  let ?b = "top_chunk (gm u1)"
  have "2016 < topsize (gm u1)" using u1(3) by (simp add: word_less_nat_alt)
  from unbinned_alloc [where ops = example_ops, OF u1(2) b r this] obtain u2 where
    u2: "uni_alloc example_ops 2000 u1 = ret (chunk2mem ?b) u2" "unbinned (gm u2) base e [(?a, True, 32), (?b, True, 2016)]"
    by auto
  let ?cs = "[(?a, True, 32), (?b, True, 2016)] :: uchunk list"
  let ?m = "chunk2mem ?a" and ?m2 = "chunk2mem ?b"
  have h2: "?H u2 {(?m2, 2000), (?m, 24)}" by (rule uni_history.alloc [OF h1 u2(1)])
  have l: "linv (gm u2) base e ?cs {} {}" using u2(2) by (simp add: unbinned_def)
  have i: "uinv (gm u2) base e ?cs" using l by (auto simp: uinv_def)
  have rep: "hrep (mem (gm u2)) base ?cs (top_chunk (gm u2)) (topsize (gm u2))" using linvD(1) [OF l] .
  then have ab: "?b = ?a + 32" by (simp add: hrep_def)
  have xs: "(?a, True, 32) \<in> set ?cs" "(?b, True, 2016) \<in> set ?cs" by simp_all
  note wa = hrep_wf [OF rep xs(1)] and wb = hrep_wf [OF rep xs(2)]
  have lim: "unat ?a + 2048 < 18446744073709551616"
    using wa(8) wb(7) ab unat_lt_2_64 [of "top_chunk (gm u2)"] by (simp del: unat_lt_2_64)
  let ?c = "?a + 1032"
  have c: "unat ?c = unat ?a + 1032" using lim by (subst unat_offset) simp_all
  have m2: "unat ?m2 = unat ?a + 64" "mem2chunk ?m2 = ?b" "unat (?b + 2016) = unat ?a + 2048"
    using lim wb(8) wa(8) ab by (simp_all add: chunk2mem_def mem2chunk_def size_consts unat_offset)
  have cz: "chunksize (mem (gm u2)) ?b = 2016" by (rule hrep_chunksize [OF rep xs(2)])
  have "8 dvd unat ?a" using wa(2) dvd_trans [of 8 16 "unat ?a"] by simp
  then have "8 dvd unat ?c" unfolding c by (intro dvd_add) simp_all
  then have own: "own_cell (gm u2) ?m2 ?c" using c m2 cz by (simp add: own_cell_def word_le_nat_alt)
  let ?u = "poke ?c 0 u2"
  have h3: "?H ?u {(?m2, 2000), (?m, 24)}" by (rule uni_history.store [OF h2 _ own, of 2000]) simp
  have "uinv (gm ?u) base e ?cs"
    using uinv_poke [OF i _ own, of 2016 0] by (simp add: poke_def uchunks_def)
  then obtain F where l3: "linv (gm ?u) base e ?cs F {}" and i3: "uinv (gm ?u) base e ?cs" by (auto simp: uinv_def)
  have cz3: "chunksize (mem (gm ?u)) ?a = 32" using hrep_chunksize [OF linvD(1) [OF l3] xs(1)] .
  then have "next_chunk (mem (gm ?u)) ?a = ?a + 1024" by (simp add: next_chunk_def chunksize_def size_consts)
  then have "next_pinuse (mem (gm ?u)) ?a = 0"
    by (simp add: next_pinuse_def pinuse_def head_def poke_def upd_mem_def)
  moreover have rep3: "hrep (mem (gm ?u)) base ([] @ (?a, True, 32) # [(?b, True, 2016)]) (top_chunk (gm ?u)) (topsize (gm ?u))"
    using linvD(1) [OF l3] by simp
  have rep4: "hrep (mem (gm ?u)) base ([(?a, True, 32)] @ (?b, True, 2016) # []) (top_chunk (gm ?u)) (topsize (gm ?u))"
    using linvD(1) [OF l3] by simp
  have "is_inuse (mem (gm ?u)) ?a" "pinuse (mem (gm ?u)) (?a + 32) \<noteq> 0"
    using hrep_head(1) [OF rep3] hrep_head(1) [OF rep4] ab wa(5) wb(5)
      head_word_simps(2,5) [of 32] head_word_simps(2,5) [of 2016]
    by (simp_all add: is_inuse_def pinuse_def)
  moreover have "mem2chunk ?m = ?a" by (simp add: chunk2mem_def mem2chunk_def)
  ultimately show ?thesis using h3 cz3
    by (intro exI [of _ ?u] exI [of _ ?m] exI [of _ ?m2]) (simp add: chunk_plus_offset_def)
qed

end
