(* ===== verification/Memory_Block.thy ===== *)
theory Memory_Block
  imports Prelude
begin

text \<open>
  Memory blocks of the best-fit allocator: \<open>memory_block.h\<close>, \<open>memory_block.cc\<close>,
  \<open>memory_block_desc.cc\<close> and \<open>meta_cache.cc\<close>. A descriptor with two hash guards is stored at the
  start of every block (CPU) or in a map (GPU); \<open>MetadataCache\<close> hides the difference. The operations
  on a block read and write descriptors through the cache and abort when a guard does not match.
\<close>

unbundle bit_operations_syntax

section \<open>Descriptors\<close>

datatype chunk_type = FREE_CHUNK | ARENA_CHUNK | HUGE_CHUNK | INVALID_CHUNK

record desc =
  guard_begin :: u64
  desc_type :: chunk_type
  desc_index :: u64
  desc_size :: u64
  desc_total_size :: u64
  desc_left_buddy :: addr
  desc_right_buddy :: addr
  guard_end :: u64

definition mk_desc :: "chunk_type \<Rightarrow> u64 \<Rightarrow> u64 \<Rightarrow> u64 \<Rightarrow> addr \<Rightarrow> addr \<Rightarrow> desc" where
  "mk_desc t i s ts l r =
     \<lparr>guard_begin = 0, desc_type = t, desc_index = i, desc_size = s, desc_total_size = ts,
      desc_left_buddy = l, desc_right_buddy = r, guard_end = 0\<rparr>"

definition default_desc :: desc where
  "default_desc = mk_desc INVALID_CHUNK 0 0 0 0 0"

text \<open>\<open>static_cast<size_t>\<close> of the enum, and the enum value that a stored word stands for.\<close>

fun type_code :: "chunk_type \<Rightarrow> u64" where
  "type_code FREE_CHUNK = 0"
| "type_code ARENA_CHUNK = 1"
| "type_code HUGE_CHUNK = 2"
| "type_code INVALID_CHUNK = 3"

definition type_of_code :: "u64 \<Rightarrow> chunk_type" where
  "type_of_code n = (if n = 0 then FREE_CHUNK else if n = 1 then ARENA_CHUNK
     else if n = 2 then HUGE_CHUNK else INVALID_CHUNK)"

text \<open>\<open>std::hash\<close> of integers and pointers is the identity (libstdc++).\<close>

definition hash_combine :: "u64 \<Rightarrow> u64 \<Rightarrow> u64" where
  "hash_combine seed v = seed XOR (v + 0x9e3779b9 + push_bit 6 seed + drop_bit 2 seed)"

definition desc_hash :: "desc \<Rightarrow> u64 \<Rightarrow> u64" where
  "desc_hash d initial_seed =
     (let seed = initial_seed;
          seed = hash_combine seed (type_code (desc_type d));
          seed = hash_combine seed (desc_index d);
          seed = hash_combine seed (desc_size d);
          seed = hash_combine seed (desc_total_size d);
          seed = hash_combine seed (desc_left_buddy d);
          seed = hash_combine seed (desc_right_buddy d)
      in seed)"

definition update_guards :: "desc \<Rightarrow> desc" where
  "update_guards d =
     (let d = d\<lparr>guard_begin := desc_hash d 1\<rparr> in d\<lparr>guard_end := desc_hash d 2\<rparr>)"

definition check_guards :: "desc \<Rightarrow> bool" where
  "check_guards d \<longleftrightarrow> guard_begin d = desc_hash d 1 \<and> guard_end d = desc_hash d 2"

section \<open>The metadata cache\<close>

text \<open>
  A descriptor takes 64 bytes, eight cells: the fields in their order, the enum padded to 8 bytes.
\<close>

definition sizeof_Desc :: u64 where "sizeof_Desc = 64"

definition write_desc :: "(addr \<Rightarrow> u64) \<Rightarrow> addr \<Rightarrow> desc \<Rightarrow> (addr \<Rightarrow> u64)" where
  "write_desc h b d =
     h(b := guard_begin d, b + 8 := type_code (desc_type d), b + 16 := desc_index d,
       b + 24 := desc_size d, b + 32 := desc_total_size d, b + 40 := desc_left_buddy d,
       b + 48 := desc_right_buddy d, b + 56 := guard_end d)"

definition read_desc :: "(addr \<Rightarrow> u64) \<Rightarrow> addr \<Rightarrow> desc" where
  "read_desc h b =
     \<lparr>guard_begin = h b, desc_type = type_of_code (h (b + 8)), desc_index = h (b + 16),
      desc_size = h (b + 24), desc_total_size = h (b + 32), desc_left_buddy = h (b + 40),
      desc_right_buddy = h (b + 48), guard_end = h (b + 56)\<rparr>"

record metadata_cache =
  uses_gpu :: bool
  cache_map :: "addr \<rightharpoonup> desc"
  cpu_mem :: "addr \<Rightarrow> u64"

definition load :: "metadata_cache \<Rightarrow> addr \<Rightarrow> fault + desc" where
  "load c block =
     (if uses_gpu c
      then (case cache_map c block of
          None \<Rightarrow> Inl Undefined_Behaviour
        | Some existing_desc \<Rightarrow> if check_guards existing_desc then Inr existing_desc else Inl Assertion_Failed)
      else (let d = read_desc (cpu_mem c) block
            in if check_guards d then Inr d else Inl Assertion_Failed))"

definition save :: "metadata_cache \<Rightarrow> addr \<Rightarrow> desc \<Rightarrow> metadata_cache" where
  "save c block original_desc =
     (let d = update_guards original_desc
      in if uses_gpu c then c\<lparr>cache_map := (cache_map c)(block \<mapsto> d)\<rparr>
         else c\<lparr>cpu_mem := write_desc (cpu_mem c) block d\<rparr>)"

definition invalidate :: "metadata_cache \<Rightarrow> addr \<Rightarrow> metadata_cache" where
  "invalidate c block = (if uses_gpu c then c\<lparr>cache_map := (cache_map c)(block := None)\<rparr> else c)"

section \<open>Operations on a block\<close>

definition mb_init ::
  "metadata_cache \<Rightarrow> chunk_type \<Rightarrow> u64 \<Rightarrow> u64 \<Rightarrow> addr \<Rightarrow> addr \<Rightarrow> addr \<Rightarrow> metadata_cache" where
  "mb_init c t idx sz l r b = save c b (mk_desc t idx (sz - sizeof_Desc) sz l r)"

definition load_field :: "(desc \<Rightarrow> 'a) \<Rightarrow> metadata_cache \<Rightarrow> addr \<Rightarrow> fault + 'a" where
  "load_field f c b = (case load c b of Inl e \<Rightarrow> Inl e | Inr d \<Rightarrow> Inr (f d))"

definition mb_type :: "metadata_cache \<Rightarrow> addr \<Rightarrow> fault + chunk_type" where
  "mb_type = load_field desc_type"
definition mb_size :: "metadata_cache \<Rightarrow> addr \<Rightarrow> fault + u64" where
  "mb_size = load_field desc_size"
definition mb_index :: "metadata_cache \<Rightarrow> addr \<Rightarrow> fault + u64" where
  "mb_index = load_field desc_index"
definition mb_total_size :: "metadata_cache \<Rightarrow> addr \<Rightarrow> fault + u64" where
  "mb_total_size = load_field desc_total_size"
definition mb_left_buddy :: "metadata_cache \<Rightarrow> addr \<Rightarrow> fault + addr" where
  "mb_left_buddy = load_field desc_left_buddy"
definition mb_right_buddy :: "metadata_cache \<Rightarrow> addr \<Rightarrow> fault + addr" where
  "mb_right_buddy = load_field desc_right_buddy"
definition mb_has_left_buddy :: "metadata_cache \<Rightarrow> addr \<Rightarrow> fault + bool" where
  "mb_has_left_buddy = load_field (\<lambda>d. desc_left_buddy d \<noteq> 0)"
definition mb_has_right_buddy :: "metadata_cache \<Rightarrow> addr \<Rightarrow> fault + bool" where
  "mb_has_right_buddy = load_field (\<lambda>d. desc_right_buddy d \<noteq> 0)"

definition mb_split :: "addr \<Rightarrow> u64 \<Rightarrow> metadata_cache \<Rightarrow> (metadata_cache, unit) outcome" where
  "mb_split this sz c =
     get_or c (mb_total_size c this) (\<lambda>total.
       if \<not> sz \<le> total then Fault Assertion_Failed c
       else if total - sz \<le> sizeof_Desc then Normal () c
       else
         let right_partition = this + sz; remaining_size = total - sz
         in get_or c (load c this) (\<lambda>metadata.
           let new_block_right_buddy = desc_right_buddy metadata
           in get_or c (mb_index c this) (\<lambda>idx.
             let c = save c right_partition
                   (mk_desc FREE_CHUNK idx (remaining_size - sizeof_Desc) remaining_size this new_block_right_buddy);
                 metadata = metadata\<lparr>desc_right_buddy := right_partition, desc_size := sz - sizeof_Desc,
                   desc_total_size := sz\<rparr>;
                 c = save c this metadata
             in if new_block_right_buddy \<noteq> 0
                then get_or c (load c new_block_right_buddy) (\<lambda>buddy_metadata.
                  Normal () (save c new_block_right_buddy (buddy_metadata\<lparr>desc_left_buddy := right_partition\<rparr>)))
                else Normal () c)))"

definition mb_merge :: "addr \<Rightarrow> addr \<Rightarrow> metadata_cache \<Rightarrow> (metadata_cache, unit) outcome" where
  "mb_merge this right_buddy c =
     get_or c (mb_type c this) (\<lambda>t. if t \<noteq> FREE_CHUNK then Fault Assertion_Failed c else
     get_or c (mb_type c right_buddy) (\<lambda>t. if t \<noteq> FREE_CHUNK then Fault Assertion_Failed c else
     get_or c (load c this) (\<lambda>metadata.
     get_or c (mb_right_buddy c right_buddy) (\<lambda>rr.
       let metadata = metadata\<lparr>desc_right_buddy := rr\<rparr>
       in obind
         (if rr \<noteq> 0
          then get_or c (load c rr) (\<lambda>buddy_metadata.
            Normal () (save c rr (buddy_metadata\<lparr>desc_left_buddy := this\<rparr>)))
          else Normal () c)
         (\<lambda>_ c. get_or c (mb_total_size c right_buddy) (\<lambda>rt.
            let metadata = metadata\<lparr>desc_size := desc_size metadata + rt,
                  desc_total_size := desc_total_size metadata + rt\<rparr>;
                c = save c this metadata
            in Normal () (save c right_buddy (mk_desc INVALID_CHUNK 0 0 0 0 0))))))))"

definition mb_set_type :: "chunk_type \<Rightarrow> addr \<Rightarrow> metadata_cache \<Rightarrow> (metadata_cache, unit) outcome" where
  "mb_set_type t this c =
     get_or c (load c this) (\<lambda>metadata. Normal () (save c this (metadata\<lparr>desc_type := t\<rparr>)))"

definition mb_mark_as_free :: "addr \<Rightarrow> metadata_cache \<Rightarrow> (metadata_cache, unit) outcome" where
  "mb_mark_as_free this c =
     get_or c (mb_type c this) (\<lambda>t.
       if t = FREE_CHUNK \<or> t = INVALID_CHUNK then Fault Assertion_Failed c
       else mb_set_type FREE_CHUNK this c)"

definition mb_data :: "addr \<Rightarrow> addr" where "mb_data p = p + sizeof_Desc"
definition mb_metadata :: "addr \<Rightarrow> addr" where "mb_metadata p = p - sizeof_Desc"

section \<open>Guards\<close>

lemma type_of_code_type_code [simp]: "type_of_code (type_code t) = t"
  by (cases t) (simp_all add: type_of_code_def)

lemma desc_hash_guards [simp]:
  "desc_hash (d\<lparr>guard_begin := x\<rparr>) n = desc_hash d n"
  "desc_hash (d\<lparr>guard_end := x\<rparr>) n = desc_hash d n"
  by (simp_all add: desc_hash_def)

lemma update_guards_fields [simp]:
  "desc_type (update_guards d) = desc_type d" "desc_index (update_guards d) = desc_index d"
  "desc_size (update_guards d) = desc_size d" "desc_total_size (update_guards d) = desc_total_size d"
  "desc_left_buddy (update_guards d) = desc_left_buddy d"
  "desc_right_buddy (update_guards d) = desc_right_buddy d"
  "desc_hash (update_guards d) n = desc_hash d n"
  by (simp_all add: update_guards_def Let_def)

lemma check_update_guards [simp]: "check_guards (update_guards d)"
  by (simp add: check_guards_def) (simp add: update_guards_def Let_def)

text \<open>The guards depend on the other fields only.\<close>

lemma update_guards_cong:
  "desc_type d = desc_type e \<Longrightarrow> desc_index d = desc_index e \<Longrightarrow> desc_size d = desc_size e \<Longrightarrow>
   desc_total_size d = desc_total_size e \<Longrightarrow> desc_left_buddy d = desc_left_buddy e \<Longrightarrow>
   desc_right_buddy d = desc_right_buddy e \<Longrightarrow> update_guards d = update_guards e"
  by (cases d; cases e) (simp add: update_guards_def Let_def desc_hash_def)

lemma hash_combine_inj: "hash_combine s v = hash_combine s w \<Longrightarrow> v = w"
proof -
  assume "hash_combine s v = hash_combine s w"
  then have "s XOR hash_combine s v = s XOR hash_combine s w" by simp
  then show ?thesis by (simp add: hash_combine_def xor.assoc [symmetric])
qed

text \<open>
  C31: The guards catch every stray write to \<open>right_buddy\<close>, the last field hashed, and every stray
  write to a guard itself: a descriptor that passes \<open>check_guards\<close> fails it after either.
\<close>

theorem guards_detect_overwrite:
  assumes "check_guards d" and "r \<noteq> desc_right_buddy d" and "x \<noteq> guard_begin d" and "y \<noteq> guard_end d"
  shows "\<not> check_guards (d\<lparr>desc_right_buddy := r\<rparr>) \<and> \<not> check_guards (d\<lparr>guard_begin := x\<rparr>) \<and>
    \<not> check_guards (d\<lparr>guard_end := y\<rparr>)"
proof -
  have "desc_hash (d\<lparr>desc_right_buddy := r\<rparr>) 1 \<noteq> desc_hash d 1"
  proof
    assume "desc_hash (d\<lparr>desc_right_buddy := r\<rparr>) 1 = desc_hash d 1"
    then have "r = desc_right_buddy d" by (auto simp: desc_hash_def Let_def dest: hash_combine_inj)
    with assms(2) show False by blast
  qed
  then show ?thesis using assms by (simp add: check_guards_def)
qed

theorem guards_detect_overwrite_witness:
  "check_guards (update_guards default_desc) \<and>
   \<not> check_guards ((update_guards default_desc)\<lparr>desc_right_buddy := 4096\<rparr>)"
proof -
  let ?d = "update_guards default_desc"
  have "(4096 :: addr) \<noteq> desc_right_buddy ?d" by (simp add: default_desc_def mk_desc_def)
  moreover have "guard_begin ?d + 1 \<noteq> guard_begin ?d" "guard_end ?d + 1 \<noteq> guard_end ?d" by simp_all
  ultimately show ?thesis
    using guards_detect_overwrite [of ?d 4096 "guard_begin ?d + 1" "guard_end ?d + 1"] check_update_guards
    by blast
qed

section \<open>The descriptor store\<close>

text \<open>Two descriptors do not overlap: their addresses are at least 64 bytes apart, either way round.\<close>

definition far :: "addr \<Rightarrow> addr \<Rightarrow> bool" where
  "far a b \<longleftrightarrow> 64 \<le> a - b \<and> 64 \<le> b - a"

lemma far_sym: "far a b \<longleftrightarrow> far b a"
  by (auto simp: far_def)

lemma far_neq: "far a b \<Longrightarrow> a \<noteq> b"
  by (auto simp: far_def)

lemma far_cells:
  assumes "far a b" "i < 64" "j < 64"
  shows "a + i \<noteq> b + j"
proof
  assume e: "a + i = b + j"
  show False
  proof (cases "i \<le> j")
    case True
    have "a - b = j - i" using e by (simp add: algebra_simps)
    moreover have "j - i \<le> j" using True by (simp add: word_le_nat_alt unat_sub_noov)
    moreover have "64 \<le> a - b" using assms(1) by (simp add: far_def)
    ultimately have "64 \<le> j" by (metis order.trans)
    then show False using assms(3) by (meson leD)
  next
    case False
    have "b - a = i - j" using e by (simp add: algebra_simps)
    moreover have "i - j \<le> i" using False by (simp add: word_le_nat_alt unat_sub_noov)
    moreover have "64 \<le> b - a" using assms(1) by (simp add: far_def)
    ultimately have "64 \<le> i" by (metis order.trans)
    then show False using assms(2) by (meson leD)
  qed
qed

text \<open>
  What the block operations rely on: a saved descriptor is loaded back with its guards, and a save
  at one block does not disturb the descriptor of a block that is 64 bytes or more away.
\<close>

locale desc_store =
  fixes ld :: "'c \<Rightarrow> addr \<Rightarrow> fault + desc" and sv :: "'c \<Rightarrow> addr \<Rightarrow> desc \<Rightarrow> 'c"
  assumes load_save: "ld (sv c b d) b = Inr (update_guards d)"
    and load_save_far: "far a b \<Longrightarrow> ld (sv c b d) a = ld c a"

lemma read_write_desc: "read_desc (write_desc h b d) b = d"
  by (cases d) (simp add: read_desc_def write_desc_def)

lemma read_write_desc_far:
  assumes "far a b"
  shows "read_desc (write_desc h b d) a = read_desc h a"
proof -
  have "write_desc h b d (a + i) = h (a + i)" if "i < 64" for i
    using far_cells [OF assms that, of 0] far_cells [OF assms that, of 8] far_cells [OF assms that, of 16]
      far_cells [OF assms that, of 24] far_cells [OF assms that, of 32] far_cells [OF assms that, of 40]
      far_cells [OF assms that, of 48] far_cells [OF assms that, of 56]
    by (simp add: write_desc_def)
  from this [of 0] this [of 8] this [of 16] this [of 24] this [of 32] this [of 40] this [of 48] this [of 56]
  show ?thesis by (simp add: read_desc_def)
qed

interpretation md: desc_store load save
proof unfold_locales
  fix c b d
  show "load (save c b d) b = Inr (update_guards d)"
    by (simp add: load_def save_def Let_def read_write_desc)
next
  fix a b c d assume "far a b"
  then show "load (save c b d) a = load c a"
    using far_neq [of a b] by (simp add: load_def save_def Let_def read_write_desc_far)
qed

section \<open>Buddy chains\<close>

text \<open>
  A chunk taken from the system is cut into blocks (address, type, total size) whose descriptors
  link each block to its left and right buddy. \<open>chain m i l bs r\<close>: the lookup \<open>m\<close> holds exactly the
  descriptors of the blocks \<open>bs\<close>, of chunk index \<open>i\<close>, between the buddies \<open>l\<close> and \<open>r\<close>.
\<close>

type_synonym blk = "addr \<times> chunk_type \<times> u64"

fun first_addr :: "blk list \<Rightarrow> addr \<Rightarrow> addr" where
  "first_addr [] r = r"
| "first_addr ((a, t, n) # bs) r = a"

fun last_addr :: "addr \<Rightarrow> blk list \<Rightarrow> addr" where
  "last_addr l [] = l"
| "last_addr l ((a, t, n) # bs) = last_addr a bs"

definition blk_desc :: "u64 \<Rightarrow> addr \<Rightarrow> chunk_type \<Rightarrow> u64 \<Rightarrow> addr \<Rightarrow> desc" where
  "blk_desc i l t n r = update_guards (mk_desc t i (n - sizeof_Desc) n l r)"

fun chain :: "(addr \<Rightarrow> fault + desc) \<Rightarrow> u64 \<Rightarrow> addr \<Rightarrow> blk list \<Rightarrow> addr \<Rightarrow> bool" where
  "chain m i l [] r = True"
| "chain m i l ((a, t, n) # bs) r \<longleftrightarrow> m a = Inr (blk_desc i l t n (first_addr bs r)) \<and> chain m i a bs r"

abbreviation addrs :: "blk list \<Rightarrow> addr set" where
  "addrs bs \<equiv> fst ` set bs"

lemma first_addr_append [simp]: "first_addr (xs @ ys) r = first_addr xs (first_addr ys r)"
  by (induction xs) auto

lemma last_addr_append [simp]: "last_addr l (xs @ ys) = last_addr (last_addr l xs) ys"
  by (induction l xs rule: last_addr.induct) auto

lemma chain_append [simp]:
  "chain m i l (xs @ ys) r \<longleftrightarrow> chain m i l xs (first_addr ys r) \<and> chain m i (last_addr l xs) ys r"
  by (induction m i l xs r rule: chain.induct) auto

lemma chain_cong: "(\<And>a. a \<in> addrs bs \<Longrightarrow> m a = m' a) \<Longrightarrow> chain m i l bs r = chain m' i l bs r"
  by (induction m i l bs r rule: chain.induct) auto

lemma first_addr_in: "bs \<noteq> [] \<Longrightarrow> first_addr bs r \<in> addrs bs"
  by (cases bs) auto

lemma last_addr_in: "bs \<noteq> [] \<Longrightarrow> last_addr l bs \<in> addrs bs"
proof (induction l bs rule: last_addr.induct)
  case (2 l a t n bs)
  then show ?case by (cases "bs = []") auto
qed simp

lemma first_addr_eq_0: "0 \<notin> addrs bs \<Longrightarrow> first_addr bs 0 = 0 \<longleftrightarrow> bs = []"
  by (cases bs) (auto simp: image_iff)

lemma last_addr_eq_0: "0 \<notin> addrs bs \<Longrightarrow> last_addr 0 bs = 0 \<longleftrightarrow> bs = []"
  by (metis last_addr.simps(1) last_addr_in)

lemma blk_desc_fields [simp]:
  "desc_type (blk_desc i l t n r) = t" "desc_index (blk_desc i l t n r) = i"
  "desc_size (blk_desc i l t n r) = n - sizeof_Desc" "desc_total_size (blk_desc i l t n r) = n"
  "desc_left_buddy (blk_desc i l t n r) = l" "desc_right_buddy (blk_desc i l t n r) = r"
  "check_guards (blk_desc i l t n r)"
  by (simp_all add: blk_desc_def mk_desc_def)

text \<open>Saving a changed descriptor amounts to saving a fresh one.\<close>

lemma update_guards_blk [simp]:
  "update_guards (mk_desc t i (n - sizeof_Desc) n l r) = blk_desc i l t n r"
  "update_guards ((blk_desc i l t n r)\<lparr>desc_left_buddy := l'\<rparr>) = blk_desc i l' t n r"
  "update_guards ((blk_desc i l t n r)\<lparr>desc_type := t'\<rparr>) = blk_desc i l t' n r"
  "update_guards ((blk_desc i l t n r)
     \<lparr>desc_right_buddy := r', desc_size := k - sizeof_Desc, desc_total_size := k\<rparr>) = blk_desc i l t k r'"
  "update_guards ((blk_desc i l t n r)
     \<lparr>desc_right_buddy := r', desc_size := n - sizeof_Desc + k, desc_total_size := n + k\<rparr>)
   = blk_desc i l t (n + k) r'"
  by (simp_all add: blk_desc_def mk_desc_def) (rule update_guards_cong; simp)+

context desc_store
begin

lemma load_save_chain_far:
  assumes "\<And>a. a \<in> addrs bs \<Longrightarrow> far a b"
  shows "chain (ld (sv c b d)) i l bs r = chain (ld c) i l bs r"
  using assms by (intro chain_cong) (simp add: load_save_far)

end

lemma load_field_blk:
  "load c a = Inr d \<Longrightarrow> load_field f c a = Inr (f d)"
  by (simp add: load_field_def)

lemmas mb_fields = mb_type_def mb_size_def mb_index_def mb_total_size_def mb_left_buddy_def
  mb_right_buddy_def mb_has_left_buddy_def mb_has_right_buddy_def

text \<open>The blocks of a chain have addresses 64 bytes apart, none of them null.\<close>

definition spread :: "blk list \<Rightarrow> bool" where
  "spread bs \<longleftrightarrow> sorted_wrt far (map fst bs) \<and> 0 \<notin> addrs bs"

lemma spread_Cons [simp]: "spread (x # bs) \<longleftrightarrow> fst x \<noteq> 0 \<and> (\<forall>b \<in> addrs bs. far (fst x) b) \<and> spread bs"
  by (auto simp: spread_def)

lemma spread_append [simp]:
  "spread (xs @ ys) \<longleftrightarrow> spread xs \<and> spread ys \<and> (\<forall>a \<in> addrs xs. \<forall>b \<in> addrs ys. far a b)"
  by (auto simp: spread_def sorted_wrt_append)

lemma split_chain_lemma:
  assumes ch: "chain (load c) i l (xs @ (a, t, n) # ys) 0"
    and sz: "sz \<le> n" "sizeof_Desc < n - sz"
    and sp: "spread (xs @ (a, t, sz) # (a + sz, FREE_CHUNK, n - sz) # ys)"
  shows "\<exists>c'. mb_split a sz c = Normal () c' \<and> uses_gpu c' = uses_gpu c \<and>
    chain (load c') i l (xs @ (a, t, sz) # (a + sz, FREE_CHUNK, n - sz) # ys) 0 \<and>
    (\<forall>b. far b a \<and> far b (a + sz) \<and> (\<forall>y \<in> addrs ys. far b y) \<longrightarrow> load c' b = load c b)"
proof -
  let ?r = "first_addr ys 0"
  let ?b = "a + sz"
  let ?l = "last_addr l xs"
  have la: "load c a = Inr (blk_desc i ?l t n ?r)" using ch by simp
  let ?c1 = "save c ?b (mk_desc FREE_CHUNK i (n - sz - sizeof_Desc) (n - sz) a ?r)"
  let ?c2 = "save ?c1 a ((blk_desc i ?l t n ?r)
    \<lparr>desc_right_buddy := ?b, desc_size := sz - sizeof_Desc, desc_total_size := sz\<rparr>)"
  have ab: "far a ?b" "far ?b a" using sp by (simp_all add: far_sym)
  have l2: "load ?c2 a = Inr (blk_desc i ?l t sz ?b)" "load ?c2 ?b = Inr (blk_desc i a FREE_CHUNK (n - sz) ?r)"
    using ab by (simp_all add: md.load_save md.load_save_far)
  have far2: "load ?c2 x = load c x" if "far x a" "far x ?b" for x
    using that by (simp add: md.load_save_far)
  have xs2: "chain (load ?c2) i l xs a"
    using ch sp by (subst chain_cong [of xs "load ?c2" "load c"]) (auto intro!: far2)
  have ys2: "load ?c2 y = load c y" if "y \<in> addrs ys" for y
    using that sp by (intro far2) (auto simp: far_sym)
  have ug: "uses_gpu (save d x y) = uses_gpu d" for d x y by (simp add: save_def Let_def)
  show ?thesis
  proof (cases ys)
    case Nil
    have "mb_split a sz c = Normal () ?c2"
      using la sz(1) not_le [THEN iffD2, OF sz(2)] Nil by (simp add: mb_split_def mb_fields load_field_blk get_or_def Let_def)
    then show ?thesis using Nil xs2 l2 far2 ug by auto
  next
    case (Cons y ys')
    obtain q u m where y: "y = (q, u, m)" by (cases y)
    have q: "q \<noteq> 0" "far q a" "far q ?b" using sp Cons y by (auto simp: far_sym)
    have lq: "load ?c2 q = Inr (blk_desc i a u m (first_addr ys' 0))" using ys2 [of q] ch Cons y by simp
    let ?c3 = "save ?c2 q ((blk_desc i a u m (first_addr ys' 0))\<lparr>desc_left_buddy := ?b\<rparr>)"
    have run: "mb_split a sz c = Normal () ?c3"
      using la sz(1) not_le [THEN iffD2, OF sz(2)] Cons y q lq
      by (simp add: mb_split_def mb_fields load_field_blk get_or_def Let_def)
    have far3: "load ?c3 x = load ?c2 x" if "far x q" for x using that by (simp add: md.load_save_far)
    have "chain (load ?c3) i l xs a"
      using sp xs2 Cons y by (subst md.load_save_chain_far) (auto simp: far_sym)
    moreover have "chain (load ?c3) i q ys' 0"
    proof -
      have "chain (load ?c3) i q ys' 0 = chain (load ?c2) i q ys' 0"
        using sp Cons y by (intro md.load_save_chain_far) (auto simp: far_sym)
      also have "\<dots> = chain (load c) i q ys' 0" using ys2 Cons by (intro chain_cong) auto
      finally show ?thesis using ch Cons y by simp
    qed
    moreover have "load ?c3 a = load ?c2 a" "load ?c3 ?b = load ?c2 ?b" "load ?c3 q = Inr (blk_desc i ?b u m (first_addr ys' 0))"
      using q far3 by (auto simp: far_sym md.load_save)
    ultimately have "chain (load ?c3) i l (xs @ (a, t, sz) # (?b, FREE_CHUNK, n - sz) # ys) 0"
      using l2 Cons y by simp
    moreover have "load ?c3 x = load c x" if "far x a" "far x ?b" "\<forall>y \<in> addrs ys. far x y" for x
      using that far3 [of x] far2 [of x] Cons y by simp
    ultimately show ?thesis using run ug by blast
  qed
qed

lemma uses_gpu_save [simp]: "uses_gpu (save c b d) = uses_gpu c"
  by (simp add: save_def Let_def)

lemma merge_chain_lemma:
  assumes ch: "chain (load c) i l (xs @ (a, FREE_CHUNK, n) # (b, FREE_CHUNK, k) # ys) 0"
    and sp: "spread (xs @ (a, FREE_CHUNK, n) # (b, FREE_CHUNK, k) # ys)"
  shows "\<exists>c'. mb_merge a b c = Normal () c' \<and> uses_gpu c' = uses_gpu c \<and>
    chain (load c') i l (xs @ (a, FREE_CHUNK, n + k) # ys) 0 \<and>
    load c' b = Inr (update_guards default_desc) \<and>
    (\<forall>x. far x a \<and> far x b \<and> (\<forall>y \<in> addrs ys. far x y) \<longrightarrow> load c' x = load c x)"
proof -
  let ?r = "first_addr ys 0"
  let ?l = "last_addr l xs"
  let ?inv = "mk_desc INVALID_CHUNK 0 0 0 0 0"
  let ?new = "(blk_desc i ?l FREE_CHUNK n b)
    \<lparr>desc_right_buddy := ?r, desc_size := n - sizeof_Desc + k, desc_total_size := n + k\<rparr>"
  have la: "load c a = Inr (blk_desc i ?l FREE_CHUNK n b)" using ch by simp
  have lb: "load c b = Inr (blk_desc i a FREE_CHUNK k ?r)" using ch by simp
  have ab: "far a b" "far b a" using sp by (simp_all add: far_sym)
  let ?fin = "\<lambda>c1. save (save c1 a ?new) b ?inv"
  have upd: "update_guards ?new = blk_desc i ?l FREE_CHUNK (n + k) ?r" by (rule update_guards_blk)
  have end_a: "load (?fin c1) a = Inr (blk_desc i ?l FREE_CHUNK (n + k) ?r)" for c1
    using ab upd by (simp only: md.load_save_far md.load_save)
  have end_b: "load (?fin c1) b = Inr (update_guards default_desc)" for c1
    by (simp add: md.load_save default_desc_def)
  have end_far: "load (?fin c1) x = load c1 x" if "far x a" "far x b" for x c1
    using that by (simp add: md.load_save_far)
  have xs_far: "chain (load (?fin c)) i l xs a"
    using ch sp by (subst chain_cong [of xs _ "load c"]) (auto intro!: end_far)
  show ?thesis
  proof (cases ys)
    case Nil
    have "mb_merge a b c = Normal () (?fin c)"
      using la lb Nil by (simp add: mb_merge_def mb_fields load_field_blk get_or_def Let_def)
    then show ?thesis using Nil xs_far end_a [of c] end_b [of c] end_far by auto
  next
    case (Cons y ys')
    obtain q u m where y: "y = (q, u, m)" by (cases y)
    have q: "q \<noteq> 0" "far q a" "far q b" "far a q" "far b q" using sp Cons y by (auto simp: far_sym)
    have lq: "load c q = Inr (blk_desc i b u m (first_addr ys' 0))" using ch Cons y by simp
    let ?c1 = "save c q ((blk_desc i b u m (first_addr ys' 0))\<lparr>desc_left_buddy := a\<rparr>)"
    have l1: "load ?c1 b = Inr (blk_desc i a FREE_CHUNK k q)"
      using q lb Cons y by (simp add: md.load_save_far)
    have run: "mb_merge a b c = Normal () (?fin ?c1)"
      using la lb l1 lq q Cons y by (simp add: mb_merge_def mb_fields load_field_blk get_or_def Let_def)
    have far1: "load (?fin ?c1) x = load c x" if "far x a" "far x b" "far x q" for x
      using that by (simp add: md.load_save_far)
    have "chain (load (?fin ?c1)) i l xs a = chain (load c) i l xs a"
      using sp Cons y by (intro chain_cong far1) (auto simp: far_sym)
    moreover have "chain (load (?fin ?c1)) i q ys' 0 = chain (load c) i q ys' 0"
      using sp Cons y by (intro chain_cong far1) (auto simp: far_sym)
    moreover have "load (?fin ?c1) q = Inr (blk_desc i a u m (first_addr ys' 0))"
      using q by (simp add: md.load_save_far md.load_save)
    ultimately have "chain (load (?fin ?c1)) i l (xs @ (a, FREE_CHUNK, n + k) # ys) 0"
      using ch Cons y end_a [of ?c1] by simp
    moreover have "load (?fin ?c1) x = load c x" if "far x a" "far x b" "\<forall>y \<in> addrs ys. far x y" for x
      using that far1 [of x] Cons y by simp
    ultimately show ?thesis using run end_b by (metis uses_gpu_save)
  qed
qed

lemma set_type_chain_lemma:
  assumes ch: "chain (load c) i l (xs @ (a, t, n) # ys) r"
    and sp: "spread (xs @ (a, t, n) # ys)"
  shows "\<exists>c'. mb_set_type t' a c = Normal () c' \<and> uses_gpu c' = uses_gpu c \<and>
    chain (load c') i l (xs @ (a, t', n) # ys) r \<and> (\<forall>x. far x a \<longrightarrow> load c' x = load c x)"
proof -
  let ?d = "blk_desc i (last_addr l xs) t n (first_addr ys r)"
  let ?c' = "save c a (?d\<lparr>desc_type := t'\<rparr>)"
  have la: "load c a = Inr ?d" using ch by simp
  have "mb_set_type t' a c = Normal () ?c'" using la by (simp add: mb_set_type_def get_or_def)
  moreover have "load ?c' x = load c x" if "far x a" for x using that by (simp add: md.load_save_far)
  moreover have "chain (load ?c') i l xs a = chain (load c) i l xs a"
    using sp by (intro md.load_save_chain_far) (auto simp: far_sym)
  moreover have "chain (load ?c') i a ys r = chain (load c) i a ys r"
    using sp by (intro md.load_save_chain_far) (auto simp: far_sym)
  moreover have "load ?c' a = Inr (blk_desc i (last_addr l xs) t' n (first_addr ys r))"
    by (simp add: md.load_save)
  ultimately show ?thesis using ch by auto
qed

lemma mark_as_free_chain_lemma:
  assumes ch: "chain (load c) i l (xs @ (a, t, n) # ys) r"
    and sp: "spread (xs @ (a, t, n) # ys)"
  shows "\<exists>c'. mb_mark_as_free a c =
      (if t = FREE_CHUNK \<or> t = INVALID_CHUNK then Fault Assertion_Failed c else Normal () c') \<and>
    uses_gpu c' = uses_gpu c \<and>
    chain (load c') i l (xs @ (a, FREE_CHUNK, n) # ys) r \<and> (\<forall>x. far x a \<longrightarrow> load c' x = load c x)"
proof -
  have "load c a = Inr (blk_desc i (last_addr l xs) t n (first_addr ys r))" using ch by simp
  then have "mb_mark_as_free a c =
      (if t = FREE_CHUNK \<or> t = INVALID_CHUNK then Fault Assertion_Failed c else mb_set_type FREE_CHUNK a c)"
    by (simp add: mb_mark_as_free_def mb_type_def load_field_blk get_or_def)
  with set_type_chain_lemma [OF ch sp, of FREE_CHUNK] show ?thesis by metis
qed

lemma split_bails_out:
  assumes "load c a = Inr (blk_desc i l t n r)" "sz \<le> n" "n - sz \<le> sizeof_Desc"
  shows "mb_split a sz c = Normal () c"
  using assms by (simp add: mb_split_def mb_total_size_def load_field_blk get_or_def)

section \<open>Properties of blocks\<close>

definition ex_cache :: "bool \<Rightarrow> metadata_cache" where
  "ex_cache g = mb_init \<lparr>uses_gpu = g, cache_map = Map.empty, cpu_mem = \<lambda>_. 0\<rparr> FREE_CHUNK 0 1024 0 0 4096"

lemma ex_cache_chain: "chain (load (ex_cache g)) 0 0 ([] @ (4096, FREE_CHUNK, 1024) # []) 0"
  by (simp add: ex_cache_def mb_init_def md.load_save)

lemma ex_spread: "spread ([] @ (4096, FREE_CHUNK, 128) # (4096 + 128, FREE_CHUNK, 1024 - 128) # [])"
  by (simp add: far_def spread_def)

text \<open>
  C32: What is saved is loaded: a load after a save returns the descriptor with fresh guards and never
  aborts, on the CPU and on the GPU; the save leaves every descriptor that is 64 bytes away as it was.
\<close>

theorem save_load_round_trip:
  assumes "far a b"
  shows "load (save c b d) b = Inr (update_guards d) \<and> load (save c b d) a = load c a"
  using assms by (simp add: md.load_save md.load_save_far)

theorem save_load_round_trip_witness:
  "load (save (ex_cache False) 8192 default_desc) 8192 = Inr (update_guards default_desc) \<and>
   load (save (ex_cache False) 8192 default_desc) 4096 = load (ex_cache False) 4096"
  by (rule save_load_round_trip) (simp add: far_def)

text \<open>
  C23: \<open>MemoryBlock::split\<close> cuts a block of \<open>n\<close> bytes in two when more than a descriptor would remain: the
  chain then holds the left part of \<open>sz\<close> bytes, with the old type, and a free block of \<open>n - sz\<close> bytes
  at \<open>a + sz\<close>, all links repaired; no descriptor elsewhere changes.
\<close>

theorem split_refines:
  assumes "chain (load c) i l (xs @ (a, t, n) # ys) 0" and "sz \<le> n" and "sizeof_Desc < n - sz"
    and "spread (xs @ (a, t, sz) # (a + sz, FREE_CHUNK, n - sz) # ys)"
  shows "\<exists>c'. mb_split a sz c = Normal () c' \<and>
    chain (load c') i l (xs @ (a, t, sz) # (a + sz, FREE_CHUNK, n - sz) # ys) 0 \<and>
    (\<forall>b. far b a \<and> far b (a + sz) \<and> (\<forall>y \<in> addrs ys. far b y) \<longrightarrow> load c' b = load c b)"
  using split_chain_lemma [OF assms] by blast

theorem split_refines_witness:
  "\<exists>c'. mb_split 4096 128 (ex_cache False) = Normal () c' \<and>
    chain (load c') 0 0 [(4096, FREE_CHUNK, 128), (4224, FREE_CHUNK, 896)] 0"
  using split_refines [OF ex_cache_chain [of False], where sz = 128] ex_spread
  by (auto simp: sizeof_Desc_def)

text \<open>
  C24: \<open>MemoryBlock::merge\<close> of a free block with its free right buddy leaves one free block whose size is
  the sum, links repaired, and turns the descriptor of the buddy into the invalid one; no descriptor
  elsewhere changes.
\<close>

theorem merge_refines:
  assumes "chain (load c) i l (xs @ (a, FREE_CHUNK, n) # (b, FREE_CHUNK, k) # ys) 0"
    and "spread (xs @ (a, FREE_CHUNK, n) # (b, FREE_CHUNK, k) # ys)"
  shows "\<exists>c'. mb_merge a b c = Normal () c' \<and>
    chain (load c') i l (xs @ (a, FREE_CHUNK, n + k) # ys) 0 \<and>
    load c' b = Inr (update_guards default_desc) \<and>
    (\<forall>x. far x a \<and> far x b \<and> (\<forall>y \<in> addrs ys. far x y) \<longrightarrow> load c' x = load c x)"
  using merge_chain_lemma [OF assms] by blast

definition ex_buddies :: metadata_cache where
  "ex_buddies = mb_init (mb_init (ex_cache True) FREE_CHUNK 0 128 0 4224 4096) FREE_CHUNK 0 896 4096 0 4224"

theorem merge_refines_witness:
  "\<exists>c'. mb_merge 4096 4224 ex_buddies = Normal () c' \<and>
    chain (load c') 0 0 [(4096, FREE_CHUNK, 1024)] 0"
proof -
  have "far 4096 4224" "far 4224 4096" by (simp_all add: far_def)
  then have "chain (load ex_buddies) 0 0 ([] @ (4096, FREE_CHUNK, 128) # (4224, FREE_CHUNK, 896) # []) 0"
    by (simp add: ex_buddies_def mb_init_def md.load_save md.load_save_far)
  from merge_refines [OF this] ex_spread show ?thesis by auto
qed

text \<open>
  C33: Cutting a free block and merging the two parts again gives back the chain that was there before.
\<close>

theorem split_merge_round_trip:
  assumes ch: "chain (load c) i l (xs @ (a, FREE_CHUNK, n) # ys) 0" and sz: "sz \<le> n" "sizeof_Desc < n - sz"
    and sp: "spread (xs @ (a, FREE_CHUNK, sz) # (a + sz, FREE_CHUNK, n - sz) # ys)"
  shows "\<exists>c1 c2. mb_split a sz c = Normal () c1 \<and> mb_merge a (a + sz) c1 = Normal () c2 \<and>
    chain (load c2) i l (xs @ (a, FREE_CHUNK, n) # ys) 0"
proof -
  obtain c1 where c1: "mb_split a sz c = Normal () c1"
      "chain (load c1) i l (xs @ (a, FREE_CHUNK, sz) # (a + sz, FREE_CHUNK, n - sz) # ys) 0"
    using split_chain_lemma [OF ch sz sp] by blast
  with merge_chain_lemma [OF c1(2) sp] show ?thesis by (auto simp del: chain_append)
qed

theorem split_merge_round_trip_witness:
  "\<exists>c1 c2. mb_split 4096 128 (ex_cache True) = Normal () c1 \<and> mb_merge 4096 4224 c1 = Normal () c2 \<and>
    chain (load c2) 0 0 [(4096, FREE_CHUNK, 1024)] 0"
  using split_merge_round_trip [OF ex_cache_chain [of True], where sz = 128] ex_spread
  by (auto simp: sizeof_Desc_def)

text \<open>
  A double free is caught: \<open>mark_as_free\<close> aborts on a block of a chain that is free already, and turns a
  block in use into a free one, changing nothing else.
\<close>

lemma mark_as_free_refines:
  assumes "chain (load c) i l (xs @ (a, t, n) # ys) r" and "spread (xs @ (a, t, n) # ys)"
  shows "\<exists>c'. mb_mark_as_free a c =
      (if t = FREE_CHUNK \<or> t = INVALID_CHUNK then Fault Assertion_Failed c else Normal () c') \<and>
    chain (load c') i l (xs @ (a, FREE_CHUNK, n) # ys) r \<and> (\<forall>x. far x a \<longrightarrow> load c' x = load c x)"
  using mark_as_free_chain_lemma [OF assms] by blast

end
