(* ===== verification/System_Allocator.thy ===== *)
theory System_Allocator
  imports Prelude
begin

text \<open>
  The system allocators: \<open>bestfit_allocator/system_allocator.h\<close> and \<open>.cc\<close> and their older copy
  \<open>allocator_backends/system_alloc.cc\<close>. The virtual class \<open>SystemAllocator\<close> is a record of functions
  on the state of the object. What the C library, the kernel and CUDA do is not code of the
  repository: their calls are the fields of the records \<open>libc\<close> and \<open>cuda\<close>, functions on a state of
  their own. \<open>ndebug\<close> says whether \<open>assert\<close> is compiled away, with the call inside it.
\<close>

section \<open>The interface\<close>

text \<open>
  \<open>Alloc(size_t* index, size_t size)\<close> reads and may write \<open>*index\<close>: it takes the old index and returns the
  pointer with the new one.
\<close>

record 's sys_allocator =
  sys_alloc :: "u64 \<Rightarrow> u64 \<Rightarrow> 's \<Rightarrow> ('s, addr \<times> u64) outcome"
  sys_free :: "addr \<Rightarrow> u64 \<Rightarrow> u64 \<Rightarrow> 's \<Rightarrow> ('s, unit) outcome"
  sys_use_gpu :: bool

record build =
  ndebug :: bool
  with_mkldnn :: bool

definition c_assert :: "build \<Rightarrow> bool \<Rightarrow> 's \<Rightarrow> ('s, 'a) outcome \<Rightarrow> ('s, 'a) outcome" where
  "c_assert bd cond s k = (if \<not> ndebug bd \<and> \<not> cond then Fault Assertion_Failed s else k)"

section \<open>CPU memory\<close>

record 'os libc =
  posix_memalign :: "u64 \<Rightarrow> u64 \<Rightarrow> 'os \<Rightarrow> (int \<times> addr) \<times> 'os"
  libc_free :: "addr \<Rightarrow> 'os \<Rightarrow> 'os"
  mlock :: "addr \<Rightarrow> u64 \<Rightarrow> 'os \<Rightarrow> 'os"
  munlock :: "addr \<Rightarrow> u64 \<Rightarrow> 'os \<Rightarrow> 'os"

definition use_pinned_memory :: bool where "use_pinned_memory = False"

text \<open>
  \<open>assert(posix_memalign(&p, alignment, size) == 0)\<close>: under \<open>NDEBUG\<close> the call goes with the assertion and
  \<open>p\<close> keeps its initial null.
\<close>

definition aligned_malloc :: "build \<Rightarrow> 'os libc \<Rightarrow> u64 \<Rightarrow> 'os \<Rightarrow> ('os, addr) outcome" where
  "aligned_malloc bd lc sz os =
     (let p = 0; alignment = (if with_mkldnn bd then 4096 else 32)
      in obind
        (if ndebug bd then Normal p os
         else (case posix_memalign lc alignment sz os of ((rc, q), os) \<Rightarrow>
           if rc = 0 then Normal q os else Fault Assertion_Failed os))
        (\<lambda>p os. c_assert bd (p \<noteq> 0) os (Normal p os)))"

definition cpu_alloc :: "build \<Rightarrow> 'os libc \<Rightarrow> u64 \<Rightarrow> u64 \<Rightarrow> 'os \<Rightarrow> ('os, addr \<times> u64) outcome" where
  "cpu_alloc bd lc index sz os =
     (if sz \<le> 0 then Normal (0, index) os
      else let index = 0
        in obind (aligned_malloc bd lc sz os) (\<lambda>p os.
             if p \<noteq> 0 \<and> use_pinned_memory then Normal (p, 1) (mlock lc p sz os) else Normal (p, index) os))"

definition cpu_free :: "'os libc \<Rightarrow> addr \<Rightarrow> u64 \<Rightarrow> u64 \<Rightarrow> 'os \<Rightarrow> ('os, unit) outcome" where
  "cpu_free lc p sz index os =
     (let os = if p \<noteq> 0 \<and> index = 1 then munlock lc p sz os else os in Normal () (libc_free lc p os))"

definition cpu_use_gpu :: bool where "cpu_use_gpu = False"

definition cpu_allocator :: "build \<Rightarrow> 'os libc \<Rightarrow> 'os sys_allocator" where
  "cpu_allocator bd lc = \<lparr>sys_alloc = cpu_alloc bd lc, sys_free = cpu_free lc, sys_use_gpu = cpu_use_gpu\<rparr>"

text \<open>The copy in \<open>allocator_backends\<close> never pins and frees without looking at the index.\<close>

definition backend_aligned_malloc :: "build \<Rightarrow> 'os libc \<Rightarrow> u64 \<Rightarrow> 'os \<Rightarrow> ('os, addr) outcome" where
  "backend_aligned_malloc bd lc sz os =
     (let p = 0; alignment = (if with_mkldnn bd then 4096 else 32)
      in obind
        (if ndebug bd then Normal p os
         else (case posix_memalign lc alignment sz os of ((rc, q), os) \<Rightarrow>
           if rc = 0 then Normal q os else Fault Assertion_Failed os))
        (\<lambda>p os. c_assert bd (p \<noteq> 0) os (Normal p os)))"

definition backend_alloc :: "build \<Rightarrow> 'os libc \<Rightarrow> u64 \<Rightarrow> u64 \<Rightarrow> 'os \<Rightarrow> ('os, addr \<times> u64) outcome" where
  "backend_alloc bd lc index sz os =
     (if sz \<le> 0 then Normal (0, index) os
      else let index = 0 in obind (backend_aligned_malloc bd lc sz os) (\<lambda>p os. Normal (p, index) os))"

definition backend_free :: "'os libc \<Rightarrow> addr \<Rightarrow> u64 \<Rightarrow> u64 \<Rightarrow> 'os \<Rightarrow> ('os, unit) outcome" where
  "backend_free lc p sz index os = Normal () (libc_free lc p os)"

definition backend_use_gpu :: bool where "backend_use_gpu = False"

definition backend_allocator :: "build \<Rightarrow> 'os libc \<Rightarrow> 'os sys_allocator" where
  "backend_allocator bd lc = \<lparr>sys_alloc = backend_alloc bd lc, sys_free = backend_free lc, sys_use_gpu = backend_use_gpu\<rparr>"

section \<open>GPU and pinned memory\<close>

record 'os cuda =
  cuda_get_device :: "'os \<Rightarrow> int"
  cuda_set_device :: "int \<Rightarrow> 'os \<Rightarrow> 'os"
  cuda_malloc :: "u64 \<Rightarrow> 'os \<Rightarrow> (int \<times> addr) \<times> 'os"
  cuda_host_alloc :: "u64 \<Rightarrow> 'os \<Rightarrow> (int \<times> addr) \<times> 'os"
  cuda_free :: "addr \<Rightarrow> 'os \<Rightarrow> int \<times> 'os"
  cuda_free_host :: "addr \<Rightarrow> 'os \<Rightarrow> int \<times> 'os"
  cuda_success :: int
  cuda_unloading :: int
  pinned_max_alloc_size :: u64

record 'os gpu =
  gpu_alloc_size :: u64
  fallback_alloc_size :: u64
  gpu_id :: int
  gpu_os :: 'os

definition gpu_new :: "int \<Rightarrow> 'os \<Rightarrow> 'os gpu" where
  "gpu_new i os = \<lparr>gpu_alloc_size = 0, fallback_alloc_size = 0, gpu_id = i, gpu_os = os\<rparr>"

definition gpu_alloc :: "'os cuda \<Rightarrow> u64 \<Rightarrow> u64 \<Rightarrow> 'os gpu \<Rightarrow> ('os gpu, addr \<times> u64) outcome" where
  "gpu_alloc cu index sz g =
     (if sz \<le> 0 then Normal (0, index) g
      else let prev_id = cuda_get_device cu (gpu_os g);
               os = (if prev_id \<noteq> gpu_id g then cuda_set_device cu (gpu_id g) (gpu_os g) else gpu_os g)
        in case cuda_malloc cu sz os of ((result, p), os) \<Rightarrow>
             let os = (if prev_id \<noteq> gpu_id g then cuda_set_device cu prev_id os else os);
                 g = g\<lparr>gpu_os := os\<rparr>
             in if result = cuda_success cu
                then Normal (p, 0) (g\<lparr>gpu_alloc_size := gpu_alloc_size g + sz\<rparr>)
                else Normal (0, index) g)"

definition gpu_free :: "build \<Rightarrow> 'os cuda \<Rightarrow> addr \<Rightarrow> u64 \<Rightarrow> u64 \<Rightarrow> 'os gpu \<Rightarrow> ('os gpu, unit) outcome" where
  "gpu_free bd cu p sz index g =
     obind
       (if index = 0
        then c_assert bd (sz \<le> gpu_alloc_size g) g
          (case cuda_free cu p (gpu_os g) of (err, os) \<Rightarrow>
             Normal err (g\<lparr>gpu_alloc_size := gpu_alloc_size g - sz, gpu_os := os\<rparr>))
        else c_assert bd (sz \<le> fallback_alloc_size g) g
          (case cuda_free_host cu p (gpu_os g) of (err, os) \<Rightarrow>
             Normal err (g\<lparr>fallback_alloc_size := fallback_alloc_size g - sz, gpu_os := os\<rparr>)))
       (\<lambda>err g. if err \<noteq> cuda_unloading cu then c_assert bd (err = 0) g (Normal () g) else Normal () g)"

definition gpu_use_gpu :: bool where "gpu_use_gpu = True"

definition gpu_allocator :: "build \<Rightarrow> 'os cuda \<Rightarrow> 'os gpu sys_allocator" where
  "gpu_allocator bd cu = \<lparr>sys_alloc = gpu_alloc cu, sys_free = gpu_free bd cu, sys_use_gpu = gpu_use_gpu\<rparr>"

record 'os pinned =
  cuda_pinnd_alloc_size :: u64
  pinned_os :: 'os

definition pinned_alloc :: "'os cuda \<Rightarrow> u64 \<Rightarrow> u64 \<Rightarrow> 'os pinned \<Rightarrow> ('os pinned, addr \<times> u64) outcome" where
  "pinned_alloc cu index sz s =
     (if sz \<le> 0 then Normal (0, index) s
      else let usable = pinned_max_alloc_size cu - cuda_pinnd_alloc_size s
        in if sz > usable then Normal (0, index) s
           else case cuda_host_alloc cu sz (pinned_os s) of ((result, p), os) \<Rightarrow>
             let s = s\<lparr>pinned_os := os\<rparr>
             in if result = cuda_success cu
                then Normal (p, 1) (s\<lparr>cuda_pinnd_alloc_size := cuda_pinnd_alloc_size s + sz\<rparr>)
                else Normal (0, index) s)"

definition pinned_free :: "build \<Rightarrow> 'os cuda \<Rightarrow> addr \<Rightarrow> u64 \<Rightarrow> u64 \<Rightarrow> 'os pinned \<Rightarrow> ('os pinned, unit) outcome" where
  "pinned_free bd cu p sz index s =
     c_assert bd (index = 1) s
       (c_assert bd (sz \<le> cuda_pinnd_alloc_size s) s
         (case cuda_free_host cu p (pinned_os s) of (err, os) \<Rightarrow>
            let s = s\<lparr>cuda_pinnd_alloc_size := cuda_pinnd_alloc_size s - sz, pinned_os := os\<rparr>
            in if err \<noteq> cuda_unloading cu then c_assert bd (err = 0) s (Normal () s) else Normal () s))"

definition pinned_use_gpu :: bool where "pinned_use_gpu = False"

definition pinned_allocator :: "build \<Rightarrow> 'os cuda \<Rightarrow> 'os pinned sys_allocator" where
  "pinned_allocator bd cu =
     \<lparr>sys_alloc = pinned_alloc cu, sys_free = pinned_free bd cu, sys_use_gpu = pinned_use_gpu\<rparr>"

section \<open>Accounting\<close>

text \<open>
  The contract the CUDA allocators share: a counter that grows by the size of each block handed out
  and shrinks by the size of each block taken back. \<open>run\<close> is a history of calls, each allocation with
  the size asked for and each release with what it names; the client lemma balances a history.
\<close>

datatype call = Take u64 | Give addr u64 u64

fun run_calls ::
  "(u64 \<Rightarrow> u64 \<Rightarrow> 's \<Rightarrow> ('s, addr \<times> u64) outcome) \<Rightarrow> (addr \<Rightarrow> u64 \<Rightarrow> u64 \<Rightarrow> 's \<Rightarrow> ('s, unit) outcome) \<Rightarrow>
   call list \<Rightarrow> 's \<Rightarrow> ('s, (addr \<times> u64) list) outcome" where
  "run_calls al fr [] s = Normal [] s"
| "run_calls al fr (Take n # cs) s =
     obind (al 0 n s) (\<lambda>(p, j) s. obind (run_calls al fr cs s) (\<lambda>rs s. Normal ((p, n) # rs) s))"
| "run_calls al fr (Give p n j # cs) s =
     obind (fr p n j s) (\<lambda>_ s. run_calls al fr cs s)"

fun given :: "call list \<Rightarrow> u64" where
  "given [] = 0"
| "given (Take n # cs) = given cs"
| "given (Give p n j # cs) = n + given cs"

locale accounting =
  fixes al :: "u64 \<Rightarrow> u64 \<Rightarrow> 's \<Rightarrow> ('s, addr \<times> u64) outcome"
    and fr :: "addr \<Rightarrow> u64 \<Rightarrow> u64 \<Rightarrow> 's \<Rightarrow> ('s, unit) outcome"
    and used :: "'s \<Rightarrow> u64"
  assumes al_used: "al i n s = Normal (p, j) s' \<Longrightarrow> p \<noteq> 0 \<Longrightarrow> used s' = used s + n"
    and fr_used: "fr p n j s = Normal u s' \<Longrightarrow> used s' = used s - n"
begin

lemma run_used:
  "run_calls al fr cs s = Normal rs s' \<Longrightarrow> 0 \<notin> fst ` set rs \<Longrightarrow>
   used s' = used s + sum_list (map snd rs) - given cs"
proof (induction cs arbitrary: s rs s')
  case Nil
  then show ?case by simp
next
  case (Cons c cs)
  then show ?case
    by (cases c) (auto simp: obind_Normal_iff dest!: al_used fr_used split: prod.splits)
qed

end

lemma c_assert_Normal: "c_assert bd c s k = Normal x s' \<longleftrightarrow> (ndebug bd \<or> c) \<and> k = Normal x s'"
  by (auto simp: c_assert_def)

interpretation gpu: accounting "gpu_alloc cu" "gpu_free bd cu" "\<lambda>g. gpu_alloc_size g + fallback_alloc_size g"
proof unfold_locales
  fix i n g p j g'
  assume "gpu_alloc cu i n g = Normal (p, j) g'" "p \<noteq> 0"
  then show "gpu_alloc_size g' + fallback_alloc_size g' = gpu_alloc_size g + fallback_alloc_size g + n"
    by (auto simp: gpu_alloc_def Let_def split: if_splits prod.splits)
next
  fix p n j g u g'
  assume "gpu_free bd cu p n j g = Normal u g'"
  then show "gpu_alloc_size g' + fallback_alloc_size g' = gpu_alloc_size g + fallback_alloc_size g - n"
    by (auto simp: gpu_free_def obind_Normal_iff c_assert_Normal split: if_splits prod.splits)
qed

interpretation pinned: accounting "pinned_alloc cu" "pinned_free bd cu" cuda_pinnd_alloc_size
proof unfold_locales
  fix i n s p j s'
  assume "pinned_alloc cu i n s = Normal (p, j) s'" "p \<noteq> 0"
  then show "cuda_pinnd_alloc_size s' = cuda_pinnd_alloc_size s + n"
    by (auto simp: pinned_alloc_def Let_def split: if_splits prod.splits)
next
  fix p n j s u s'
  assume "pinned_free bd cu p n j s = Normal u s'"
  then show "cuda_pinnd_alloc_size s' = cuda_pinnd_alloc_size s - n"
    by (auto simp: pinned_free_def c_assert_Normal Let_def split: if_splits prod.splits)
qed

section \<open>Properties of the system allocators\<close>

text \<open>
  Over any history of calls to the GPU allocator in which no allocation fails, the two counters
  together are the bytes handed out less the bytes taken back.
\<close>

lemma gpu_counters_balance:
  assumes "run_calls (gpu_alloc cu) (gpu_free bd cu) cs (gpu_new i os) = Normal rs g" and "0 \<notin> fst ` set rs"
  shows "gpu_alloc_size g + fallback_alloc_size g = sum_list (map snd rs) - given cs"
  using gpu.run_used [OF assms] by (simp add: gpu_new_def)

definition ex_build :: build where "ex_build = \<lparr>ndebug = False, with_mkldnn = False\<rparr>"

text \<open>A device whose state is the next free address and the selected device.\<close>

definition ex_cuda :: "(u64 \<times> int) cuda" where
  "ex_cuda = \<lparr>cuda_get_device = snd, cuda_set_device = \<lambda>d (a, _). (a, d),
     cuda_malloc = \<lambda>n (a, d). ((0, a), (a + n, d)), cuda_host_alloc = \<lambda>n (a, d). ((0, a), (a + n, d)),
     cuda_free = \<lambda>p s. (0, s), cuda_free_host = \<lambda>p s. (0, s), cuda_success = 0, cuda_unloading = 4,
     pinned_max_alloc_size = 1048576\<rparr>"

text \<open>
  C38: The pinned allocator stays within its budget: while the counter is at most
  \<open>CUDAPinnedMaxAllocSize\<close>, an allocation or (with assertions on) a release keeps it so, and a
  request beyond what is left is refused with null and no call to CUDA.
\<close>

theorem pinned_budget:
  assumes "cuda_pinnd_alloc_size s \<le> pinned_max_alloc_size cu" and "\<not> ndebug bd"
  shows "(pinned_alloc cu i n s = Normal r s' \<longrightarrow> cuda_pinnd_alloc_size s' \<le> pinned_max_alloc_size cu) \<and>
    (pinned_free bd cu p n j s = Normal u s'' \<longrightarrow> cuda_pinnd_alloc_size s'' \<le> pinned_max_alloc_size cu) \<and>
    (n > pinned_max_alloc_size cu - cuda_pinnd_alloc_size s \<longrightarrow> pinned_alloc cu i n s = Normal (0, i) s)"
proof (intro conjI impI)
  let ?m = "pinned_max_alloc_size cu" and ?u = "cuda_pinnd_alloc_size s"
  have add: "?u + n \<le> ?m" if "n \<le> ?m - ?u"
    using that assms(1) by (metis add.commute diff_add_cancel word_le_minus_cancel word_plus_mono_right)
  assume "pinned_alloc cu i n s = Normal r s'"
  then show "cuda_pinnd_alloc_size s' \<le> ?m"
    using assms(1) add by (auto simp: pinned_alloc_def Let_def not_less split: if_splits prod.splits)
next
  assume "pinned_free bd cu p n j s = Normal u s''"
  then have "n \<le> cuda_pinnd_alloc_size s" "cuda_pinnd_alloc_size s'' = cuda_pinnd_alloc_size s - n"
    using assms(2) by (auto simp: pinned_free_def c_assert_Normal Let_def split: if_splits prod.splits)
  moreover from this have "cuda_pinnd_alloc_size s - n \<le> cuda_pinnd_alloc_size s"
    by (simp add: word_le_nat_alt unat_sub_noov)
  ultimately show "cuda_pinnd_alloc_size s'' \<le> pinned_max_alloc_size cu"
    using assms(1) by simp
next
  assume "n > pinned_max_alloc_size cu - cuda_pinnd_alloc_size s"
  then show "pinned_alloc cu i n s = Normal (0, i) s" by (auto simp: pinned_alloc_def Let_def)
qed

theorem pinned_budget_witness:
  "pinned_alloc ex_cuda 7 2097152 \<lparr>cuda_pinnd_alloc_size = 4096, pinned_os = (8192, 0)\<rparr> =
     Normal (0, 7) \<lparr>cuda_pinnd_alloc_size = 4096, pinned_os = (8192, 0)\<rparr>"
proof -
  let ?s = "\<lparr>cuda_pinnd_alloc_size = 4096, pinned_os = (8192, 0)\<rparr> :: (u64 \<times> int) pinned"
  have "cuda_pinnd_alloc_size ?s \<le> pinned_max_alloc_size ex_cuda" "\<not> ndebug ex_build"
    "2097152 > pinned_max_alloc_size ex_cuda - cuda_pinnd_alloc_size ?s"
    by (simp_all add: ex_cuda_def ex_build_def)
  with pinned_budget show ?thesis by blast
qed

text \<open>
  The GPU allocator puts the selected device back, whether \<open>cudaMalloc\<close> succeeds or not,
  given that selecting a device selects it and that allocating does not change the selection.
\<close>

lemma gpu_alloc_restores_device:
  assumes "\<And>d os. cuda_get_device cu (cuda_set_device cu d os) = d"
    and "\<And>n os. cuda_get_device cu (snd (cuda_malloc cu n os)) = cuda_get_device cu os"
  shows "case gpu_alloc cu i n g of Normal r g' \<Rightarrow>
      cuda_get_device cu (gpu_os g') = cuda_get_device cu (gpu_os g) \<and> gpu_id g' = gpu_id g
    | Fault e g' \<Rightarrow> False"
  using assms(1) assms(2) [of n "gpu_os g"]
  by (auto simp: gpu_alloc_def Let_def split: prod.splits)

text \<open>
  C39: A build with \<open>NDEBUG\<close> never allocates CPU memory: the call to \<open>posix_memalign\<close> is compiled away
  with its \<open>assert\<close>, so every request returns null, in the state it was made in, and nothing aborts.
\<close>

theorem ndebug_build_never_allocates:
  assumes "ndebug bd"
  shows "\<exists>j. cpu_alloc bd lc i n os = Normal (0, j) os"
  using assms by (auto simp: cpu_alloc_def aligned_malloc_def c_assert_def Let_def)

text \<open>A C library whose state is the next free address; it never reuses memory.\<close>

definition ex_libc :: "u64 libc" where
  "ex_libc = \<lparr>posix_memalign = \<lambda>al n a.
       if a \<noteq> 0 \<and> unat a + unat n < 2 ^ 64 then ((0, a), a + n) else ((12, 0), a),
     libc_free = \<lambda>p a. a, mlock = \<lambda>p n a. a, munlock = \<lambda>p n a. a\<rparr>"

theorem ndebug_build_never_allocates_witness:
  "ndebug (ex_build\<lparr>ndebug := True\<rparr>) \<and>
   (\<exists>j. cpu_alloc (ex_build\<lparr>ndebug := True\<rparr>) ex_libc 0 4096 8192 = Normal (0, j) 8192) \<and>
   cpu_alloc ex_build ex_libc 0 4096 8192 = Normal (8192, 0) 12288"
  using ndebug_build_never_allocates [of "ex_build\<lparr>ndebug := True\<rparr>"]
  by (simp add: ex_build_def cpu_alloc_def aligned_malloc_def ex_libc_def c_assert_def use_pinned_memory_def)

text \<open>
  The allocator of \<open>allocator_backends\<close> and that of \<open>bestfit_allocator\<close> are the same function of every
  request, and release a block of theirs (index 0) the same way: pinning is off, so the index
  never becomes 1.
\<close>

lemma backend_equivalent:
  "cpu_alloc bd lc i n os = backend_alloc bd lc i n os \<and> cpu_free lc p n 0 os = backend_free lc p n 0 os"
  by (simp add: cpu_alloc_def backend_alloc_def cpu_free_def backend_free_def use_pinned_memory_def
      backend_aligned_malloc_def aligned_malloc_def)

end
