(* ===== verification/Buddy_Allocator.thy ===== *)
theory Buddy_Allocator
  imports Memory_Block System_Allocator
begin

text \<open>
  \<open>bestfit_allocator/buddy_allocator.h\<close> and \<open>.cc\<close>: the best-fit allocator. Chunks of
  \<open>max_chunk_size\<close> bytes come from the system allocator, \<open>Alloc\<close> cuts blocks off their free
  parts, \<open>Free\<close> merges a block with its free buddies; a request beyond \<open>max_chunk_size\<close> goes to
  the system directly. The free blocks are in \<open>pool\<close>, a \<open>std::set\<close> of tuples ordered
  lexicographically, here a sorted list. The mutex serialises the calls and is not modelled:
  each operation is one step. \<open>gm\<close> is \<open>GpuMaxChunkSize()\<close> in a build with CUDA.
\<close>

section \<open>The pool\<close>

datatype isa = Isa (isa_index: u64) (isa_size: u64) (isa_addr: addr)

instantiation isa :: linorder
begin

definition less_isa :: "isa \<Rightarrow> isa \<Rightarrow> bool" where
  "less_isa x y \<longleftrightarrow> isa_index x < isa_index y \<or> isa_index x = isa_index y \<and>
     (isa_size x < isa_size y \<or> isa_size x = isa_size y \<and> isa_addr x < isa_addr y)"

definition less_eq_isa :: "isa \<Rightarrow> isa \<Rightarrow> bool" where
  "less_eq_isa x y \<longleftrightarrow> x < y \<or> x = y"

instance
  by intro_classes (auto simp: less_isa_def less_eq_isa_def intro: isa.expand)

end

definition lower_bound :: "isa \<Rightarrow> isa list \<Rightarrow> isa option" where
  "lower_bound x p = find (\<lambda>y. x \<le> y) p"

definition pool_insert :: "isa \<Rightarrow> isa list \<Rightarrow> isa list" where
  "pool_insert x p = (if x \<in> set p then p else insort x p)"

definition pool_erase :: "isa \<Rightarrow> isa list \<Rightarrow> isa list" where
  "pool_erase x p = remove1 x p"

lemma lower_bound_Some: "lower_bound x p = Some y \<Longrightarrow> y \<in> set p \<and> x \<le> y"
  by (auto simp: lower_bound_def find_Some_iff)

text \<open>The endless loop of \<open>FindExistChunk\<close>: the index grows in every round.\<close>

function find_from :: "u64 \<Rightarrow> u64 \<Rightarrow> isa list \<Rightarrow> isa option" where
  "find_from index sz p =
     (case lower_bound (Isa index sz 0) p of
        None \<Rightarrow> None
      | Some it \<Rightarrow>
          if isa_index it > index
          then (if isa_size it \<ge> sz then Some it else find_from (isa_index it) sz p)
          else Some it)"
  by pat_completeness auto
termination
  by (relation "measure (\<lambda>(index, sz, p). 2 ^ 64 - unat index)")
    (auto simp: word_less_nat_alt intro: diff_less_mono2 unat_lt_2_64)

definition find_exist_chunk :: "u64 \<Rightarrow> isa list \<Rightarrow> isa option" where
  "find_exist_chunk sz p = find_from 0 sz p"

section \<open>The allocator\<close>

record 'sys buddy =
  total_used :: u64
  total_free :: u64
  min_chunk_size :: u64
  max_chunk_size :: u64
  pool :: "isa list"
  fallback_alloc_count :: u64
  cache :: metadata_cache
  system :: 'sys

definition buddy_new :: "'sys sys_allocator \<Rightarrow> (addr \<Rightarrow> u64) \<Rightarrow> 'sys \<Rightarrow> u64 \<Rightarrow> u64 \<Rightarrow> 'sys buddy" where
  "buddy_new sa memory system_allocator min_chunk max_chunk =
     \<lparr>total_used = 0, total_free = 0, min_chunk_size = min_chunk, max_chunk_size = max_chunk,
      pool = [], fallback_alloc_count = 0,
      cache = \<lparr>uses_gpu = sys_use_gpu sa, cache_map = Map.empty, cpu_mem = memory\<rparr>,
      system = system_allocator\<rparr>"

text \<open>A call on the system allocator, and an operation of a block on the cache.\<close>

definition on_system :: "('sys \<Rightarrow> ('sys, 'a) outcome) \<Rightarrow> 'sys buddy \<Rightarrow> ('sys buddy, 'a) outcome" where
  "on_system f b = (case f (system b) of
      Normal x s \<Rightarrow> Normal x (b\<lparr>system := s\<rparr>) | Fault e s \<Rightarrow> Fault e (b\<lparr>system := s\<rparr>))"

definition on_cache ::
  "(metadata_cache \<Rightarrow> (metadata_cache, 'a) outcome) \<Rightarrow> 'sys buddy \<Rightarrow> ('sys buddy, 'a) outcome" where
  "on_cache f b = (case f (cache b) of
      Normal x c \<Rightarrow> Normal x (b\<lparr>cache := c\<rparr>) | Fault e c \<Rightarrow> Fault e (b\<lparr>cache := c\<rparr>))"

definition align :: "u64 \<Rightarrow> u64 \<Rightarrow> fault + u64" where
  "align sz alignment =
     (if alignment = 0 then Inl Undefined_Behaviour
      else let remaining = sz mod alignment
           in Inr (if remaining = 0 then sz else sz + (alignment - remaining)))"

definition system_alloc :: "'sys sys_allocator \<Rightarrow> u64 \<Rightarrow> 'sys buddy \<Rightarrow> ('sys buddy, addr) outcome" where
  "system_alloc sa sz b =
     obind (on_system (sys_alloc sa 0 sz) b) (\<lambda>(p, index) b.
       if p = 0 then Normal 0 b
       else Normal (mb_data p) (b\<lparr>cache := mb_init (cache b) HUGE_CHUNK index sz 0 0 p\<rparr>))"

definition refill_pool :: "'sys sys_allocator \<Rightarrow> u64 option \<Rightarrow> 'sys buddy \<Rightarrow> ('sys buddy, isa option) outcome" where
  "refill_pool sa gm b =
     (let b = (case gm of None \<Rightarrow> b
          | Some m \<Rightarrow> if sys_use_gpu sa \<and> total_used b + total_free b = 0
                      then b\<lparr>max_chunk_size := m\<rparr> else b)
      in obind (on_system (sys_alloc sa 0 (max_chunk_size b)) b) (\<lambda>(p, index) b.
        if p = 0 then Normal None b
        else let b = b\<lparr>cache := mb_init (cache b) FREE_CHUNK index (max_chunk_size b) 0 0 p\<rparr>
          in obind
            (if sys_use_gpu sa
             then get_or b (mb_index (cache b) p) (\<lambda>i.
               Normal () (if i = 1 then b\<lparr>fallback_alloc_count := fallback_alloc_count b + 1\<rparr> else b))
             else Normal () b)
            (\<lambda>_ b.
              let b = b\<lparr>total_free := total_free b + max_chunk_size b\<rparr>;
                  x = Isa index (max_chunk_size b) p
              in Normal (Some x) (b\<lparr>pool := pool_insert x (pool b)\<rparr>))))"

definition split_to_alloc :: "isa \<Rightarrow> u64 \<Rightarrow> 'sys buddy \<Rightarrow> ('sys buddy, addr) outcome" where
  "split_to_alloc it sz b =
     (let block = isa_addr it; b = b\<lparr>pool := pool_erase it (pool b)\<rparr>
      in obind (on_cache (mb_split block sz) b) (\<lambda>_ b.
         obind (on_cache (mb_set_type ARENA_CHUNK block) b) (\<lambda>_ b.
         get_or b (mb_has_right_buddy (cache b) block) (\<lambda>has_right_buddy.
           if has_right_buddy
           then get_or b (mb_right_buddy (cache b) block) (\<lambda>right_buddy.
             get_or b (mb_type (cache b) right_buddy) (\<lambda>t.
               if t = FREE_CHUNK
               then get_or b (mb_index (cache b) right_buddy) (\<lambda>i.
                 get_or b (mb_total_size (cache b) right_buddy) (\<lambda>n.
                   Normal block (b\<lparr>pool := pool_insert (Isa i n right_buddy) (pool b)\<rparr>)))
               else Normal block b))
           else Normal block b))))"

definition buddy_alloc :: "'sys sys_allocator \<Rightarrow> u64 option \<Rightarrow> u64 \<Rightarrow> 'sys buddy \<Rightarrow> ('sys buddy, addr) outcome" where
  "buddy_alloc sa gm unaligned_size b =
     get_or b (align (unaligned_size + sizeof_Desc) (min_chunk_size b)) (\<lambda>sz.
       if sz > max_chunk_size b then system_alloc sa sz b
       else obind
         (case find_exist_chunk sz (pool b) of
            None \<Rightarrow> refill_pool sa gm b
          | Some it \<Rightarrow> Normal (Some it) b)
         (\<lambda>it b. case it of None \<Rightarrow> Normal 0 b
          | Some it \<Rightarrow>
              let b = b\<lparr>total_used := total_used b + sz, total_free := total_free b - sz\<rparr>
              in obind (split_to_alloc it sz b) (\<lambda>block b. Normal (mb_data block) b)))"

section \<open>Free\<close>

definition merge_right :: "addr \<Rightarrow> 'sys buddy \<Rightarrow> ('sys buddy, unit) outcome" where
  "merge_right block b =
     get_or b (mb_has_right_buddy (cache b) block) (\<lambda>has_right_buddy.
       if has_right_buddy
       then get_or b (mb_right_buddy (cache b) block) (\<lambda>right_buddy.
         get_or b (mb_type (cache b) right_buddy) (\<lambda>t.
           if t = FREE_CHUNK
           then get_or b (mb_index (cache b) right_buddy) (\<lambda>i.
             get_or b (mb_total_size (cache b) right_buddy) (\<lambda>n.
               on_cache (mb_merge block right_buddy)
                 (b\<lparr>pool := pool_erase (Isa i n right_buddy) (pool b)\<rparr>)))
           else Normal () b))
       else Normal () b)"

definition merge_left :: "addr \<Rightarrow> 'sys buddy \<Rightarrow> ('sys buddy, addr) outcome" where
  "merge_left block b =
     get_or b (mb_has_left_buddy (cache b) block) (\<lambda>has_left_buddy.
       if has_left_buddy
       then get_or b (mb_left_buddy (cache b) block) (\<lambda>left_buddy.
         get_or b (mb_type (cache b) left_buddy) (\<lambda>t.
           if t = FREE_CHUNK
           then get_or b (mb_index (cache b) left_buddy) (\<lambda>i.
             get_or b (mb_total_size (cache b) left_buddy) (\<lambda>n.
               obind (on_cache (mb_merge left_buddy block)
                   (b\<lparr>pool := pool_erase (Isa i n left_buddy) (pool b)\<rparr>))
                 (\<lambda>_ b. Normal left_buddy b)))
           else Normal block b))
       else Normal block b)"

definition buddy_free :: "'sys sys_allocator \<Rightarrow> addr \<Rightarrow> 'sys buddy \<Rightarrow> ('sys buddy, unit) outcome" where
  "buddy_free sa p b =
     (let block = mb_metadata p
      in get_or b (mb_type (cache b) block) (\<lambda>t.
        if t = HUGE_CHUNK
        then get_or b (mb_total_size (cache b) block) (\<lambda>n.
          get_or b (mb_index (cache b) block) (\<lambda>i.
            obind (on_system (sys_free sa block n i) b) (\<lambda>_ b.
              Normal () (b\<lparr>cache := invalidate (cache b) block\<rparr>))))
        else obind (on_cache (mb_mark_as_free block) b) (\<lambda>_ b.
          get_or b (mb_total_size (cache b) block) (\<lambda>n.
            let b = b\<lparr>total_used := total_used b - n, total_free := total_free b + n\<rparr>
            in obind (merge_right block b) (\<lambda>_ b.
               obind (merge_left block b) (\<lambda>block b.
               get_or b (mb_index (cache b) block) (\<lambda>i.
               get_or b (mb_total_size (cache b) block) (\<lambda>n.
                 Normal () (b\<lparr>pool := pool_insert (Isa i n block) (pool b)\<rparr>)))))))))"

definition buddy_used :: "'sys buddy \<Rightarrow> u64" where "buddy_used b = total_used b"
definition get_min_chunk_size :: "'sys buddy \<Rightarrow> u64" where "get_min_chunk_size b = min_chunk_size b"
definition get_max_chunk_size :: "'sys buddy \<Rightarrow> u64" where "get_max_chunk_size b = max_chunk_size b"

section \<open>Returning chunks to the system\<close>

text \<open>Hand a block of the pool back, as the destructor and the two cleaners do.\<close>

definition release_block :: "'sys sys_allocator \<Rightarrow> addr \<Rightarrow> 'sys buddy \<Rightarrow> ('sys buddy, unit) outcome" where
  "release_block sa block b =
     get_or b (mb_index (cache b) block) (\<lambda>i.
       obind (on_system (sys_free sa block (max_chunk_size b) i) b) (\<lambda>_ b.
         Normal () (b\<lparr>cache := invalidate (cache b) block\<rparr>)))"

text \<open>The destructor empties the pool from its front; \<open>xs\<close> is the pool.\<close>

fun destroy_pool :: "'sys sys_allocator \<Rightarrow> isa list \<Rightarrow> 'sys buddy \<Rightarrow> ('sys buddy, unit) outcome" where
  "destroy_pool sa [] b = Normal () b"
| "destroy_pool sa (x # xs) b =
     obind (release_block sa (isa_addr x) b) (\<lambda>_ b. destroy_pool sa xs (b\<lparr>pool := xs\<rparr>))"

definition buddy_destroy :: "'sys sys_allocator \<Rightarrow> 'sys buddy \<Rightarrow> ('sys buddy, unit) outcome" where
  "buddy_destroy sa b = destroy_pool sa (pool b) b"

text \<open>The cleaners walk the pool from its back; \<open>xs\<close> is the pool reversed.\<close>

fun clean_fallback :: "'sys sys_allocator \<Rightarrow> isa list \<Rightarrow> 'sys buddy \<Rightarrow> ('sys buddy, unit) outcome" where
  "clean_fallback sa [] b = Normal () b"
| "clean_fallback sa (x # xs) b =
     (if isa_size x < max_chunk_size b then Normal () b
      else if \<not> sys_use_gpu sa then Normal () b
      else get_or b (mb_index (cache b) (isa_addr x)) (\<lambda>i.
        if i = 0 then Normal () b
        else obind (release_block sa (isa_addr x) b) (\<lambda>_ b.
          let b = b\<lparr>pool := rev xs, total_free := total_free b - max_chunk_size b,
                fallback_alloc_count := fallback_alloc_count b - 1\<rparr>
          in if fallback_alloc_count b = 0 then Normal () b else clean_fallback sa xs b)))"

definition clean_idle_fallback_alloc :: "'sys sys_allocator \<Rightarrow> 'sys buddy \<Rightarrow> ('sys buddy, unit) outcome" where
  "clean_idle_fallback_alloc sa b =
     (if fallback_alloc_count b = 0 then Normal () b else clean_fallback sa (rev (pool b)) b)"

definition shall_free_alloc :: "'sys buddy \<Rightarrow> bool" where
  "shall_free_alloc b \<longleftrightarrow>
     (if fallback_alloc_count b > 0 then True
      else if (total_used b + max_chunk_size b) * 2 < total_free b then True else False)"

fun clean_normal :: "'sys sys_allocator \<Rightarrow> isa list \<Rightarrow> 'sys buddy \<Rightarrow> ('sys buddy, unit) outcome" where
  "clean_normal sa [] b = Normal () b"
| "clean_normal sa (x # xs) b =
     (if isa_size x < max_chunk_size b then Normal () b
      else obind (release_block sa (isa_addr x) b) (\<lambda>_ b.
        let b = b\<lparr>pool := rev xs, total_free := total_free b - max_chunk_size b\<rparr>
        in if \<not> shall_free_alloc b then Normal () b else clean_normal sa xs b))"

definition clean_idle_normal_alloc :: "'sys sys_allocator \<Rightarrow> 'sys buddy \<Rightarrow> ('sys buddy, unit) outcome" where
  "clean_idle_normal_alloc sa b =
     (if \<not> shall_free_alloc b then Normal () b else clean_normal sa (rev (pool b)) b)"

section \<open>The pool is searched for the best fit\<close>

declare find_from.simps [simp del]

lemma Isa_le: "Isa index sz 0 \<le> x \<longleftrightarrow> index < isa_index x \<or> index = isa_index x \<and> sz \<le> isa_size x"
  by (cases x) (auto simp: less_eq_isa_def less_isa_def word_gt_0)

lemma isa_index_mono: "(x :: isa) \<le> y \<Longrightarrow> isa_index x \<le> isa_index y"
  by (auto simp: less_eq_isa_def less_isa_def)

lemma lower_bound_None: "lower_bound x p = None \<longleftrightarrow> (\<forall>y \<in> set p. \<not> x \<le> y)"
  by (auto simp: lower_bound_def find_None_iff)

lemma find_from_eq:
  assumes "sorted p" and "\<forall>x \<in> set p. isa_index x < index \<longrightarrow> isa_size x < sz"
  shows "find_from index sz p = find (\<lambda>x. sz \<le> isa_size x) p"
  using assms
proof (induction index sz p rule: find_from.induct)
  case (1 index sz p)
  show ?case
  proof (cases "lower_bound (Isa index sz 0) p")
    case None
    then have "\<forall>x \<in> set p. isa_size x < sz"
      using 1(3) by (auto simp: lower_bound_None Isa_le not_less not_le)
    then have "find (\<lambda>x. sz \<le> isa_size x) p = None" by (auto simp: find_None_iff not_le)
    then show ?thesis using None by (subst find_from.simps) simp
  next
    case (Some it)
    then obtain i where i: "i < length p" "p ! i = it" "Isa index sz 0 \<le> it"
        "\<And>j. j < i \<Longrightarrow> \<not> Isa index sz 0 \<le> p ! j"
      by (auto simp: lower_bound_def find_Some_iff)
    have before: "isa_size (p ! j) < sz" if "j < i" for j
    proof -
      have "p ! j \<in> set p" using that i(1) by simp
      then show ?thesis using i(4) [OF that] 1(3) by (auto simp: Isa_le not_less not_le)
    qed
    show ?thesis
    proof (cases "isa_index it > index \<and> isa_size it < sz")
      case True
      have "\<forall>x \<in> set p. isa_index x < isa_index it \<longrightarrow> isa_size x < sz"
      proof (intro ballI impI)
        fix x assume "x \<in> set p" "isa_index x < isa_index it"
        then obtain j where j: "j < length p" "p ! j = x" by (auto simp: in_set_conv_nth)
        have "\<not> i \<le> j"
          using \<open>isa_index x < isa_index it\<close> isa_index_mono [of it x] sorted_nth_mono [OF 1(2), of i j] i(2) j
          by auto
        then show "isa_size x < sz" using before [of j] j(2) by simp
      qed
      then have "find_from (isa_index it) sz p = find (\<lambda>x. sz \<le> isa_size x) p"
        using 1(1) [OF Some] True 1(2) by (simp add: not_le)
      moreover have "\<not> sz \<le> isa_size it" using True by (simp add: not_le)
      ultimately show ?thesis using Some True by (subst find_from.simps) simp
    next
      case False
      then have "sz \<le> isa_size it" using i(3) by (auto simp: Isa_le not_less)
      then have "find (\<lambda>x. sz \<le> isa_size x) p = Some it"
        using i(1,2) before by (auto simp: find_Some_iff not_le)
      then show ?thesis using Some False by (subst find_from.simps) (auto simp: not_less)
    qed
  qed
qed

definition pool_ok :: "isa list \<Rightarrow> bool" where
  "pool_ok p \<longleftrightarrow> sorted p \<and> distinct p"

lemma pool_ok_Nil [simp]: "pool_ok []"
  by (simp add: pool_ok_def)

lemma pool_ok_insert [simp]: "pool_ok p \<Longrightarrow> pool_ok (pool_insert x p)"
  by (simp add: pool_ok_def pool_insert_def distinct_insort sorted_insort)

lemma pool_ok_erase [simp]: "pool_ok p \<Longrightarrow> pool_ok (pool_erase x p)"
  by (simp add: pool_ok_def pool_erase_def sorted_remove1)

lemma set_pool_insert [simp]: "set (pool_insert x p) = insert x (set p)"
  by (auto simp: pool_insert_def set_insort_key)

lemma set_pool_erase [simp]: "pool_ok p \<Longrightarrow> set (pool_erase x p) = set p - {x}"
  by (simp add: pool_ok_def pool_erase_def)

lemma find_exist_chunk_eq: "pool_ok p \<Longrightarrow> find_exist_chunk sz p = find (\<lambda>x. sz \<le> isa_size x) p"
  by (simp add: pool_ok_def find_exist_chunk_def find_from_eq)

lemma best_fit:
  assumes "pool_ok p"
  shows "case find_exist_chunk sz p of
      None \<Rightarrow> \<forall>x \<in> set p. isa_size x < sz
    | Some it \<Rightarrow> it \<in> set p \<and> sz \<le> isa_size it \<and> (\<forall>x \<in> set p. sz \<le> isa_size x \<longrightarrow> it \<le> x)"
proof (cases "find (\<lambda>x. sz \<le> isa_size x) p")
  case None
  then have "\<forall>x \<in> set p. isa_size x < sz" by (simp add: find_None_iff not_le)
  then show ?thesis using None find_exist_chunk_eq [OF assms, of sz] by simp
next
  case (Some it)
  then obtain i where i: "i < length p" "p ! i = it" "sz \<le> isa_size it" "\<And>j. j < i \<Longrightarrow> \<not> sz \<le> isa_size (p ! j)"
    by (auto simp: find_Some_iff)
  have "it \<le> x" if x: "x \<in> set p" "sz \<le> isa_size x" for x
  proof -
    obtain j where j: "j < length p" "p ! j = x" using x(1) by (auto simp: in_set_conv_nth)
    have "i \<le> j" using i(4) [of j] j(2) x(2) by (meson not_le)
    then show ?thesis using assms i(2) j sorted_nth_mono [of p i j] by (simp add: pool_ok_def)
  qed
  moreover have "it \<in> set p" using i(1,2) by auto
  ultimately show ?thesis using Some i(3) find_exist_chunk_eq [OF assms, of sz] by simp
qed

text \<open>
  C22: \<open>FindExistChunk\<close>, an endless loop around \<open>lower_bound\<close>, returns for every pool and size, and finds the
  best fit: the least free block, by index, then size, then address, that is large enough; it
  finds none exactly when no block is large enough.
\<close>

theorem find_exist_chunk_best_fit:
  assumes "pool_ok p"
  shows "case find_exist_chunk sz p of
      None \<Rightarrow> \<forall>x \<in> set p. isa_size x < sz
    | Some it \<Rightarrow> it \<in> set p \<and> sz \<le> isa_size it \<and> (\<forall>x \<in> set p. sz \<le> isa_size x \<longrightarrow> it \<le> x)"
  using best_fit [OF assms] .

theorem find_exist_chunk_best_fit_witness:
  "find_exist_chunk 300 [Isa 0 128 4096, Isa 0 256 8192, Isa 1 512 12288, Isa 1 1024 16384] = Some (Isa 1 512 12288)"
proof -
  let ?p = "[Isa 0 128 4096, Isa 0 256 8192, Isa 1 512 12288, Isa 1 1024 16384]"
  have ok: "pool_ok ?p" by (simp add: pool_ok_def less_eq_isa_def less_isa_def)
  have "find_exist_chunk 300 ?p \<noteq> None"
  proof
    assume "find_exist_chunk 300 ?p = None"
    then have "\<forall>x \<in> set ?p. isa_size x < 300" using find_exist_chunk_best_fit [OF ok, of 300] by simp
    then show False by simp
  qed
  then obtain it where it: "find_exist_chunk 300 ?p = Some it" by auto
  have "it \<in> set ?p" "300 \<le> isa_size it" "it \<le> Isa 1 512 12288"
    using find_exist_chunk_best_fit [OF ok, of 300] it by auto
  then have "it = Isa 1 512 12288" by (auto simp: less_eq_isa_def less_isa_def)
  then show ?thesis using it by simp
qed

end
