(* ===== verification/Buddy_Heap.thy ===== *)
theory Buddy_Heap
  imports Buddy_Allocator
begin

text \<open>
  The abstract heap of the best-fit allocator: chunks tiled by blocks that do not overlap. \<open>rep\<close>
  relates it to the descriptors in memory (or in the GPU map) and to the pool; each operation on a
  block is shown to be the corresponding change of the heap.
\<close>

section \<open>The layout of the heap\<close>

text \<open>
  The abstract heap is a list of chunks, each an index with the blocks that tile it from left to right; a
  huge allocation is a chunk of one block.
\<close>

type_synonym heap = "(u64 \<times> blk list) list"

abbreviation blocks :: "heap \<Rightarrow> blk list" where
  "blocks A \<equiv> concat (map snd A)"

fun wf_blk :: "blk \<Rightarrow> bool" where
  "wf_blk (a, t, n) \<longleftrightarrow> a \<noteq> 0 \<and> 64 \<le> unat n \<and> unat a + unat n < 2 ^ 64"

fun apart_blk :: "blk \<Rightarrow> blk \<Rightarrow> bool" where
  "apart_blk (a, t, n) (b, u, m) \<longleftrightarrow> unat a + unat n \<le> unat b \<or> unat b + unat m \<le> unat a"

definition layout :: "blk list \<Rightarrow> bool" where
  "layout L \<longleftrightarrow> (\<forall>x \<in> set L. wf_blk x) \<and> sorted_wrt apart_blk L"

fun tiles :: "addr \<Rightarrow> blk list \<Rightarrow> bool" where
  "tiles a [] = True"
| "tiles a ((b, t, n) # bs) \<longleftrightarrow> b = a \<and> tiles (a + n) bs"

fun end_addr :: "addr \<Rightarrow> blk list \<Rightarrow> addr" where
  "end_addr a [] = a"
| "end_addr a ((b, t, n) # bs) = end_addr (a + n) bs"

lemma tiles_append [simp]: "tiles a (xs @ ys) \<longleftrightarrow> tiles a xs \<and> tiles (end_addr a xs) ys"
  by (induction a xs rule: tiles.induct) auto

lemma apart_blk_sym: "apart_blk x y \<longleftrightarrow> apart_blk y x"
  by (cases x; cases y) auto

lemma layout_Nil [simp]: "layout []"
  by (simp add: layout_def)

lemma layout_Cons: "layout (x # L) \<longleftrightarrow> wf_blk x \<and> (\<forall>y \<in> set L. apart_blk x y) \<and> layout L"
  by (auto simp: layout_def)

lemma layout_append:
  "layout (L @ M) \<longleftrightarrow> layout L \<and> layout M \<and> (\<forall>x \<in> set L. \<forall>y \<in> set M. apart_blk x y)"
  by (auto simp: layout_def sorted_wrt_append)

text \<open>Replacing a part of the layout by blocks within the same bounds.\<close>

lemma layout_replace:
  assumes "layout (L @ xs @ M)" and "layout ys"
    and "\<And>z. wf_blk z \<Longrightarrow> \<forall>x \<in> set xs. apart_blk x z \<Longrightarrow> \<forall>y \<in> set ys. apart_blk y z"
  shows "layout (L @ ys @ M)"
proof -
  have "\<forall>y \<in> set ys. apart_blk y z" if z: "z \<in> set L \<union> set M" for z
  proof (rule assms(3))
    show "wf_blk z" using z assms(1) by (auto simp: layout_def)
    show "\<forall>x \<in> set xs. apart_blk x z" using z assms(1) by (auto simp: layout_append apart_blk_sym)
  qed
  then have "\<forall>x \<in> set L. \<forall>y \<in> set ys. apart_blk x y" "\<forall>y \<in> set ys. \<forall>x \<in> set M. apart_blk y x"
    using apart_blk_sym by blast+
  then show ?thesis using assms(1,2) by (simp add: layout_append ball_Un)
qed

lemma unat_cut:
  assumes "wf_blk (a, t, n)" "unat sz < unat n"
  shows "unat (a + sz) = unat a + unat sz" "unat (n - sz) = unat n - unat sz"
  using assms by (simp_all add: unat_add_noov unat_sub_noov word_le_nat_alt)

lemma layout_split:
  assumes "layout (L @ (a, t, n) # M)" "64 \<le> unat sz" "unat sz + 64 \<le> unat n"
  shows "layout (L @ (a, u, sz) # (a + sz, v, n - sz) # M)"
proof -
  have w: "wf_blk (a, t, n)" using assms(1) by (simp add: layout_append layout_Cons)
  have e: "unat (a + sz) = unat a + unat sz" "unat (n - sz) = unat n - unat sz"
    using unat_cut [OF w, of sz] assms(2,3) by simp_all
  have "layout (L @ [(a, u, sz), (a + sz, v, n - sz)] @ M)"
  proof (rule layout_replace [of L "[(a, t, n)]"])
    show "layout (L @ [(a, t, n)] @ M)" using assms(1) by simp
    have "a + sz \<noteq> 0" using e(1) assms(2) by auto
    then show "layout [(a, u, sz), (a + sz, v, n - sz)]"
      using w assms(2,3) e by (simp add: layout_Cons)
    show "\<forall>y \<in> set [(a, u, sz), (a + sz, v, n - sz)]. apart_blk y z"
      if "wf_blk z" "\<forall>x \<in> set [(a, t, n)]. apart_blk x z" for z
      using that assms(2,3) e by (cases z) auto
  qed
  then show ?thesis by simp
qed

lemma unat_merge:
  assumes "wf_blk (a, t, n)" "wf_blk (a + n, u, m)"
  shows "unat (a + n) = unat a + unat n" "unat (n + m) = unat n + unat m"
proof -
  show e: "unat (a + n) = unat a + unat n" using assms(1) by (intro unat_add_noov) simp
  show "unat (n + m) = unat n + unat m" using assms(2) e by (intro unat_add_noov) simp
qed

lemma layout_merge:
  assumes "layout (L @ (a, t, n) # (a + n, u, m) # M)"
  shows "layout (L @ (a, v, n + m) # M)"
proof -
  have w: "wf_blk (a, t, n)" "wf_blk (a + n, u, m)" using assms by (simp_all add: layout_append layout_Cons)
  note e = unat_merge [OF w]
  have "layout (L @ [(a, v, n + m)] @ M)"
  proof (rule layout_replace [of L "[(a, t, n), (a + n, u, m)]"])
    show "layout (L @ [(a, t, n), (a + n, u, m)] @ M)" using assms by simp
    show "layout [(a, v, n + m)]" using w e by (simp add: layout_Cons)
    show "\<forall>y \<in> set [(a, v, n + m)]. apart_blk y z"
      if "wf_blk z" "\<forall>x \<in> set [(a, t, n), (a + n, u, m)]. apart_blk x z" for z
      using that e by (cases z) auto
  qed
  then show ?thesis by simp
qed

lemma layout_retype: "layout (L @ (a, t, n) # M) \<Longrightarrow> layout (L @ (a, u, n) # M)"
  using layout_replace [of L "[(a, t, n)]" M "[(a, u, n)]"] by (auto simp: layout_Cons layout_append)

lemma apart_far:
  assumes "wf_blk (a, t, n)" "wf_blk (b, u, m)" "apart_blk (a, t, n) (b, u, m)"
  shows "far a b"
proof -
  have "far x y" if "unat x + k \<le> unat y" "64 \<le> k" "unat y + 64 < 2 ^ 64" for x y :: addr and k :: nat
  proof -
    have yx: "unat (y - x) = unat y - unat x" using that by (intro unat_sub_noov) (simp add: word_le_nat_alt)
    have "2 ^ 64 \<le> unat (x - y) + unat (y - x)"
    proof (rule ccontr)
      assume "\<not> 2 ^ 64 \<le> unat (x - y) + unat (y - x)"
      then have "unat ((x - y) + (y - x)) = unat (x - y) + unat (y - x)" by (intro unat_add_noov) simp
      then show False using yx that by simp
    qed
    then have "64 \<le> unat (x - y)" "64 \<le> unat (y - x)" using that yx by simp_all
    then show ?thesis by (simp add: far_def word_le_nat_alt)
  qed
  from this [of a "unat n" b] this [of b "unat m" a] show ?thesis
    using assms by (auto simp: far_sym)
qed

lemma layout_spread: "layout L \<Longrightarrow> spread L"
proof (induction L)
  case (Cons x L)
  obtain a t n where x: "x = (a, t, n)" by (cases x)
  have "far a (fst y)" if "y \<in> set L" for y
    using Cons.prems that x by (cases y) (auto simp: layout_def intro!: apart_far)
  then show ?case using Cons x by (auto simp: layout_Cons)
qed (simp add: spread_def)

section \<open>Descriptors and pool represent the heap\<close>

abbreviation free_blk :: "blk \<Rightarrow> bool" where
  "free_blk x \<equiv> fst (snd x) = FREE_CHUNK"

definition coalesced :: "blk list \<Rightarrow> bool" where
  "coalesced bs \<longleftrightarrow> successively (\<lambda>x y. \<not> (free_blk x \<and> free_blk y)) bs"

definition kinds :: "blk list \<Rightarrow> bool" where
  "kinds bs \<longleftrightarrow> bs \<noteq> [] \<and>
     ((\<forall>x \<in> set bs. fst (snd x) = FREE_CHUNK \<or> fst (snd x) = ARENA_CHUNK) \<or>
      (\<exists>a n. bs = [(a, HUGE_CHUNK, n)]))"

definition chunk_ok :: "metadata_cache \<Rightarrow> u64 \<times> blk list \<Rightarrow> bool" where
  "chunk_ok c = (\<lambda>(i, bs). chain (load c) i 0 bs 0 \<and> tiles (first_addr bs 0) bs \<and> kinds bs)"

definition heap_ok :: "metadata_cache \<Rightarrow> heap \<Rightarrow> bool" where
  "heap_ok c A \<longleftrightarrow> layout (blocks A) \<and> (\<forall>x \<in> set A. chunk_ok c x)"

definition frees_of :: "u64 \<times> blk list \<Rightarrow> isa set" where
  "frees_of = (\<lambda>(i, bs). set (map (\<lambda>(a, t, n). Isa i n a) (filter free_blk bs)))"

definition frees :: "heap \<Rightarrow> isa set" where
  "frees A = (\<Union>x \<in> set A. frees_of x)"

definition rep :: "'sys buddy \<Rightarrow> heap \<Rightarrow> bool" where
  "rep b A \<longleftrightarrow> heap_ok (cache b) A \<and> pool_ok (pool b) \<and> set (pool b) = frees A \<and>
     (\<forall>x \<in> set A. coalesced (snd x))"

text \<open>The blocks in use: what the clients of the allocator hold.\<close>

definition live :: "heap \<Rightarrow> (addr \<times> u64) set" where
  "live A = set (map (\<lambda>(a, t, n). (a, n)) (filter (\<lambda>x. \<not> free_blk x) (blocks A)))"

lemma frees_simps [simp]:
  "frees [] = {}"
  "frees (x # A) = frees_of x \<union> frees A"
  "frees (A @ B) = frees A \<union> frees B"
  by (auto simp: frees_def)

lemma frees_of_simps [simp]:
  "frees_of (i, []) = {}"
  "frees_of (i, (a, t, n) # bs) = (if t = FREE_CHUNK then {Isa i n a} else {}) \<union> frees_of (i, bs)"
  "frees_of (i, bs @ cs) = frees_of (i, bs) \<union> frees_of (i, cs)"
  by (simp_all add: frees_of_def del: set_map set_filter)

lemma live_simps [simp]:
  "live [] = {}"
  "live ((i, []) # A) = live A"
  "live ((i, (a, t, n) # bs) # A) = (if t = FREE_CHUNK then {} else {(a, n)}) \<union> live ((i, bs) # A)"
  "live ((i, bs @ cs) # A) = live [(i, bs)] \<union> live [(i, cs)] \<union> live A"
  "live (A @ B) = live A \<union> live B"
  by (simp_all add: live_def del: set_map set_filter)
    (simp_all only: set_append list.set list.map filter.simps Un_assoc Un_insert_left Un_empty_left)

lemma coalesced_simps [simp]:
  "coalesced []" "coalesced [x]"
  "coalesced (x # y # bs) \<longleftrightarrow> \<not> (free_blk x \<and> free_blk y) \<and> coalesced (y # bs)"
  by (simp_all add: coalesced_def)

lemma coalesced_append:
  "coalesced (xs @ ys) \<longleftrightarrow> coalesced xs \<and> coalesced ys \<and>
     (xs \<noteq> [] \<and> ys \<noteq> [] \<longrightarrow> \<not> (free_blk (last xs) \<and> free_blk (hd ys)))"
  by (auto simp: coalesced_def successively_append_iff)

lemma spread_mid:
  assumes "spread (L @ bs @ M)" "x \<in> addrs L \<union> addrs M" "y \<in> addrs bs"
  shows "far x y"
  using assms far_sym [of x y] unfolding spread_append set_append image_Un by blast

text \<open>An operation that touches the descriptors of one chunk only.\<close>

lemma heap_ok_update:
  assumes "heap_ok c (A @ (i, bs) # B)" and "layout (blocks (A @ (i, cs) # B))"
    and "chain (load c') i 0 cs 0" "tiles (first_addr cs 0) cs" "kinds cs"
    and frame: "\<And>x. \<forall>y \<in> addrs bs \<union> addrs cs. far x y \<Longrightarrow> load c' x = load c x"
  shows "heap_ok c' (A @ (i, cs) # B)"
proof -
  have "chunk_ok c' (j, ds)" if j: "(j, ds) \<in> set A \<union> set B" for j ds
  proof -
    have ok: "chunk_ok c (j, ds)" using assms(1) j by (auto simp: heap_ok_def)
    have "layout (blocks A @ bs @ blocks B)" "layout (blocks A @ cs @ blocks B)"
      using assms(1,2) by (simp_all add: heap_ok_def)
    note s = this [THEN layout_spread, THEN spread_mid]
    have "addrs ds \<subseteq> addrs (blocks A) \<union> addrs (blocks B)" using j by force
    then have "\<forall>y \<in> addrs bs \<union> addrs cs. far x y" if "x \<in> addrs ds" for x
      using s that by blast
    then have "chain (load c') j 0 ds 0 = chain (load c) j 0 ds 0" by (intro chain_cong frame) blast
    then show ?thesis using ok by (simp add: chunk_ok_def)
  qed
  then show ?thesis using assms(2-5) by (auto simp: heap_ok_def chunk_ok_def)
qed

lemma heap_ok_chunk:
  assumes "heap_ok c (A @ (i, bs) # B)"
  shows "chain (load c) i 0 bs 0" "tiles (first_addr bs 0) bs" "kinds bs" "spread bs"
    "layout (blocks A @ bs @ blocks B)"
proof -
  show l: "layout (blocks A @ bs @ blocks B)" using assms by (simp add: heap_ok_def)
  show "spread bs" using layout_spread [OF l] by simp
qed (use assms in \<open>auto simp: heap_ok_def chunk_ok_def\<close>)

lemma kinds_arena:
  "kinds (xs @ (a, t, n) # ys) \<Longrightarrow> t \<noteq> HUGE_CHUNK \<Longrightarrow>
   \<forall>x \<in> set (xs @ (a, t, n) # ys). fst (snd x) = FREE_CHUNK \<or> fst (snd x) = ARENA_CHUNK"
  by (auto simp: kinds_def append_eq_Cons_conv)

lemma first_addr_same [simp]: "first_addr (xs @ (a, t, n) # ys) r = first_addr (xs @ [(a, u, m)]) r"
  by (cases xs) auto

lemma heap_retype:
  assumes ok: "heap_ok c (A @ (i, xs @ (a, t, n) # ys) # B)"
    and t: "t = FREE_CHUNK \<or> t = ARENA_CHUNK" "u = FREE_CHUNK \<or> u = ARENA_CHUNK"
  shows "\<exists>c'. mb_set_type u a c = Normal () c' \<and> heap_ok c' (A @ (i, xs @ (a, u, n) # ys) # B)"
proof -
  note h = heap_ok_chunk [OF ok]
  obtain c' where c': "mb_set_type u a c = Normal () c'" "chain (load c') i 0 (xs @ (a, u, n) # ys) 0"
      "\<forall>x. far x a \<longrightarrow> load c' x = load c x"
    using set_type_chain_lemma [OF h(1,4)] by blast
  have "layout (blocks (A @ (i, xs @ (a, u, n) # ys) # B))"
    using layout_retype [of "blocks A @ xs" a t n "ys @ blocks B" u] h(5) by simp
  moreover have "tiles (first_addr (xs @ (a, u, n) # ys) 0) (xs @ (a, u, n) # ys)"
    using h(2) by (cases xs) auto
  moreover have "kinds (xs @ (a, u, n) # ys)" using kinds_arena [OF h(3)] t by (auto simp: kinds_def)
  ultimately have "heap_ok c' (A @ (i, xs @ (a, u, n) # ys) # B)"
    using c' by (intro heap_ok_update [OF ok]) auto
  then show ?thesis using c'(1) by blast
qed

section \<open>The block operations on the heap\<close>

lemma heap_split:
  assumes ok: "heap_ok c (A @ (i, xs @ (a, FREE_CHUNK, n) # ys) # B)"
    and sz: "64 \<le> unat sz" "unat sz + 64 < unat n"
  shows "\<exists>c'. mb_split a sz c = Normal () c' \<and>
    heap_ok c' (A @ (i, xs @ (a, FREE_CHUNK, sz) # (a + sz, FREE_CHUNK, n - sz) # ys) # B)"
proof -
  let ?bs = "xs @ (a, FREE_CHUNK, sz) # (a + sz, FREE_CHUNK, n - sz) # ys"
  note h = heap_ok_chunk [OF ok]
  have l: "layout (blocks (A @ (i, ?bs) # B))"
    using layout_split [of "blocks A @ xs" a FREE_CHUNK n "ys @ blocks B" sz FREE_CHUNK FREE_CHUNK] h(5) sz
    by simp
  have sp: "spread ?bs" using layout_spread [OF l] by simp
  have le: "sz \<le> n" "sizeof_Desc < n - sz"
    using sz by (simp_all add: word_le_nat_alt word_less_nat_alt sizeof_Desc_def unat_sub_noov)
  obtain c' where c': "mb_split a sz c = Normal () c'" "chain (load c') i 0 ?bs 0"
      "\<forall>b. far b a \<and> far b (a + sz) \<and> (\<forall>y \<in> addrs ys. far b y) \<longrightarrow> load c' b = load c b"
    using split_chain_lemma [OF h(1) le sp] by blast
  have "tiles (first_addr ?bs 0) ?bs" using h(2) by (cases xs) (auto simp: add.assoc)
  moreover have "kinds ?bs" using kinds_arena [OF h(3)] by (auto simp: kinds_def)
  ultimately have "heap_ok c' (A @ (i, ?bs) # B)"
    using c' by (intro heap_ok_update [OF ok l]) auto
  then show ?thesis using c'(1) by blast
qed

lemma heap_merge:
  assumes ok: "heap_ok c (A @ (i, xs @ (a, FREE_CHUNK, n) # (b, FREE_CHUNK, m) # ys) # B)"
  shows "\<exists>c'. mb_merge a b c = Normal () c' \<and>
    heap_ok c' (A @ (i, xs @ (a, FREE_CHUNK, n + m) # ys) # B)"
proof -
  let ?bs = "xs @ (a, FREE_CHUNK, n + m) # ys"
  note h = heap_ok_chunk [OF ok]
  have b: "b = a + n" using h(2) by (cases xs) auto
  have l: "layout (blocks (A @ (i, ?bs) # B))"
    using layout_merge [of "blocks A @ xs" a FREE_CHUNK n FREE_CHUNK m "ys @ blocks B"] h(5) b by simp
  obtain c' where c': "mb_merge a b c = Normal () c'" "chain (load c') i 0 ?bs 0"
      "\<forall>x. far x a \<and> far x b \<and> (\<forall>y \<in> addrs ys. far x y) \<longrightarrow> load c' x = load c x"
    using merge_chain_lemma [OF h(1,4)] by blast
  have "tiles (first_addr ?bs 0) ?bs" using h(2) by (cases xs) (auto simp: add.assoc)
  moreover have "kinds ?bs" using kinds_arena [OF h(3)] by (auto simp: kinds_def)
  ultimately have "heap_ok c' (A @ (i, ?bs) # B)"
    using c' by (intro heap_ok_update [OF ok l]) auto
  then show ?thesis using c'(1) by blast
qed

text \<open>The descriptor of a block of the heap.\<close>

lemma heap_load:
  assumes "heap_ok c (A @ (i, xs @ (a, t, n) # ys) # B)"
  shows "load c a = Inr (blk_desc i (last_addr 0 xs) t n (first_addr ys 0))"
  using heap_ok_chunk(1) [OF assms] by simp

lemma heap_mark_as_free:
  assumes ok: "heap_ok c (A @ (i, xs @ (a, ARENA_CHUNK, n) # ys) # B)"
  shows "\<exists>c'. mb_mark_as_free a c = Normal () c' \<and> heap_ok c' (A @ (i, xs @ (a, FREE_CHUNK, n) # ys) # B)"
proof -
  have "mb_mark_as_free a c = mb_set_type FREE_CHUNK a c"
    using heap_load [OF ok] by (simp add: mb_mark_as_free_def mb_type_def load_field_blk)
  then show ?thesis using heap_retype [OF ok, of FREE_CHUNK] by simp
qed

text \<open>A new chunk, away from all the others.\<close>

definition fresh_for :: "addr \<Rightarrow> u64 \<Rightarrow> heap \<Rightarrow> bool" where
  "fresh_for p n A \<longleftrightarrow> wf_blk (p, FREE_CHUNK, n) \<and> (\<forall>y \<in> set (blocks A). apart_blk (p, FREE_CHUNK, n) y)"

lemma heap_push:
  assumes ok: "heap_ok c A" and f: "fresh_for p n A" and t: "t = FREE_CHUNK \<or> t = HUGE_CHUNK"
  shows "heap_ok (mb_init c t i n 0 0 p) (A @ [(i, [(p, t, n)])])"
proof -
  let ?c = "mb_init c t i n 0 0 p"
  have l: "layout (blocks (A @ [(i, [(p, t, n)])]))"
  proof -
    have "\<forall>x \<in> set (blocks A). apart_blk x (p, t, n)"
    proof
      fix x assume "x \<in> set (blocks A)"
      then have "apart_blk (p, FREE_CHUNK, n) x" using f unfolding fresh_for_def by blast
      then show "apart_blk x (p, t, n)" by (cases x) auto
    qed
    moreover have "wf_blk (p, t, n)" using f by (simp add: fresh_for_def)
    ultimately show ?thesis using ok by (simp add: heap_ok_def layout_append layout_Cons)
  qed
  have "spread (blocks A @ [(p, t, n)] @ [])" using layout_spread [OF l] by simp
  note s = spread_mid [OF this]
  have "chunk_ok ?c (j, ds)" if j: "(j, ds) \<in> set A" for j ds
  proof -
    have "addrs ds \<subseteq> addrs (blocks A)" using j by force
    then have "x \<in> addrs (blocks A) \<union> addrs []" if "x \<in> addrs ds" for x using that by blast
    then have "far x p" if "x \<in> addrs ds" for x using that by (intro s) simp_all
    then have "chain (load ?c) j 0 ds 0 = chain (load c) j 0 ds 0"
      unfolding mb_init_def by (intro md.load_save_chain_far)
    then show ?thesis using ok j by (auto simp: heap_ok_def chunk_ok_def)
  qed
  moreover have "chunk_ok ?c (i, [(p, t, n)])"
    using t by (auto simp: chunk_ok_def mb_init_def md.load_save kinds_def)
  ultimately show ?thesis using l by (auto simp: heap_ok_def)
qed

text \<open>Forgetting a chunk.\<close>

lemma load_invalidate: "a \<noteq> b \<Longrightarrow> load (invalidate c b) a = load c a"
  by (simp add: load_def invalidate_def)

lemma heap_drop:
  assumes "heap_ok c (A @ (i, [(a, t, n)]) # B)"
  shows "heap_ok (invalidate c a) (A @ B)"
proof -
  have "layout (blocks A @ [(a, t, n)] @ blocks B)" using assms by (simp add: heap_ok_def)
  note s = spread_mid [OF layout_spread, OF this]
  have "chunk_ok (invalidate c a) (j, ds)" if j: "(j, ds) \<in> set A \<union> set B" for j ds
  proof -
    have "addrs ds \<subseteq> addrs (blocks A) \<union> addrs (blocks B)" using j by force
    then have "x \<in> addrs (blocks A) \<union> addrs (blocks B)" if "x \<in> addrs ds" for x using that by blast
    then have "x \<noteq> a" if "x \<in> addrs ds" for x using that by (intro far_neq s) simp_all
    then have "chain (load (invalidate c a)) j 0 ds 0 = chain (load c) j 0 ds 0"
      by (intro chain_cong load_invalidate)
    then show ?thesis using assms j by (auto simp: heap_ok_def chunk_ok_def)
  qed
  then show ?thesis using assms by (auto simp: heap_ok_def layout_append layout_Cons)
qed

end
