(* ===== verification/Buddy_Refinement.thy ===== *)
theory Buddy_Refinement
  imports Buddy_Heap
begin

text \<open>
  \<open>BuddyAllocator::Alloc\<close> and \<open>Free\<close> on the abstract heap of \<open>Buddy_Heap\<close>: from a represented heap they
  lead to a represented heap, no guard check fails, and the set of live blocks changes by the one
  block that is handed out or taken back.
\<close>

section \<open>Alloc on the heap\<close>

lemma on_cache_Normal [simp]: "f (cache b) = Normal x c \<Longrightarrow> on_cache f b = Normal x (b\<lparr>cache := c\<rparr>)"
  by (simp add: on_cache_def)

lemma frees_member:
  "x \<in> frees A \<longleftrightarrow> (\<exists>B i xs ys C. A = B @ (i, xs @ (isa_addr x, FREE_CHUNK, isa_size x) # ys) # C \<and> i = isa_index x)"
proof
  assume "x \<in> frees A"
  then obtain i bs where a: "(i, bs) \<in> set A" "x \<in> frees_of (i, bs)" by (auto simp: frees_def)
  then have x: "i = isa_index x" "(isa_addr x, FREE_CHUNK, isa_size x) \<in> set bs"
    by (auto simp: frees_of_def)
  obtain B C where "A = B @ (i, bs) # C" using a(1) by (meson split_list)
  moreover obtain xs ys where "bs = xs @ (isa_addr x, FREE_CHUNK, isa_size x) # ys" using x(2) by (meson split_list)
  ultimately show "\<exists>B i xs ys C. A = B @ (i, xs @ (isa_addr x, FREE_CHUNK, isa_size x) # ys) # C \<and> i = isa_index x"
    using x(1) by blast
next
  assume "\<exists>B i xs ys C. A = B @ (i, xs @ (isa_addr x, FREE_CHUNK, isa_size x) # ys) # C \<and> i = isa_index x"
  then show "x \<in> frees A" by (cases x) auto
qed

text \<open>Blocks have different addresses, so an entry of the pool stands for one block.\<close>

lemma frees_addr: "x \<in> frees A \<Longrightarrow> isa_addr x \<in> addrs (blocks A)"
  by (auto simp: frees_member)

lemma frees_of_addr: "x \<in> frees_of (i, bs) \<Longrightarrow> isa_addr x \<in> addrs bs"
  by (induction bs) (auto split: if_splits)

lemma addr_unique:
  assumes "layout (blocks (A @ (i, xs @ (a, t, n) # ys) # B))"
  shows "a \<notin> addrs (blocks A)" "a \<notin> addrs xs" "a \<notin> addrs ys" "a \<notin> addrs (blocks B)"
proof -
  have "spread ((blocks A @ xs) @ [(a, t, n)] @ (ys @ blocks B))" using layout_spread [OF assms] by simp
  note s = spread_mid [OF this, of a a]
  have "a \<notin> addrs (blocks A @ xs) \<union> addrs (ys @ blocks B)"
  proof
    assume "a \<in> addrs (blocks A @ xs) \<union> addrs (ys @ blocks B)"
    moreover have "a \<in> addrs [(a, t, n)]" by simp
    ultimately have "far a a" by (rule s)
    then show False using far_neq by blast
  qed
  then show "a \<notin> addrs (blocks A)" "a \<notin> addrs xs" "a \<notin> addrs ys" "a \<notin> addrs (blocks B)"
    unfolding set_append image_Un by blast+
qed

lemma frees_fresh:
  assumes "layout (blocks (A @ (i, xs @ (a, t, n) # ys) # B))"
  shows "Isa j m a \<notin> frees A" "Isa j m a \<notin> frees B" "Isa j m a \<notin> frees_of (k, xs)" "Isa j m a \<notin> frees_of (k, ys)"
  using addr_unique [OF assms] frees_addr [of "Isa j m a"] frees_of_addr [of "Isa j m a"]
  unfolding isa.sel by blast+

text \<open>How \<open>SplitToAlloc\<close> cuts a free block of \<open>n\<close> bytes.\<close>

definition cut :: "addr \<Rightarrow> u64 \<Rightarrow> u64 \<Rightarrow> blk list" where
  "cut a sz n =
     (if n - sz \<le> sizeof_Desc then [(a, ARENA_CHUNK, n)]
      else [(a, ARENA_CHUNK, sz), (a + sz, FREE_CHUNK, n - sz)])"

lemma coalesced_Cons:
  "coalesced (x # bs) \<longleftrightarrow> coalesced bs \<and> (bs \<noteq> [] \<longrightarrow> \<not> (free_blk x \<and> free_blk (hd bs)))"
  by (cases bs) auto

lemma coalesced_cut:
  "coalesced (xs @ (a, FREE_CHUNK, n) # ys) \<Longrightarrow> coalesced (xs @ cut a sz n @ ys)"
  by (auto simp: cut_def coalesced_append coalesced_Cons simp del: coalesced_simps(3))

lemma split_to_alloc_lemma:
  assumes rep: "rep b (A @ (i, xs @ (a, FREE_CHUNK, n) # ys) # B)"
    and sz: "64 \<le> unat sz" "sz \<le> n"
  shows "\<exists>p c. split_to_alloc (Isa i n a) sz b = Normal a (b\<lparr>pool := p, cache := c\<rparr>) \<and>
    rep (b\<lparr>pool := p, cache := c\<rparr>) (A @ (i, xs @ cut a sz n @ ys) # B)"
proof -
  let ?H = "A @ (i, xs @ (a, FREE_CHUNK, n) # ys) # B"
  have ok: "heap_ok (cache b) ?H" and p: "pool_ok (pool b)" "set (pool b) = frees ?H"
    using rep by (auto simp: rep_def)
  have co: "coalesced (xs @ (a, FREE_CHUNK, n) # ys)" using rep by (simp add: rep_def)
  note co' = coalesced_cut [OF co, of sz]
  have ysf: "ys = [] \<or> \<not> free_blk (hd ys)" using co by (cases ys) (auto simp: coalesced_append)
  have fr: "set (pool b) - {Isa i n a} = frees A \<union> frees_of (i, xs) \<union> frees_of (i, ys) \<union> frees B"
    using frees_fresh [of A i xs a FREE_CHUNK n ys B i n] ok p(2) by (auto simp: heap_ok_def)
  let ?p = "pool_erase (Isa i n a) (pool b)"
  show ?thesis
  proof (cases "n - sz \<le> sizeof_Desc")
    case True
    have "mb_split a sz (cache b) = Normal () (cache b)"
      using split_bails_out [OF heap_load [OF ok] sz(2) True] .
    moreover obtain c where c: "mb_set_type ARENA_CHUNK a (cache b) = Normal () c"
        "heap_ok c (A @ (i, xs @ (a, ARENA_CHUNK, n) # ys) # B)"
      using heap_retype [OF ok, of ARENA_CHUNK] by auto
    moreover have "split_to_alloc (Isa i n a) sz b = Normal a (b\<lparr>pool := ?p, cache := c\<rparr>)"
    proof (cases ys)
      case Nil
      then show ?thesis using calculation heap_load [OF c(2)]
        by (simp add: split_to_alloc_def Let_def mb_fields load_field_blk)
    next
      case (Cons y ys')
      obtain q u m where y: "y = (q, u, m)" by (cases y)
      have u: "u \<noteq> FREE_CHUNK" "q \<noteq> 0" using ysf Cons y heap_ok_chunk(4) [OF c(2)] by auto
      have "load c q = Inr (blk_desc i a u m (first_addr ys' 0))"
        using heap_load [of c A i "xs @ [(a, ARENA_CHUNK, n)]" q u m ys' B] c(2) Cons y by simp
      then show ?thesis using calculation heap_load [OF c(2)] Cons y u
        by (simp add: split_to_alloc_def Let_def mb_fields load_field_blk)
    qed
    moreover have "rep (b\<lparr>pool := ?p, cache := c\<rparr>) (A @ (i, xs @ cut a sz n @ ys) # B)"
      using c(2) p(1) fr True rep co' by (simp add: rep_def cut_def Un_assoc)
    ultimately show ?thesis by blast
  next
    case False
    then have lt: "unat sz + 64 < unat n"
      using sz by (simp add: word_le_nat_alt unat_sub_noov sizeof_Desc_def)
    obtain c1 where c1: "mb_split a sz (cache b) = Normal () c1"
        "heap_ok c1 (A @ (i, xs @ (a, FREE_CHUNK, sz) # (a + sz, FREE_CHUNK, n - sz) # ys) # B)"
      using heap_split [OF ok sz(1) lt] by blast
    obtain c where c: "mb_set_type ARENA_CHUNK a c1 = Normal () c"
        "heap_ok c (A @ (i, xs @ (a, ARENA_CHUNK, sz) # (a + sz, FREE_CHUNK, n - sz) # ys) # B)"
      using heap_retype [OF c1(2), of ARENA_CHUNK] by auto
    have l: "load c a = Inr (blk_desc i (last_addr 0 xs) ARENA_CHUNK sz (a + sz))"
      "load c (a + sz) = Inr (blk_desc i a FREE_CHUNK (n - sz) (first_addr ys 0))" "a + sz \<noteq> 0"
      using heap_ok_chunk [OF c(2)] by auto
    let ?q = "pool_insert (Isa i (n - sz) (a + sz)) ?p"
    have "split_to_alloc (Isa i n a) sz b = Normal a (b\<lparr>pool := ?q, cache := c\<rparr>)"
      using c1(1) c(1) l by (simp add: split_to_alloc_def Let_def mb_fields load_field_blk)
    moreover have "rep (b\<lparr>pool := ?q, cache := c\<rparr>) (A @ (i, xs @ cut a sz n @ ys) # B)"
      using c(2) p(1) fr False rep co' by (simp add: rep_def cut_def Un_assoc)
    ultimately show ?thesis by blast
  qed
qed


lemma rep_cong: "cache b = cache b' \<Longrightarrow> pool b = pool b' \<Longrightarrow> rep b A \<longleftrightarrow> rep b' A"
  by (simp add: rep_def)

lemma unat_align:
  assumes m: "0 < unat m" and le: "unat x + unat m \<le> 18446744073709551616"
  shows "\<exists>sz. align x m = Inr sz \<and> unat m dvd unat sz \<and> unat x \<le> unat sz \<and> unat sz < unat x + unat m"
proof (cases "x mod m = 0")
  case True
  then have "unat x mod unat m = 0" by (metis unat_0 unat_mod)
  moreover have "m \<noteq> 0" using m by auto
  ultimately show ?thesis using True m by (auto simp: align_def Let_def)
next
  case False
  let ?r = "unat x mod unat m"
  have r: "unat (x mod m) = ?r" by (rule unat_mod)
  have r0: "0 < ?r" using False r by (metis unat_gt_0)
  have rm: "?r < unat m" using m by simp
  have d: "unat (m - x mod m) = unat m - ?r"
    using r rm by (subst unat_sub_noov) (simp_all add: word_le_nat_alt)
  have s: "unat (x + (m - x mod m)) = unat x + (unat m - ?r)"
    using d le r0 rm by (subst unat_add_noov) simp_all
  have "unat x + (unat m - ?r) = unat m * (unat x div unat m) + unat m"
    using rm mult_div_mod_eq [of "unat m" "unat x"] by linarith
  then have "unat m dvd unat (x + (m - x mod m))" using s by simp
  moreover have "m \<noteq> 0" using m by auto
  ultimately show ?thesis using False s r0 rm by (auto simp: align_def Let_def)
qed

text \<open>
  The size of the chunks that \<open>RefillPool\<close> takes: in a build with CUDA the first refill for a GPU, when the counters add up
  to zero, replaces \<open>max_chunk_size_\<close> by \<open>GpuMaxChunkSize()\<close>.
\<close>

definition refill_size :: "'sys sys_allocator \<Rightarrow> u64 option \<Rightarrow> 'sys buddy \<Rightarrow> u64" where
  "refill_size sa gm b = (case gm of None \<Rightarrow> max_chunk_size b
     | Some m \<Rightarrow> if sys_use_gpu sa \<and> total_used b + total_free b = 0 then m else max_chunk_size b)"

lemma refill_size_None [simp]: "refill_size sa None b = max_chunk_size b"
  by (simp add: refill_size_def)

lemma refill_size_changes: "refill_size sa gm b \<noteq> max_chunk_size b \<Longrightarrow> total_used b + total_free b = 0"
  by (auto simp: refill_size_def split: option.splits if_splits)

lemma refill_pool_resized: "refill_pool sa gm b = refill_pool sa None (b\<lparr>max_chunk_size := refill_size sa gm b\<rparr>)"
proof (cases gm)
  case (Some m)
  then show ?thesis
    by (cases "sys_use_gpu sa \<and> total_used b + total_free b = 0") (auto simp: refill_pool_def refill_size_def)
qed (simp add: refill_pool_def refill_size_def)

lemma refill_pool_lemma:
  assumes rep: "rep b A"
    and al: "sys_alloc sa 0 (max_chunk_size b) (system b) = Normal (p, j) s" "p \<noteq> 0"
    and f: "fresh_for p (max_chunk_size b) A"
  shows "\<exists>b'. refill_pool sa None b = Normal (Some (Isa j (max_chunk_size b) p)) b' \<and>
    rep b' (A @ [(j, [(p, FREE_CHUNK, max_chunk_size b)])]) \<and> system b' = s \<and>
    max_chunk_size b' = max_chunk_size b \<and> min_chunk_size b' = min_chunk_size b \<and>
    total_used b' = total_used b \<and> total_free b' = total_free b + max_chunk_size b"
proof -
  let ?n = "max_chunk_size b"
  let ?c = "mb_init (cache b) FREE_CHUNK j ?n 0 0 p"
  let ?b = "b\<lparr>system := s, cache := ?c\<rparr>"
  have set: "heap_ok ?c (A @ [(j, [(p, FREE_CHUNK, ?n)])])"
    using rep f by (intro heap_push) (auto simp: rep_def)
  have l: "load ?c p = Inr (blk_desc j 0 FREE_CHUNK ?n 0)" by (simp add: mb_init_def md.load_save)
  show ?thesis
    using al l set rep
    by (cases "j = 1") (auto simp: refill_pool_def Let_def on_system_def mb_index_def load_field_blk rep_def)
qed

text \<open>The system allocator hands out memory that overlaps no block of the heap.\<close>

definition sys_fresh :: "'sys sys_allocator \<Rightarrow> 'sys \<Rightarrow> heap \<Rightarrow> bool" where
  "sys_fresh sa s A \<longleftrightarrow>
     (\<forall>n. case sys_alloc sa 0 n s of Normal (p, j) s' \<Rightarrow> p \<noteq> 0 \<longrightarrow> 64 \<le> unat n \<longrightarrow> fresh_for p n A | Fault e s' \<Rightarrow> True)"

lemma fresh_forD: "sys_fresh sa s A \<Longrightarrow> sys_alloc sa 0 n s = Normal (p, j) s' \<Longrightarrow> p \<noteq> 0 \<Longrightarrow> 64 \<le> unat n \<Longrightarrow> fresh_for p n A"
  unfolding sys_fresh_def by (drule spec [of _ n]) simp

text \<open>
  What \<open>Alloc\<close> does to the heap with a size \<open>sz\<close>, header included, where \<open>mx\<close> is \<open>max_chunk_size\<close> and \<open>gr\<close> the size
  that a refill takes: it
  takes the best fit among the free blocks, or when none is large enough a new chunk of \<open>gr\<close> bytes, or
  for a request above \<open>mx\<close> a chunk of its own. The option is what it got from the system: an address, the
  size asked for, and the index under which the system wants it back.
\<close>

inductive heap_alloc :: "u64 \<Rightarrow> u64 \<Rightarrow> u64 \<Rightarrow> heap \<Rightarrow> (addr \<times> u64 \<times> u64) option \<Rightarrow> heap \<Rightarrow> addr \<Rightarrow> bool" for mx gr sz where
  reuse: "sz \<le> mx \<Longrightarrow> sz \<le> n \<Longrightarrow>
    \<forall>x \<in> frees (B @ (i, xs @ (a, FREE_CHUNK, n) # ys) # C). sz \<le> isa_size x \<longrightarrow> Isa i n a \<le> x \<Longrightarrow>
    heap_alloc mx gr sz (B @ (i, xs @ (a, FREE_CHUNK, n) # ys) # C) None (B @ (i, xs @ cut a sz n @ ys) # C) a"
| grow: "sz \<le> mx \<Longrightarrow> sz \<le> gr \<Longrightarrow> \<forall>x \<in> frees A. isa_size x < sz \<Longrightarrow>
    heap_alloc mx gr sz A (Some (q, gr, j)) (A @ [(j, cut q sz gr)]) q"
| huge: "mx < sz \<Longrightarrow> heap_alloc mx gr sz A (Some (q, sz, j)) (A @ [(j, [(q, HUGE_CHUNK, sz)])]) q"

definition granted :: "'sys sys_allocator \<Rightarrow> (addr \<times> u64 \<times> u64) option \<Rightarrow> 'sys \<Rightarrow> 'sys \<Rightarrow> bool" where
  "granted sa g s s' \<longleftrightarrow>
     (case g of None \<Rightarrow> s' = s | Some (q, m, j) \<Rightarrow> sys_alloc sa 0 m s = Normal (q, j) s')"

lemma mb_metadata_data [simp]: "mb_metadata (mb_data a) = a"
  by (simp add: mb_metadata_def mb_data_def)

lemma addr_of_filter: "x \<in> fst ` set (map (\<lambda>(a, t, n). (a, n)) (filter P L)) \<Longrightarrow> x \<in> addrs L"
proof -
  have e: "fst (case y of (a, t, n) \<Rightarrow> (a, n)) = fst y" for y :: blk by (cases y) simp
  assume "x \<in> fst ` set (map (\<lambda>(a, t, n). (a, n)) (filter P L))"
  then show ?thesis by (simp add: image_image e image_iff Bex_def) blast
qed

lemma live_addr: "x \<in> fst ` live A \<Longrightarrow> x \<in> addrs (blocks A)"
  unfolding live_def by (rule addr_of_filter)

lemma live_chunk_addr: "x \<in> fst ` live [(i, bs)] \<Longrightarrow> x \<in> addrs bs"
  by (drule live_addr) simp

lemma live_cut: "live [(j, cut a sz n)] = {(a, if n - sz \<le> sizeof_Desc then n else sz)}"
  by (simp add: cut_def)

lemma addr_not_live:
  assumes "layout (blocks (A @ (i, xs @ (a, t, n) # ys) # B))"
  shows "a \<notin> fst ` (live A \<union> live [(i, xs)] \<union> live [(i, ys)] \<union> live B)"
  using addr_unique [OF assms] live_addr [of a A] live_addr [of a B] live_chunk_addr [of a i xs]
    live_chunk_addr [of a i ys]
  unfolding image_Un by blast

lemma heap_alloc_live:
  assumes "heap_alloc mx gr sz A g A' a" and "layout (blocks A)" and "layout (blocks A')"
  shows "\<exists>n. live A' = insert (a, n) (live A) \<and> a \<notin> fst ` live A \<and> sz \<le> n"
  using assms
proof cases
  case (reuse n B i xs ys C)
  have "live A = live B \<union> live [(i, xs)] \<union> live [(i, ys)] \<union> live C" using reuse(1) by auto
  then have "a \<notin> fst ` live A" using addr_not_live assms(2) reuse(1) by metis
  moreover have "live A' = insert (a, if n - sz \<le> sizeof_Desc then n else sz) (live A)"
    using reuse(1,3) by (auto simp: cut_def)
  ultimately show ?thesis using reuse(5) by auto
next
  case (grow j)
  have "layout (blocks (A @ (j, [] @ (a, ARENA_CHUNK, if gr - sz \<le> sizeof_Desc then gr else sz) #
      (if gr - sz \<le> sizeof_Desc then [] else [(a + sz, FREE_CHUNK, gr - sz)])) # []))"
    using assms(3) grow(2) by (simp add: cut_def split: if_splits)
  then have "a \<notin> fst ` live A" using addr_not_live by blast
  moreover have "live A' = insert (a, if gr - sz \<le> sizeof_Desc then gr else sz) (live A)"
    using grow(2) by (simp add: live_cut)
  ultimately show ?thesis using grow(4) by auto
next
  case (huge j)
  have "layout (blocks (A @ (j, [] @ (a, HUGE_CHUNK, sz) # []) # []))" using assms(3) huge(2) by simp
  then have "a \<notin> fst ` live A" using addr_not_live by blast
  then show ?thesis using huge(2) by auto
qed

lemma rep_layout: "rep b A \<Longrightarrow> layout (blocks A)"
  by (simp add: rep_def heap_ok_def)

lemma refill_pool_fails:
  "sys_alloc sa 0 (max_chunk_size b) (system b) = Normal (0, j) s \<Longrightarrow>
    refill_pool sa None b = Normal None (b\<lparr>system := s\<rparr>)"
  "sys_alloc sa 0 (max_chunk_size b) (system b) = Fault e s \<Longrightarrow>
    refill_pool sa None b = Fault e (b\<lparr>system := s\<rparr>)"
  by (simp_all add: refill_pool_def on_system_def)

text \<open>When the new chunk is too small for the request, the assertion of \<open>split\<close> fails.\<close>

lemma refill_pool_index:
  assumes "sys_alloc sa 0 (max_chunk_size b) (system b) = Normal (p, j) s" "p \<noteq> 0"
  shows "\<exists>b'. refill_pool sa None b = Normal (Some (Isa j (max_chunk_size b) p)) b' \<and>
    mb_total_size (cache b') p = Inr (max_chunk_size b)"
  using assms
  by (cases "j = 1") (simp_all add: refill_pool_def Let_def on_system_def mb_init_def md.load_save mb_index_def
      mb_total_size_def load_field_blk)

lemma split_to_alloc_aborts:
  assumes "mb_total_size (cache b) (isa_addr it) = Inr n" "n < sz"
  shows "\<exists>b'. split_to_alloc it sz b = Fault Assertion_Failed b'"
  using assms by (auto simp: split_to_alloc_def Let_def on_cache_def mb_split_def not_le)

lemma refill_too_small:
  assumes al: "sys_alloc sa 0 (max_chunk_size b) (system b) = Normal (p, j) s" "p \<noteq> 0" and sz: "max_chunk_size b < sz"
  shows "\<exists>b1 b2. refill_pool sa None b = Normal (Some (Isa j (max_chunk_size b) p)) b1 \<and>
    split_to_alloc (Isa j (max_chunk_size b) p) sz
      (b1\<lparr>total_used := total_used b1 + sz, total_free := total_free b1 - sz\<rparr>) = Fault Assertion_Failed b2"
proof -
  obtain b1 where b1: "refill_pool sa None b = Normal (Some (Isa j (max_chunk_size b) p)) b1"
    "mb_total_size (cache b1) p = Inr (max_chunk_size b)" using refill_pool_index [OF al] by blast
  then show ?thesis
    using split_to_alloc_aborts [of "b1\<lparr>total_used := total_used b1 + sz, total_free := total_free b1 - sz\<rparr>"
        "Isa j (max_chunk_size b) p" "max_chunk_size b" sz] sz by auto
qed

lemma mb_data_nonnull: "wf_blk (a, t, n) \<Longrightarrow> mb_data a \<noteq> 0"
proof
  assume w: "wf_blk (a, t, n)" and z: "mb_data a = 0"
  have "unat (mb_data a) = unat a + 64"
    using w unfolding mb_data_def sizeof_Desc_def by (subst unat_add_noov) auto
  then show False using z by simp
qed

text \<open>
  How an outcome of \<open>Alloc\<close> refines the change of the heap. The counters move by the size, and by the
  size of a new chunk, whatever the size of the block is; a huge block is not counted.
\<close>

definition alloc_counted :: "u64 \<Rightarrow> (addr \<times> u64 \<times> u64) option \<Rightarrow> 'sys buddy \<Rightarrow> 'sys buddy \<Rightarrow> bool" where
  "alloc_counted sz g b b' \<longleftrightarrow>
     (if max_chunk_size b < sz then total_used b' = total_used b \<and> total_free b' = total_free b
      else total_used b' = total_used b + sz \<and>
        total_free b' = total_free b + (case g of None \<Rightarrow> 0 | Some (q, m, j) \<Rightarrow> m) - sz)"

definition alloc_refines ::
  "'sys sys_allocator \<Rightarrow> u64 option \<Rightarrow> u64 \<Rightarrow> 'sys buddy \<Rightarrow> heap \<Rightarrow> ('sys buddy, addr) outcome \<Rightarrow> bool" where
  "alloc_refines sa gm sz b A r \<longleftrightarrow>
     (case r of
        Fault e b' \<Rightarrow>
          rep b' A \<and> (\<exists>n s. sys_alloc sa 0 n (system b) = Fault e s) \<or>
          e = Assertion_Failed \<and> refill_size sa gm b < sz \<and> sz \<le> max_chunk_size b \<and> (\<forall>x \<in> frees A. isa_size x < sz) \<and>
          (\<exists>q j s. sys_alloc sa 0 (refill_size sa gm b) (system b) = Normal (q, j) s \<and> q \<noteq> 0)
      | Normal p b' \<Rightarrow>
          min_chunk_size b' = min_chunk_size b \<and>
          (if p = 0
           then rep b' A \<and> (\<exists>n j. sys_alloc sa 0 n (system b) = Normal (0, j) (system b')) \<and>
             total_used b' = total_used b \<and> total_free b' = total_free b \<and>
             max_chunk_size b' \<in> {max_chunk_size b, refill_size sa gm b}
           else \<exists>A' g. heap_alloc (max_chunk_size b) (refill_size sa gm b) sz A g A' (mb_metadata p) \<and> rep b' A' \<and>
             granted sa g (system b) (system b') \<and> alloc_counted sz g b b' \<and>
             max_chunk_size b' = (if sz \<le> max_chunk_size b \<and> g \<noteq> None then refill_size sa gm b else max_chunk_size b)))"

text \<open>The outcome that hands out the block at \<open>a\<close>.\<close>

lemma alloc_refinesI:
  assumes "heap_alloc (max_chunk_size b) (refill_size sa gm b) sz A g A' a" "rep b' A'" "granted sa g (system b) (system b')"
    "alloc_counted sz g b b'" "min_chunk_size b' = min_chunk_size b"
    "max_chunk_size b' = (if sz \<le> max_chunk_size b \<and> g \<noteq> None then refill_size sa gm b else max_chunk_size b)"
    "mb_data a \<noteq> 0"
  shows "alloc_refines sa gm sz b A (Normal (mb_data a) b')"
  unfolding alloc_refines_def outcome.case using assms
  by (auto intro!: exI [of _ A'] exI [of _ g] simp del: option.distinct simp: mb_metadata_data)

lemma alloc_refines_null:
  "rep b A \<Longrightarrow> sys_alloc sa 0 n (system b) = Normal (0, j) s \<Longrightarrow> mx \<in> {max_chunk_size b, refill_size sa gm b} \<Longrightarrow>
   alloc_refines sa gm sz b A (Normal 0 (b\<lparr>max_chunk_size := mx, system := s\<rparr>))"
  by (auto simp: alloc_refines_def rep_def)

lemma alloc_refines_fault:
  "rep b A \<Longrightarrow> sys_alloc sa 0 n (system b) = Fault e s \<Longrightarrow>
   alloc_refines sa gm sz b A (Fault e (b\<lparr>max_chunk_size := mx, system := s\<rparr>))"
  by (auto simp: alloc_refines_def rep_def)

lemma system_alloc_lemma:
  assumes rep: "rep b A" and fresh: "sys_fresh sa (system b) A" and sz: "64 \<le> unat sz" "max_chunk_size b < sz"
  shows "alloc_refines sa gm sz b A (system_alloc sa sz b)"
proof (cases "sys_alloc sa 0 sz (system b)")
  case (Fault e s)
  then show ?thesis using alloc_refines_fault [OF rep Fault, of gm sz "max_chunk_size b"] by (simp add: system_alloc_def on_system_def)
next
  case (Normal x s)
  obtain p j where x: "x = (p, j)" by (cases x)
  show ?thesis
  proof (cases "p = 0")
    case True
    then show ?thesis using alloc_refines_null [OF rep, of sa sz j s "max_chunk_size b" gm sz] Normal x by (simp add: system_alloc_def on_system_def)
  next
    case False
    let ?A = "A @ [(j, [(p, HUGE_CHUNK, sz)])]"
    let ?b = "b\<lparr>system := s, cache := mb_init (cache b) HUGE_CHUNK j sz 0 0 p\<rparr>"
    have "fresh_for p sz A" using fresh_forD [OF fresh] Normal x False sz by simp
    then have ok: "heap_ok (cache ?b) ?A" using rep by (simp add: rep_def heap_push)
    have "alloc_refines sa gm sz b A (Normal (mb_data p) ?b)"
    proof (rule alloc_refinesI)
      show "heap_alloc (max_chunk_size b) (refill_size sa gm b) sz A (Some (p, sz, j)) ?A p" using sz(2) by (simp add: heap_alloc.huge)
      show "rep ?b ?A" using ok rep by (simp add: rep_def)
      show "granted sa (Some (p, sz, j)) (system b) (system ?b)" using Normal x by (simp add: granted_def)
      show "mb_data p \<noteq> 0"
        using ok by (intro mb_data_nonnull [of _ HUGE_CHUNK sz]) (simp add: heap_ok_def layout_append layout_Cons)
    qed (use sz(2) in \<open>auto simp: alloc_counted_def dest: leD\<close>)
    then show ?thesis using Normal x False by (simp add: system_alloc_def on_system_def)
  qed
qed

lemma take_block_lemma:
  assumes rep: "rep b (A @ (i, xs @ (a, FREE_CHUNK, n) # ys) # B)" and sz: "64 \<le> unat sz" "sz \<le> n"
  shows "\<exists>p c. split_to_alloc (Isa i n a) sz (b\<lparr>total_used := x, total_free := y\<rparr>) =
      Normal a (b\<lparr>total_used := x, total_free := y, pool := p, cache := c\<rparr>) \<and>
    mb_data a \<noteq> 0 \<and> rep (b\<lparr>total_used := x, total_free := y, pool := p, cache := c\<rparr>) (A @ (i, xs @ cut a sz n @ ys) # B)"
proof -
  have "mb_data a \<noteq> 0"
    using rep_layout [OF rep] by (intro mb_data_nonnull [of _ FREE_CHUNK n]) (simp add: layout_append layout_Cons)
  moreover
  let ?b = "b\<lparr>total_used := x, total_free := y\<rparr>"
  have "rep ?b (A @ (i, xs @ (a, FREE_CHUNK, n) # ys) # B)" using rep by (simp add: rep_def)
  from split_to_alloc_lemma [OF this sz] obtain p c where
    "split_to_alloc (Isa i n a) sz ?b = Normal a (?b\<lparr>pool := p, cache := c\<rparr>)"
    "rep (?b\<lparr>pool := p, cache := c\<rparr>) (A @ (i, xs @ cut a sz n @ ys) # B)" by blast
  ultimately show ?thesis by blast
qed

lemma find_exist_chunk_Some:
  "pool_ok p \<Longrightarrow> find_exist_chunk sz p = Some it \<Longrightarrow>
   it \<in> set p \<and> sz \<le> isa_size it \<and> (\<forall>x \<in> set p. sz \<le> isa_size x \<longrightarrow> it \<le> x)"
  using best_fit [of p sz] by simp

lemma find_exist_chunk_None:
  "pool_ok p \<Longrightarrow> find_exist_chunk sz p = None \<Longrightarrow> \<forall>x \<in> set p. isa_size x < sz"
  using best_fit [of p sz] by simp

lemma reuse_lemma:
  assumes rep: "rep b A" and sz: "64 \<le> unat sz" "sz \<le> max_chunk_size b"
    and it: "find_exist_chunk sz (pool b) = Some it"
  shows "\<exists>b'. split_to_alloc it sz (b\<lparr>total_used := total_used b + sz, total_free := total_free b - sz\<rparr>) =
      Normal (isa_addr it) b' \<and> alloc_refines sa gm sz b A (Normal (mb_data (isa_addr it)) b')"
proof -
  have pool: "pool_ok (pool b)" "set (pool b) = frees A" using rep by (auto simp: rep_def)
  note it' = find_exist_chunk_Some [OF pool(1) it, unfolded pool(2)]
  then obtain B i xs ys C where A: "A = B @ (i, xs @ (isa_addr it, FREE_CHUNK, isa_size it) # ys) # C"
      "i = isa_index it" using frees_member [of it A] by blast
  have eq: "Isa i (isa_size it) (isa_addr it) = it" using A(2) by simp
  let ?A = "B @ (i, xs @ cut (isa_addr it) sz (isa_size it) @ ys) # C"
  obtain b' where b': "split_to_alloc it sz (b\<lparr>total_used := total_used b + sz, total_free := total_free b - sz\<rparr>)
      = Normal (isa_addr it) b'" "mb_data (isa_addr it) \<noteq> 0" "system b' = system b"
      "min_chunk_size b' = min_chunk_size b" "max_chunk_size b' = max_chunk_size b"
      "total_used b' = total_used b + sz" "total_free b' = total_free b - sz" "rep b' ?A"
    using take_block_lemma [OF rep [unfolded A(1)] sz(1), where x = "total_used b + sz" and y = "total_free b - sz"]
      it' eq by fastforce
  have "heap_alloc (max_chunk_size b) (refill_size sa gm b) sz A None ?A (isa_addr it)"
    using it' A eq sz(2) b'(5) by (simp add: heap_alloc.reuse del: frees_simps)
  from alloc_refinesI [OF this b'(8)] have "alloc_refines sa gm sz b A (Normal (mb_data (isa_addr it)) b')"
    using b'(2-7) leD [OF sz(2)] by (simp add: granted_def alloc_counted_def)
  then show ?thesis using b'(1) by blast
qed

lemma grow_lemma:
  assumes rep: "rep b A" and sz: "64 \<le> unat sz" "sz \<le> max_chunk_size b" and fresh: "sys_fresh sa (system b) A"
    and al: "sys_alloc sa 0 (max_chunk_size b) (system b) = Normal (p, j) s" "p \<noteq> 0"
  shows "\<exists>b1 b2. refill_pool sa None b = Normal (Some (Isa j (max_chunk_size b) p)) b1 \<and>
    split_to_alloc (Isa j (max_chunk_size b) p) sz
      (b1\<lparr>total_used := total_used b1 + sz, total_free := total_free b1 - sz\<rparr>) = Normal p b2 \<and>
    mb_data p \<noteq> 0 \<and> system b2 = s \<and> min_chunk_size b2 = min_chunk_size b \<and> max_chunk_size b2 = max_chunk_size b \<and>
    total_used b2 = total_used b + sz \<and> total_free b2 = total_free b + max_chunk_size b - sz \<and>
    rep b2 (A @ [(j, cut p sz (max_chunk_size b))])"
proof -
  let ?n = "max_chunk_size b"
  have "fresh_for p ?n A" using fresh_forD [OF fresh al] sz by (simp add: word_le_nat_alt)
  then obtain b1 where b1: "refill_pool sa None b = Normal (Some (Isa j ?n p)) b1"
      "rep b1 (A @ (j, [] @ (p, FREE_CHUNK, ?n) # []) # [])" "system b1 = s"
      "max_chunk_size b1 = ?n" "min_chunk_size b1 = min_chunk_size b"
      "total_used b1 = total_used b" "total_free b1 = total_free b + ?n"
    using refill_pool_lemma [OF rep al] by auto
  obtain b2 where b2: "split_to_alloc (Isa j ?n p) sz
      (b1\<lparr>total_used := total_used b1 + sz, total_free := total_free b1 - sz\<rparr>) = Normal p b2"
      "mb_data p \<noteq> 0" "system b2 = s" "min_chunk_size b2 = min_chunk_size b" "max_chunk_size b2 = ?n"
      "total_used b2 = total_used b + sz" "total_free b2 = total_free b + ?n - sz" "rep b2 (A @ [(j, cut p sz ?n)])"
    using take_block_lemma [OF b1(2) sz, where x = "total_used b1 + sz" and y = "total_free b1 - sz"]
      b1(3-7) by fastforce
  show ?thesis using b1(1) b2 by blast
qed

text \<open>The part of \<open>Alloc\<close> that no free block serves, in any build.\<close>

definition refill_and_cut :: "'sys sys_allocator \<Rightarrow> u64 option \<Rightarrow> u64 \<Rightarrow> 'sys buddy \<Rightarrow> ('sys buddy, addr) outcome" where
  "refill_and_cut sa gm sz b =
     obind (refill_pool sa gm b) (\<lambda>it b. case it of None \<Rightarrow> Normal 0 b
       | Some it \<Rightarrow>
           let b = b\<lparr>total_used := total_used b + sz, total_free := total_free b - sz\<rparr>
           in obind (split_to_alloc it sz b) (\<lambda>block b. Normal (mb_data block) b))"

lemma buddy_alloc_refills:
  assumes "align (u + sizeof_Desc) (min_chunk_size b) = Inr sz" "\<not> sz > max_chunk_size b"
    "find_exist_chunk sz (pool b) = None"
  shows "buddy_alloc sa gm u b = refill_and_cut sa gm sz b"
  using assms by (simp add: buddy_alloc_def refill_and_cut_def)

lemma refill_lemma:
  assumes rep: "rep b A" and sz: "64 \<le> unat sz" "sz \<le> max_chunk_size b"
    and none: "\<forall>x \<in> frees A. isa_size x < sz" and fresh: "sys_fresh sa (system b) A"
  shows "alloc_refines sa gm sz b A (refill_and_cut sa gm sz b)"
proof -
  let ?m = "refill_size sa gm b"
  let ?b = "b\<lparr>max_chunk_size := ?m\<rparr>"
  have run: "refill_and_cut sa gm sz b = refill_and_cut sa None sz ?b"
    unfolding refill_and_cut_def by (subst refill_pool_resized) simp
  have rep': "rep ?b A" using rep by (simp add: rep_def)
  show ?thesis
  proof (cases "sys_alloc sa 0 ?m (system b)")
    case (Fault e s)
    then show ?thesis unfolding run
      using alloc_refines_fault [OF rep Fault, of gm sz ?m] refill_pool_fails(2) [of sa ?b e s]
      by (simp add: refill_and_cut_def)
  next
    case (Normal x s)
    obtain p j where x: "x = (p, j)" by (cases x)
    then have al: "sys_alloc sa 0 ?m (system b) = Normal (p, j) s" using Normal by simp
    consider (null) "p = 0" | (small) "p \<noteq> 0" "?m < sz" | (fits) "p \<noteq> 0" "sz \<le> ?m" by fastforce
    then show ?thesis
    proof cases
      case null
      then show ?thesis unfolding run
        using alloc_refines_null [OF rep, of sa ?m j s ?m gm sz] refill_pool_fails(1) [of sa ?b j s] al
        by (simp add: refill_and_cut_def)
    next
      case small
      then obtain b1 b2 where b1: "refill_pool sa None ?b = Normal (Some (Isa j ?m p)) b1"
        "split_to_alloc (Isa j ?m p) sz (b1\<lparr>total_used := total_used b1 + sz, total_free := total_free b1 - sz\<rparr>)
          = Fault Assertion_Failed b2"
        using refill_too_small [of sa ?b p j s sz] al by auto
      then have "refill_and_cut sa None sz ?b = Fault Assertion_Failed b2" by (simp add: refill_and_cut_def)
      then show ?thesis unfolding run using small sz(2) none al by (simp add: alloc_refines_def)
    next
      case fits
      obtain b1 b2 where b: "refill_pool sa None ?b = Normal (Some (Isa j ?m p)) b1"
        "split_to_alloc (Isa j ?m p) sz (b1\<lparr>total_used := total_used b1 + sz, total_free := total_free b1 - sz\<rparr>) = Normal p b2"
        "mb_data p \<noteq> 0" "system b2 = s" "min_chunk_size b2 = min_chunk_size b" "max_chunk_size b2 = ?m"
        "total_used b2 = total_used b + sz" "total_free b2 = total_free b + ?m - sz"
        "rep b2 (A @ [(j, cut p sz ?m)])"
        using grow_lemma [OF rep' sz(1), of sa p j s] fits al fresh by auto
      have "refill_and_cut sa None sz ?b = Normal (mb_data p) b2" using b(1,2) by (simp add: refill_and_cut_def)
      moreover have "alloc_refines sa gm sz b A (Normal (mb_data p) b2)"
      proof (rule alloc_refinesI)
        show "heap_alloc (max_chunk_size b) ?m sz A (Some (p, ?m, j)) (A @ [(j, cut p sz ?m)]) p"
          by (rule heap_alloc.grow [OF sz(2) fits(2) none])
        show "granted sa (Some (p, ?m, j)) (system b) (system b2)" using al b(4) by (simp add: granted_def)
        show "alloc_counted sz (Some (p, ?m, j)) b b2" using b(7,8) leD [OF sz(2)] by (simp add: alloc_counted_def)
      qed (use b sz(2) in simp_all)
      ultimately show ?thesis unfolding run by simp
    qed
  qed
qed

lemma buddy_alloc_lemma:
  assumes rep: "rep b A"
    and sz: "align (u + sizeof_Desc) (min_chunk_size b) = Inr sz" and s64: "64 \<le> unat sz"
    and fresh: "sys_fresh sa (system b) A"
  shows "alloc_refines sa gm sz b A (buddy_alloc sa gm u b)"
proof (cases "sz > max_chunk_size b")
  case True
  then show ?thesis using system_alloc_lemma [OF rep fresh s64 True, of gm] sz by (simp add: buddy_alloc_def)
next
  case False
  then have smax: "sz \<le> max_chunk_size b" by simp
  show ?thesis
  proof (cases "find_exist_chunk sz (pool b)")
    case (Some it)
    then show ?thesis
      using reuse_lemma [OF rep s64 smax Some, of sa gm] sz False by (auto simp: buddy_alloc_def Let_def)
  next
    case None
    have none: "\<forall>x \<in> frees A. isa_size x < sz"
      using find_exist_chunk_None [OF _ None] rep by (simp add: rep_def)
    show ?thesis using refill_lemma [OF rep s64 smax none fresh] buddy_alloc_refills [OF sz False None] by simp
  qed
qed

section \<open>Free on the heap\<close>

text \<open>
  What \<open>Free\<close> does to the heap: a huge block is dropped, with its index for the system allocator; a
  block of an arena is joined with a free block to its right, then with one to its left.
\<close>

definition join_right :: "u64 \<Rightarrow> blk list \<Rightarrow> u64 \<times> blk list" where
  "join_right n ys = (case ys of [] \<Rightarrow> (n, [])
     | (q, t, m) # zs \<Rightarrow> if t = FREE_CHUNK then (n + m, zs) else (n, ys))"

definition join_left :: "addr \<Rightarrow> u64 \<Rightarrow> blk list \<Rightarrow> addr \<times> u64 \<times> blk list" where
  "join_left a n xs = (case rev xs of [] \<Rightarrow> (a, n, [])
     | (q, t, m) # zs \<Rightarrow> if t = FREE_CHUNK then (q, m + n, rev zs) else (a, n, xs))"

inductive heap_free :: "heap \<Rightarrow> addr \<times> u64 \<Rightarrow> u64 option \<Rightarrow> heap \<Rightarrow> bool" where
  huge: "heap_free (B @ (i, [(a, HUGE_CHUNK, n)]) # C) (a, n) (Some i) (B @ C)"
| arena: "join_right n ys = (m, zs) \<Longrightarrow> join_left a m xs = (q, k, ws) \<Longrightarrow>
    heap_free (B @ (i, xs @ (a, ARENA_CHUNK, n) # ys) # C) (a, n) None (B @ (i, ws @ (q, FREE_CHUNK, k) # zs) # C)"

text \<open>
  Between the steps of \<open>Free\<close>: the block at \<open>a\<close> is marked free and not yet in the pool.
\<close>

definition pending ::
  "'sys buddy \<Rightarrow> heap \<Rightarrow> u64 \<Rightarrow> blk list \<Rightarrow> addr \<Rightarrow> u64 \<Rightarrow> blk list \<Rightarrow> heap \<Rightarrow> bool" where
  "pending b A i xs a n ys B \<longleftrightarrow>
     heap_ok (cache b) (A @ (i, xs @ (a, FREE_CHUNK, n) # ys) # B) \<and> pool_ok (pool b) \<and>
     set (pool b) = frees A \<union> frees_of (i, xs) \<union> frees_of (i, ys) \<union> frees B \<and>
     coalesced xs \<and> coalesced ys \<and> (\<forall>x \<in> set A \<union> set B. coalesced (snd x))"

definition heap_only :: "'sys buddy \<Rightarrow> 'sys buddy \<Rightarrow> bool" where
  "heap_only b b' \<longleftrightarrow> b' = b\<lparr>pool := pool b', cache := cache b'\<rparr>"

lemma heap_only_simps [simp]:
  "heap_only b b"
  "heap_only b (b\<lparr>pool := p, cache := c\<rparr>)"
  by (simp_all add: heap_only_def)

lemma heap_only_fields:
  "heap_only b b' \<Longrightarrow> system b' = system b \<and> total_used b' = total_used b \<and> total_free b' = total_free b \<and>
     min_chunk_size b' = min_chunk_size b \<and> max_chunk_size b' = max_chunk_size b"
  by (cases b; cases b') (simp add: heap_only_def)

lemma heap_only_trans: "heap_only a b \<Longrightarrow> heap_only b c \<Longrightarrow> heap_only a c"
  by (cases a; cases b; cases c) (simp add: heap_only_def)

lemma merge_right_lemma:
  assumes P: "pending b A i xs a n ys B"
  shows "\<exists>b' m zs. merge_right a b = Normal () b' \<and> pending b' A i xs a m zs B \<and>
    (zs = [] \<or> \<not> free_blk (hd zs)) \<and> live [(i, zs)] = live [(i, ys)] \<and> join_right n ys = (m, zs) \<and>
    heap_only b b'"
proof (cases ys)
  case Nil
  have "load (cache b) a = Inr (blk_desc i (last_addr 0 xs) FREE_CHUNK n 0)"
    using P heap_load [of "cache b" A i xs a FREE_CHUNK n ys B] Nil by (simp add: pending_def)
  then have "merge_right a b = Normal () b" by (simp add: merge_right_def mb_fields load_field_blk)
  then show ?thesis using P Nil by (intro exI [of _ b] exI [of _ n] exI [of _ ys]) (simp add: join_right_def)
next
  case (Cons y zs)
  obtain q u m where y: "y = (q, u, m)" by (cases y)
  have ok: "heap_ok (cache b) (A @ (i, xs @ (a, FREE_CHUNK, n) # (q, u, m) # zs) # B)"
    using P Cons y by (simp add: pending_def)
  have la: "load (cache b) a = Inr (blk_desc i (last_addr 0 xs) FREE_CHUNK n q)"
    using heap_load [OF ok] by simp
  have lq: "load (cache b) q = Inr (blk_desc i a u m (first_addr zs 0))"
    using heap_load [of "cache b" A i "xs @ [(a, FREE_CHUNK, n)]" q u m zs B] ok by simp
  have q0: "q \<noteq> 0" using heap_ok_chunk(4) [OF ok] by simp
  show ?thesis
  proof (cases "u = FREE_CHUNK")
    case False
    then have "merge_right a b = Normal () b"
      using la lq q0 by (simp add: merge_right_def mb_fields load_field_blk)
    then show ?thesis using P Cons y False
      by (intro exI [of _ b] exI [of _ n] exI [of _ ys]) (simp add: join_right_def)
  next
    case True
    obtain c where c: "mb_merge a q (cache b) = Normal () c"
        "heap_ok c (A @ (i, xs @ (a, FREE_CHUNK, n + m) # zs) # B)"
      using heap_merge ok True by blast
    let ?b = "b\<lparr>pool := pool_erase (Isa i m q) (pool b), cache := c\<rparr>"
    have run: "merge_right a b = Normal () ?b"
      using la lq q0 True c(1) by (simp add: merge_right_def mb_fields load_field_blk)
    have "set (pool b) - {Isa i m q} = frees A \<union> frees_of (i, xs) \<union> frees_of (i, zs) \<union> frees B"
      using frees_fresh [of A i "xs @ [(a, FREE_CHUNK, n)]" q u m zs B i m] ok P Cons y True
      by (auto simp: heap_ok_def pending_def)
    moreover have "coalesced zs" "zs = [] \<or> \<not> free_blk (hd zs)"
      using P Cons y True by (auto simp: pending_def coalesced_Cons simp del: coalesced_simps(3))
    ultimately have "pending ?b A i xs a (n + m) zs B" using P c(2) by (simp add: pending_def)
    moreover have "live [(i, zs)] = live [(i, ys)]" using Cons y True by simp
    ultimately show ?thesis using run \<open>zs = [] \<or> \<not> free_blk (hd zs)\<close> Cons y True
      by (intro exI [of _ ?b] exI [of _ "n + m"] exI [of _ zs]) (simp add: join_right_def)
  qed
qed

lemma merge_left_lemma:
  assumes P: "pending b A i xs a n ys B"
  shows "\<exists>b' p m zs. merge_left a b = Normal p b' \<and> pending b' A i zs p m ys B \<and>
    (zs = [] \<or> \<not> free_blk (last zs)) \<and> live [(i, zs)] = live [(i, xs)] \<and> join_left a n xs = (p, m, zs) \<and>
    heap_only b b'"
proof (cases xs rule: rev_cases)
  case Nil
  have "load (cache b) a = Inr (blk_desc i 0 FREE_CHUNK n (first_addr ys 0))"
    using P heap_load [of "cache b" A i xs a FREE_CHUNK n ys B] Nil by (simp add: pending_def)
  then have "merge_left a b = Normal a b" by (simp add: merge_left_def mb_fields load_field_blk)
  then show ?thesis using P Nil
    by (intro exI [of _ b] exI [of _ a] exI [of _ n] exI [of _ xs]) (simp add: join_left_def)
next
  case (snoc zs x)
  obtain q u m where x: "x = (q, u, m)" by (cases x)
  have ok: "heap_ok (cache b) (A @ (i, zs @ (q, u, m) # (a, FREE_CHUNK, n) # ys) # B)"
    using P snoc x by (simp add: pending_def)
  have la: "load (cache b) a = Inr (blk_desc i q FREE_CHUNK n (first_addr ys 0))"
    using heap_load [of "cache b" A i "zs @ [(q, u, m)]" a FREE_CHUNK n ys B] ok by simp
  have lq: "load (cache b) q = Inr (blk_desc i (last_addr 0 zs) u m a)"
    using heap_load [OF ok] by simp
  have q0: "q \<noteq> 0" using heap_ok_chunk(4) [OF ok] by simp
  show ?thesis
  proof (cases "u = FREE_CHUNK")
    case False
    then have "merge_left a b = Normal a b"
      using la lq q0 by (simp add: merge_left_def mb_fields load_field_blk)
    then show ?thesis using P snoc x False
      by (intro exI [of _ b] exI [of _ a] exI [of _ n] exI [of _ xs]) (simp add: join_left_def)
  next
    case True
    obtain c where c: "mb_merge q a (cache b) = Normal () c"
        "heap_ok c (A @ (i, zs @ (q, FREE_CHUNK, m + n) # ys) # B)"
      using heap_merge ok True by blast
    let ?b = "b\<lparr>pool := pool_erase (Isa i m q) (pool b), cache := c\<rparr>"
    have run: "merge_left a b = Normal q ?b"
      using la lq q0 True c(1) by (simp add: merge_left_def mb_fields load_field_blk)
    have "set (pool b) - {Isa i m q} = frees A \<union> frees_of (i, zs) \<union> frees_of (i, ys) \<union> frees B"
      using frees_fresh [of A i zs q u m "(a, FREE_CHUNK, n) # ys" B i m] ok P snoc x True
      by (auto simp: heap_ok_def pending_def)
    moreover have "coalesced zs" "zs = [] \<or> \<not> free_blk (last zs)"
      using P snoc x True by (auto simp: pending_def coalesced_append)
    ultimately have "pending ?b A i zs q (m + n) ys B" using P c(2) by (simp add: pending_def)
    moreover have "live [(i, zs)] = live [(i, xs)]" using snoc x True by simp
    ultimately show ?thesis using run \<open>zs = [] \<or> \<not> free_blk (last zs)\<close> snoc x True
      by (intro exI [of _ ?b] exI [of _ q] exI [of _ "m + n"] exI [of _ zs]) (simp add: join_left_def)
  qed
qed

lemma pending_insert:
  assumes P: "pending b A i xs a n ys B"
    and e: "xs = [] \<or> \<not> free_blk (last xs)" "ys = [] \<or> \<not> free_blk (hd ys)"
  shows "rep (b\<lparr>pool := pool_insert (Isa i n a) (pool b)\<rparr>) (A @ (i, xs @ (a, FREE_CHUNK, n) # ys) # B)"
proof -
  have "coalesced (xs @ (a, FREE_CHUNK, n) # ys)"
    using P e by (auto simp: pending_def coalesced_append coalesced_Cons simp del: coalesced_simps(3))
  then show ?thesis using P by (auto simp: rep_def pending_def)
qed


lemma live_member:
  assumes "(a, n) \<in> live A"
  shows "\<exists>B i xs t ys C. A = B @ (i, xs @ (a, t, n) # ys) # C \<and> t \<noteq> FREE_CHUNK"
proof -
  have "\<exists>t. (a, t, n) \<in> set (blocks A) \<and> t \<noteq> FREE_CHUNK"
    using assms unfolding live_def by (force simp del: set_concat)
  then obtain t i bs where t: "(i, bs) \<in> set A" "(a, t, n) \<in> set bs" "t \<noteq> FREE_CHUNK" by auto
  obtain B C where "A = B @ (i, bs) # C" using t(1) by (meson split_list)
  moreover obtain xs ys where "bs = xs @ (a, t, n) # ys" using t(2) by (meson split_list)
  ultimately show ?thesis using t(3) by blast
qed

lemma live_remove:
  assumes "layout (blocks (A @ (i, xs @ (a, t, n) # ys) # B))" and "t \<noteq> FREE_CHUNK"
  shows "live (A @ (i, xs @ (a, t, n) # ys) # B) - {(a, n)} = live A \<union> live [(i, xs)] \<union> live [(i, ys)] \<union> live B"
proof -
  note u = addr_unique [OF assms(1)]
  have "(a, n) \<notin> live A" "(a, n) \<notin> live B" "(a, n) \<notin> live [(i, xs)]" "(a, n) \<notin> live [(i, ys)]"
    using u live_addr live_chunk_addr by (metis fst_conv image_eqI)+
  moreover have "live (A @ (i, xs @ (a, t, n) # ys) # B) =
      insert (a, n) (live A \<union> live [(i, xs)] \<union> live [(i, ys)] \<union> live B)"
    using assms(2) by auto
  ultimately show ?thesis by blast
qed

text \<open>How an outcome of \<open>Free\<close> refines the change of the heap.\<close>

definition free_refines ::
  "'sys sys_allocator \<Rightarrow> addr \<Rightarrow> u64 \<Rightarrow> 'sys buddy \<Rightarrow> heap \<Rightarrow> ('sys buddy, unit) outcome \<Rightarrow> bool" where
  "free_refines sa a n b A r \<longleftrightarrow>
     (case r of
        Fault e b' \<Rightarrow> rep b' A \<and> (\<exists>i s. sys_free sa a n i (system b) = Fault e s)
      | Normal u b' \<Rightarrow>
          min_chunk_size b' = min_chunk_size b \<and> max_chunk_size b' = max_chunk_size b \<and>
          (\<exists>A' g. heap_free A (a, n) g A' \<and> rep b' A' \<and>
             (case g of
                None \<Rightarrow> system b' = system b \<and> total_used b' = total_used b - n \<and> total_free b' = total_free b + n
              | Some i \<Rightarrow> sys_free sa a n i (system b) = Normal () (system b') \<and>
                  total_used b' = total_used b \<and> total_free b' = total_free b)))"

text \<open>\<open>Free\<close> of a block of an arena always returns: it does not call the system.\<close>

lemma free_arena_runs:
  assumes rep: "rep b (A @ (i, xs @ (mb_metadata p, ARENA_CHUNK, n) # ys) # B)"
  shows "\<exists>b' q k ws zs m. buddy_free sa p b = Normal () b' \<and>
    join_right n ys = (m, zs) \<and> join_left (mb_metadata p) m xs = (q, k, ws) \<and>
    rep b' (A @ (i, ws @ (q, FREE_CHUNK, k) # zs) # B) \<and> system b' = system b \<and>
    total_used b' = total_used b - n \<and> total_free b' = total_free b + n \<and>
    min_chunk_size b' = min_chunk_size b \<and> max_chunk_size b' = max_chunk_size b"
proof -
  let ?a = "mb_metadata p"
  have ok: "heap_ok (cache b) (A @ (i, xs @ (?a, ARENA_CHUNK, n) # ys) # B)" using rep by (simp add: rep_def)
  obtain c where c: "mb_mark_as_free ?a (cache b) = Normal () c"
      "heap_ok c (A @ (i, xs @ (?a, FREE_CHUNK, n) # ys) # B)"
    using heap_mark_as_free [OF ok] by blast
  let ?b = "b\<lparr>cache := c, total_used := total_used b - n, total_free := total_free b + n\<rparr>"
  have "pending ?b A i xs ?a n ys B"
    using rep c(2) by (auto simp: rep_def pending_def coalesced_append coalesced_Cons simp del: coalesced_simps(3))
  then obtain b1 m zs where b1: "merge_right ?a ?b = Normal () b1" "pending b1 A i xs ?a m zs B"
      "zs = [] \<or> \<not> free_blk (hd zs)" "join_right n ys = (m, zs)" "heap_only ?b b1"
    using merge_right_lemma [of ?b A i xs ?a n ys B] by auto
  obtain b2 q k ws where b2: "merge_left ?a b1 = Normal q b2" "pending b2 A i ws q k zs B"
      "ws = [] \<or> \<not> free_blk (last ws)" "join_left ?a m xs = (q, k, ws)" "heap_only b1 b2"
    using merge_left_lemma [OF b1(2)] by blast
  have "heap_ok (cache b2) (A @ (i, ws @ (q, FREE_CHUNK, k) # zs) # B)" using b2(2) by (simp add: pending_def)
  note lq = heap_load [OF this]
  have lc: "load c ?a = Inr (blk_desc i (last_addr 0 xs) FREE_CHUNK n (first_addr ys 0))"
    using c(2) heap_load by blast
  have "buddy_free sa p b = Normal () (b2\<lparr>pool := pool_insert (Isa i k q) (pool b2)\<rparr>)"
    using heap_load [OF ok] c(1) lc b1(1) b2(1) lq
    by (simp add: buddy_free_def Let_def mb_fields load_field_blk)
  then show ?thesis
    using b1(4) b2(4) pending_insert [OF b2(2,3) b1(3)] heap_only_fields [OF heap_only_trans [OF b1(5) b2(5)]]
    by simp
qed

lemma free_arena_lemma:
  assumes rep: "rep b (A @ (i, xs @ (a, ARENA_CHUNK, n) # ys) # B)" and p: "mb_metadata p = a"
  shows "free_refines sa a n b (A @ (i, xs @ (a, ARENA_CHUNK, n) # ys) # B) (buddy_free sa p b)"
proof -
  let ?H = "A @ (i, xs @ (a, ARENA_CHUNK, n) # ys) # B"
  obtain b' q k ws zs m where b': "buddy_free sa p b = Normal () b'" "join_right n ys = (m, zs)"
      "join_left a m xs = (q, k, ws)" "rep b' (A @ (i, ws @ (q, FREE_CHUNK, k) # zs) # B)"
      "system b' = system b" "total_used b' = total_used b - n" "total_free b' = total_free b + n"
      "min_chunk_size b' = min_chunk_size b" "max_chunk_size b' = max_chunk_size b"
    using free_arena_runs [of b A i xs p n ys B sa] rep p by auto
  have "heap_free ?H (a, n) None (A @ (i, ws @ (q, FREE_CHUNK, k) # zs) # B)"
    using b'(2,3) by (rule heap_free.arena)
  then show ?thesis unfolding free_refines_def b'(1) outcome.case using b'(4-9)
    by (intro conjI exI [of _ "A @ (i, ws @ (q, FREE_CHUNK, k) # zs) # B"] exI [of _ None]) simp_all
qed

lemma kinds_huge: "kinds (xs @ (a, HUGE_CHUNK, n) # ys) \<Longrightarrow> xs = [] \<and> ys = []"
  by (auto simp: kinds_def append_eq_Cons_conv)

lemma free_huge_lemma:
  assumes rep: "rep b (A @ (i, [(a, HUGE_CHUNK, n)]) # B)" and p: "mb_metadata p = a"
  shows "free_refines sa a n b (A @ (i, [(a, HUGE_CHUNK, n)]) # B) (buddy_free sa p b)"
proof -
  have ok: "heap_ok (cache b) (A @ (i, [] @ (a, HUGE_CHUNK, n) # []) # B)" using rep by (simp add: rep_def)
  have l: "load (cache b) a = Inr (blk_desc i 0 HUGE_CHUNK n 0)" using heap_load [OF ok] by simp
  have d: "heap_ok (invalidate (cache b) a) (A @ B)" using heap_drop ok by simp
  show ?thesis
  proof (cases "sys_free sa a n i (system b)")
    case (Normal u s)
    then have "buddy_free sa p b = Normal () (b\<lparr>system := s, cache := invalidate (cache b) a\<rparr>)"
      using p l by (simp add: buddy_free_def Let_def mb_fields load_field_blk on_system_def)
    moreover have "heap_free (A @ (i, [(a, HUGE_CHUNK, n)]) # B) (a, n) (Some i) (A @ B)" by (rule heap_free.huge)
    ultimately show ?thesis using rep d Normal unfolding free_refines_def
      by (auto simp: rep_def intro!: exI [of _ "A @ B"] exI [of _ "Some i"])
  next
    case (Fault e s)
    then have "buddy_free sa p b = Fault e (b\<lparr>system := s\<rparr>)"
      using p l by (simp add: buddy_free_def Let_def mb_fields load_field_blk on_system_def)
    then show ?thesis using rep Fault by (auto simp: rep_def free_refines_def)
  qed
qed

lemma buddy_free_lemma:
  assumes rep: "rep b A" and l: "(mb_metadata p, n) \<in> live A"
  shows "free_refines sa (mb_metadata p) n b A (buddy_free sa p b)"
proof -
  obtain B i xs t ys C where A: "A = B @ (i, xs @ (mb_metadata p, t, n) # ys) # C" "t \<noteq> FREE_CHUNK"
    using live_member [OF l] by blast
  have k: "kinds (xs @ (mb_metadata p, t, n) # ys)"
    using rep A(1) heap_ok_chunk(3) unfolding rep_def by blast
  show ?thesis
  proof (cases "t = HUGE_CHUNK")
    case True
    then have "xs = []" "ys = []" using k kinds_huge by blast+
    then show ?thesis using free_huge_lemma [of b B i "mb_metadata p" n C p sa] rep A(1) True by simp
  next
    case False
    then have "t = ARENA_CHUNK" using kinds_arena [OF k False] A(2) by auto
    then show ?thesis using free_arena_lemma [of b B i xs "mb_metadata p" n ys C p sa] rep A(1) by blast
  qed
qed

lemma join_right_live: "join_right n ys = (m, zs) \<Longrightarrow> live [(i, zs)] = live [(i, ys)]"
  by (auto simp: join_right_def split: list.splits if_splits)

lemma join_left_live: "join_left a n xs = (q, m, zs) \<Longrightarrow> live [(i, zs)] = live [(i, xs)]"
  by (cases xs rule: rev_cases) (auto simp: join_left_def split: if_splits)

lemma heap_free_live:
  assumes "heap_free A (a, n) g A'" and "layout (blocks A)"
  shows "live A' = live A - {(a, n)}"
  using assms(1)
proof cases
  case (huge B i C)
  then show ?thesis using live_remove [of B i "[]" a HUGE_CHUNK n "[]" C] assms(2) by simp
next
  case (arena ys m zs xs q k ws B i C)
  have "live A - {(a, n)} = live B \<union> live [(i, xs)] \<union> live [(i, ys)] \<union> live C"
    unfolding arena(1) using assms(2) arena(1) by (intro live_remove) simp_all
  moreover have "live A' = live B \<union> live [(i, ws)] \<union> live [(i, zs)] \<union> live C"
    using arena by (simp add: Un_assoc)
  ultimately show ?thesis using join_right_live [OF arena(4)] join_left_live [OF arena(5)] by simp
qed

end
