(* ===== verification/System_Contract.thy ===== *)
theory System_Contract
  imports System_Allocator
begin

text \<open>
  What the best-fit allocator relies on in a \<open>SystemAllocator\<close>: the locale \<open>system_memory\<close>. The allocators of
  \<open>system_allocator.cc\<close> provide it, each from what the C library or CUDA promises of its own calls
  (\<open>libc_memory\<close>, \<open>gpu_memory\<close>, \<open>pinned_memory\<close>).
\<close>

section \<open>The contracts\<close>

text \<open>A new piece of \<open>n\<close> bytes at \<open>p\<close>: it does not wrap around, and it is apart from the pieces in \<open>B\<close>.\<close>

definition new_piece :: "addr \<Rightarrow> u64 \<Rightarrow> (addr \<times> u64) set \<Rightarrow> bool" where
  "new_piece p n B \<longleftrightarrow> unat p + unat n < 2 ^ 64 \<and>
     (\<forall>(q, m) \<in> B. unat p + unat n \<le> unat q \<or> unat q + unat m \<le> unat p)"

text \<open>
  The contract of a system allocator, in terms of the memory it has handed out, \<open>owned\<close> (address, size
  and index of each piece): an allocation is new memory, apart from all it still owns, and a release
  with the right size and index gives its piece back. Nothing is promised of any other release.
\<close>

locale system_memory =
  fixes sa :: "'sys sys_allocator" and owned :: "'sys \<Rightarrow> (addr \<times> u64 \<times> u64) set"
  assumes alloc_null: "sys_alloc sa 0 n s = Normal (0, j) s' \<Longrightarrow> owned s' = owned s"
    and alloc_new: "sys_alloc sa 0 n s = Normal (p, j) s' \<Longrightarrow> p \<noteq> 0 \<Longrightarrow>
      owned s' = insert (p, n, j) (owned s) \<and> new_piece p n ((\<lambda>(q, m, i). (q, m)) ` owned s)"
    and free_back: "(p, n, j) \<in> owned s \<Longrightarrow> sys_free sa p n j s = Normal u s' \<Longrightarrow>
      owned s' = owned s - {(p, n, j)}"

text \<open>What \<open>posix_memalign\<close> and \<open>free\<close> promise: \<open>blocks\<close> is the memory they have handed out.\<close>

locale libc_memory =
  fixes lc :: "'os libc" and blocks :: "'os \<Rightarrow> (addr \<times> u64) set"
  assumes memalign_new: "posix_memalign lc al n os = ((0, p), os') \<Longrightarrow> p \<noteq> 0 \<Longrightarrow>
      blocks os' = insert (p, n) (blocks os) \<and> new_piece p n (blocks os)"
    and libc_free_back: "(p, n) \<in> blocks os \<Longrightarrow> blocks (libc_free lc p os) = blocks os - {(p, n)}"

text \<open>
  What \<open>cudaMalloc\<close> and \<open>cudaFree\<close>, and \<open>cudaHostAlloc\<close> and \<open>cudaFreeHost\<close>, promise of a call that reports
  \<open>cudaSuccess\<close>, which is zero, and that an allocation that reports an error has taken nothing. Nothing is asked of a
  release that reports an error.
\<close>

locale cuda_memory =
  fixes cu :: "'os cuda" and al :: "u64 \<Rightarrow> 'os \<Rightarrow> (int \<times> addr) \<times> 'os" and fr :: "addr \<Rightarrow> 'os \<Rightarrow> int \<times> 'os"
    and blocks :: "'os \<Rightarrow> (addr \<times> u64) set"
  assumes cuda_new: "al n os = ((cuda_success cu, p), os') \<Longrightarrow>
      p \<noteq> 0 \<and> blocks os' = insert (p, n) (blocks os) \<and> new_piece p n (blocks os)"
    and cuda_fails: "al n os = ((e, p), os') \<Longrightarrow> e \<noteq> cuda_success cu \<Longrightarrow> blocks os' = blocks os"
    and cuda_back: "(p, n) \<in> blocks os \<Longrightarrow> fr p os = (cuda_success cu, os') \<Longrightarrow> blocks os' = blocks os - {(p, n)}"
    and success_zero: "cuda_success cu = 0"

text \<open>
  The allocators have the contract of \<open>system_memory\<close> where their assertions are compiled in, so that an error of a
  release aborts, and as long as the driver is not being unloaded: \<open>Free\<close> ignores that one error, whatever has become of
  the memory.
\<close>

locale gpu_memory = cuda_memory cu "cuda_malloc cu" "cuda_free cu" blocks
  for cu :: "'os cuda" and blocks :: "'os \<Rightarrow> (addr \<times> u64) set" +
  fixes bd :: build
  assumes set_device: "blocks (cuda_set_device cu d os) = blocks os"
    and gpu_checked: "\<not> ndebug bd"
    and gpu_loaded: "fst (cuda_free cu p os) \<noteq> cuda_unloading cu"

locale pinned_memory = cuda_memory cu "cuda_host_alloc cu" "cuda_free_host cu" blocks
  for cu :: "'os cuda" and blocks :: "'os \<Rightarrow> (addr \<times> u64) set" +
  fixes bd :: build
  assumes pinned_checked: "\<not> ndebug bd"
    and pinned_loaded: "fst (cuda_free_host cu p os) \<noteq> cuda_unloading cu"

section \<open>The allocators provide the contract\<close>

text \<open>The pieces in \<open>B\<close>, all under the index \<open>i\<close>.\<close>

definition indexed :: "u64 \<Rightarrow> (addr \<times> u64) set \<Rightarrow> (addr \<times> u64 \<times> u64) set" where
  "indexed i B = (\<lambda>(p, n). (p, n, i)) ` B"

lemma indexed_simps [simp]:
  "indexed i (insert (p, n) B) = insert (p, n, i) (indexed i B)"
  "indexed i (B - {(p, n)}) = indexed i B - {(p, n, i)}"
  "(\<lambda>(q, m, j). (q, m)) ` indexed i B = B"
  "(p, n, j) \<in> indexed i B \<longleftrightarrow> j = i \<and> (p, n) \<in> B"
  by (force simp: indexed_def)+

sublocale libc_memory \<subseteq> cpu: system_memory "cpu_allocator bd lc" "\<lambda>os. indexed 0 (blocks os)"
proof
  fix n j os os'
  assume "sys_alloc (cpu_allocator bd lc) 0 n os = Normal (0, j) os'"
  then show "indexed 0 (blocks os') = indexed 0 (blocks os)"
    by (auto simp: cpu_allocator_def cpu_alloc_def aligned_malloc_def obind_Normal_iff c_assert_Normal
        use_pinned_memory_def split: if_splits)
next
  fix n p j os os'
  assume "sys_alloc (cpu_allocator bd lc) 0 n os = Normal (p, j) os'" "p \<noteq> 0"
  then show "indexed 0 (blocks os') = insert (p, n, j) (indexed 0 (blocks os)) \<and>
      new_piece p n ((\<lambda>(q, m, i). (q, m)) ` indexed 0 (blocks os))"
    using memalign_new
    by (auto simp: cpu_allocator_def cpu_alloc_def aligned_malloc_def obind_Normal_iff c_assert_Normal
        use_pinned_memory_def Let_def split: if_splits prod.splits)
next
  fix p n j os u os'
  assume "(p, n, j) \<in> indexed 0 (blocks os)" "sys_free (cpu_allocator bd lc) p n j os = Normal u os'"
  then show "indexed 0 (blocks os') = indexed 0 (blocks os) - {(p, n, j)}"
    using libc_free_back by (auto simp: cpu_allocator_def cpu_free_def)
qed

text \<open>The copy in \<open>allocator_backends\<close> is the same function on requests and on releases under the index 0.\<close>

sublocale libc_memory \<subseteq> backend: system_memory "backend_allocator bd lc" "\<lambda>os. indexed 0 (blocks os)"
proof
  have a: "sys_alloc (backend_allocator bd lc) = sys_alloc (cpu_allocator bd lc)"
    by (intro ext) (simp add: backend_allocator_def cpu_allocator_def backend_equivalent)
  show "sys_alloc (backend_allocator bd lc) 0 n os = Normal (0, j) os' \<Longrightarrow> indexed 0 (blocks os') = indexed 0 (blocks os)"
    for n j os os' unfolding a by (rule cpu.alloc_null)
  show "sys_alloc (backend_allocator bd lc) 0 n os = Normal (p, j) os' \<Longrightarrow> p \<noteq> 0 \<Longrightarrow>
      indexed 0 (blocks os') = insert (p, n, j) (indexed 0 (blocks os)) \<and>
      new_piece p n ((\<lambda>(q, m, i). (q, m)) ` indexed 0 (blocks os))"
    for n p j os os' unfolding a by (rule cpu.alloc_new)
  show "(p, n, j) \<in> indexed 0 (blocks os) \<Longrightarrow> sys_free (backend_allocator bd lc) p n j os = Normal u os' \<Longrightarrow>
      indexed 0 (blocks os') = indexed 0 (blocks os) - {(p, n, j)}"
    for p n j os u os' using libc_free_back by (auto simp: backend_allocator_def backend_free_def)
qed

context libc_memory
begin

lemma cpu_keeps: "system_memory (cpu_allocator bd lc) (\<lambda>os. indexed 0 (blocks os))"
  by (rule cpu.system_memory_axioms)

lemma backend_keeps: "system_memory (backend_allocator bd lc) (\<lambda>os. indexed 0 (blocks os))"
  by (rule backend.system_memory_axioms)

end

lemma gpu_alloc_Normal:
  assumes "gpu_alloc cu i n g = Normal (p, j) g'"
  shows "p = 0 \<and> gpu_os g' = gpu_os g \<or>
    (\<exists>os e q os'. (os = gpu_os g \<or> os = cuda_set_device cu (gpu_id g) (gpu_os g)) \<and>
      cuda_malloc cu n os = ((e, q), os') \<and> (gpu_os g' = os' \<or> (\<exists>d. gpu_os g' = cuda_set_device cu d os')) \<and>
      (if e = cuda_success cu then p = q \<and> j = 0 else p = 0))"
proof (cases "n = 0")
  case True
  then show ?thesis using assms by (simp add: gpu_alloc_def)
next
  case False
  define os where "os = (if cuda_get_device cu (gpu_os g) \<noteq> gpu_id g then cuda_set_device cu (gpu_id g) (gpu_os g)
    else gpu_os g)"
  obtain e q os' where r: "cuda_malloc cu n os = ((e, q), os')" by (metis prod.exhaust)
  have "(gpu_os g' = os' \<or> (\<exists>d. gpu_os g' = cuda_set_device cu d os')) \<and>
      (if e = cuda_success cu then p = q \<and> j = 0 else p = 0)"
    using assms False r by (auto simp: gpu_alloc_def Let_def os_def split: if_splits)
  moreover have "os = gpu_os g \<or> os = cuda_set_device cu (gpu_id g) (gpu_os g)" by (simp add: os_def)
  ultimately show ?thesis using r by blast
qed

lemma gpu_free_Normal:
  assumes "gpu_free bd cu p n 0 g = Normal u g'" "\<not> ndebug bd"
  shows "\<exists>e. cuda_free cu p (gpu_os g) = (e, gpu_os g') \<and> (e = 0 \<or> e = cuda_unloading cu)"
  using assms by (auto simp: gpu_free_def obind_Normal_iff c_assert_Normal split: if_splits prod.splits)

sublocale gpu_memory \<subseteq> gpu: system_memory "gpu_allocator bd cu" "\<lambda>g. indexed 0 (blocks (gpu_os g))"
proof
  fix n j g g'
  assume "sys_alloc (gpu_allocator bd cu) 0 n g = Normal (0, j) g'"
  then have "gpu_alloc cu 0 n g = Normal (0, j) g'" by (simp add: gpu_allocator_def)
  from gpu_alloc_Normal [OF this] show "indexed 0 (blocks (gpu_os g')) = indexed 0 (blocks (gpu_os g))"
  proof (elim disjE [of "_ \<and> _"] exE conjE)
    fix os e q os'
    assume al: "cuda_malloc cu n os = ((e, q), os')" "if e = cuda_success cu then 0 = q \<and> j = 0 else (0 :: addr) = 0"
    assume g: "os = gpu_os g \<or> os = cuda_set_device cu (gpu_id g) (gpu_os g)"
      "gpu_os g' = os' \<or> (\<exists>d. gpu_os g' = cuda_set_device cu d os')"
    have "e \<noteq> cuda_success cu" using al cuda_new [of n os q os'] by auto
    then have "blocks os' = blocks os" by (rule cuda_fails [OF al(1)])
    then show ?thesis using g set_device by auto
  qed simp
next
  fix n p j g g'
  assume a: "sys_alloc (gpu_allocator bd cu) 0 n g = Normal (p, j) g'" "p \<noteq> 0"
  then have "gpu_alloc cu 0 n g = Normal (p, j) g'" by (simp add: gpu_allocator_def)
  from gpu_alloc_Normal [OF this] a(2)
  obtain os os' where "os = gpu_os g \<or> os = cuda_set_device cu (gpu_id g) (gpu_os g)"
      "cuda_malloc cu n os = ((cuda_success cu, p), os')" "gpu_os g' = os' \<or> (\<exists>d. gpu_os g' = cuda_set_device cu d os')"
      "j = 0"
    by (auto split: if_splits)
  then show "indexed 0 (blocks (gpu_os g')) = insert (p, n, j) (indexed 0 (blocks (gpu_os g))) \<and>
      new_piece p n ((\<lambda>(q, m, i). (q, m)) ` indexed 0 (blocks (gpu_os g)))"
    using cuda_new [of n os p os'] set_device by auto
next
  fix p n j g u g'
  assume a: "(p, n, j) \<in> indexed 0 (blocks (gpu_os g))" "sys_free (gpu_allocator bd cu) p n j g = Normal u g'"
  then have "j = 0" "(p, n) \<in> blocks (gpu_os g)" by simp_all
  moreover from this obtain e where "cuda_free cu p (gpu_os g) = (e, gpu_os g')" "e = 0 \<or> e = cuda_unloading cu"
    using gpu_free_Normal [of bd cu p n g u g'] a(2) gpu_checked by (auto simp: gpu_allocator_def)
  ultimately show "indexed 0 (blocks (gpu_os g')) = indexed 0 (blocks (gpu_os g)) - {(p, n, j)}"
    using cuda_back gpu_loaded [of p "gpu_os g"] success_zero by auto
qed

context gpu_memory
begin

lemma gpu_keeps: "system_memory (gpu_allocator bd cu) (\<lambda>g. indexed 0 (blocks (gpu_os g)))"
  by (rule gpu.system_memory_axioms)

end

sublocale pinned_memory \<subseteq> pinned: system_memory "pinned_allocator bd cu" "\<lambda>s. indexed 1 (blocks (pinned_os s))"
proof
  fix n j s s'
  assume "sys_alloc (pinned_allocator bd cu) 0 n s = Normal (0, j) s'"
  then show "indexed 1 (blocks (pinned_os s')) = indexed 1 (blocks (pinned_os s))"
    using cuda_fails cuda_new
    by (auto simp: pinned_allocator_def pinned_alloc_def Let_def split: if_splits prod.splits)
next
  fix n p j s s'
  assume "sys_alloc (pinned_allocator bd cu) 0 n s = Normal (p, j) s'" "p \<noteq> 0"
  then show "indexed 1 (blocks (pinned_os s')) = insert (p, n, j) (indexed 1 (blocks (pinned_os s))) \<and>
      new_piece p n ((\<lambda>(q, m, i). (q, m)) ` indexed 1 (blocks (pinned_os s)))"
    using cuda_new
    by (auto simp: pinned_allocator_def pinned_alloc_def Let_def split: if_splits prod.splits)
next
  fix p n j s u s'
  assume "(p, n, j) \<in> indexed 1 (blocks (pinned_os s))" "sys_free (pinned_allocator bd cu) p n j s = Normal u s'"
  then show "indexed 1 (blocks (pinned_os s')) = indexed 1 (blocks (pinned_os s)) - {(p, n, j)}"
    using cuda_back pinned_checked pinned_loaded [of p "pinned_os s"] success_zero
    by (auto simp: pinned_allocator_def pinned_free_def c_assert_Normal Let_def split: if_splits prod.splits)
qed

context pinned_memory
begin

lemma pinned_keeps: "system_memory (pinned_allocator bd cu) (\<lambda>s. indexed 1 (blocks (pinned_os s)))"
  by (rule pinned.system_memory_axioms)

end


section \<open>A C library and a CUDA driver\<close>

text \<open>
  Examples of both that keep a list of what they have handed out, and refuse when the next address is not
  aligned or not past all of it. They meet their contracts in every state.
\<close>

type_synonym os_list = "addr \<times> (addr \<times> u64) list"

definition list_alloc :: "u64 \<Rightarrow> u64 \<Rightarrow> os_list \<Rightarrow> (int \<times> addr) \<times> os_list" where
  "list_alloc al n = (\<lambda>(next, xs).
     if next \<noteq> 0 \<and> next mod al = 0 \<and> unat next + unat n < 2 ^ 64 \<and>
        (\<forall>(q, m) \<in> set xs. q \<noteq> next \<and> unat q + unat m \<le> unat next)
     then ((0, next), (next + n, (next, n) # xs)) else ((12, 0), (next, xs)))"

definition list_free :: "addr \<Rightarrow> os_list \<Rightarrow> os_list" where
  "list_free p = (\<lambda>(next, xs). (next, filter (\<lambda>x. fst x \<noteq> p) xs))"

definition list_blocks :: "os_list \<Rightarrow> (addr \<times> u64) set" where
  "list_blocks s = {(p, n). map_of (snd s) p = Some n}"

definition list_libc :: "os_list libc" where
  "list_libc = \<lparr>posix_memalign = list_alloc, libc_free = list_free, mlock = \<lambda>p n s. s, munlock = \<lambda>p n s. s\<rparr>"

definition list_cuda :: "(os_list \<times> int) cuda" where
  "list_cuda = \<lparr>cuda_get_device = snd, cuda_set_device = \<lambda>d (s, _). (s, d),
     cuda_malloc = \<lambda>n (s, d). (case list_alloc 256 n s of (r, s) \<Rightarrow> (r, (s, d))),
     cuda_host_alloc = \<lambda>n (s, d). (case list_alloc 256 n s of (r, s) \<Rightarrow> (r, (s, d))),
     cuda_free = \<lambda>p (s, d). (0, (list_free p s, d)), cuda_free_host = \<lambda>p (s, d). (0, (list_free p s, d)),
     cuda_success = 0, cuda_unloading = 4, pinned_max_alloc_size = 1048576\<rparr>"

lemma list_alloc_new:
  assumes "list_alloc al n s = ((0, p), s')"
  shows "p \<noteq> 0 \<and> list_blocks s' = insert (p, n) (list_blocks s) \<and> new_piece p n (list_blocks s)"
proof -
  obtain nx xs where s: "s = (nx, xs)" by (cases s)
  then have p: "p = nx" "s' = (nx + n, (nx, n) # xs)" "nx \<noteq> 0" "unat nx + unat n < 2 ^ 64"
      "\<forall>(q, m) \<in> set xs. q \<noteq> nx \<and> unat q + unat m \<le> unat nx"
    using assms by (auto simp: list_alloc_def split: if_splits)
  have "map_of xs nx = None" using p(5) by (auto simp: map_of_eq_None_iff)
  then show ?thesis using p s by (auto simp: list_blocks_def new_piece_def dest: map_of_SomeD split: if_splits)
qed

lemma list_alloc_fails: "list_alloc al n s = ((e, p), s') \<Longrightarrow> e \<noteq> 0 \<Longrightarrow> list_blocks s' = list_blocks s"
  by (auto simp: list_alloc_def split: prod.splits if_splits)

lemma map_of_filter_fst: "map_of (filter (\<lambda>x. fst x \<noteq> p) xs) = (map_of xs)(p := None)"
  by (induction xs) auto

lemma list_free_back: "(p, n) \<in> list_blocks s \<Longrightarrow> list_blocks (list_free p s) = list_blocks s - {(p, n)}"
  by (cases s) (auto simp: list_blocks_def list_free_def map_of_filter_fst split: if_splits)

lemma list_cuda_malloc:
  assumes "cuda_malloc list_cuda n os = ((e, p), os')"
  shows "list_alloc 256 n (fst os) = ((e, p), fst os')"
  using assms by (cases os) (auto simp: list_cuda_def split: prod.splits)

lemma list_cuda_free:
  assumes "cuda_free list_cuda p os = (e, os')"
  shows "fst os' = list_free p (fst os)"
  using assms by (cases os) (auto simp: list_cuda_def)

lemma list_cuda_consts: "cuda_success list_cuda = 0" "cuda_unloading list_cuda = 4"
  "cuda_host_alloc list_cuda = cuda_malloc list_cuda" "cuda_free_host list_cuda = cuda_free list_cuda"
  "fst (cuda_free list_cuda p os) = 0" "fst (cuda_set_device list_cuda d os) = fst os"
  by (simp_all add: list_cuda_def case_prod_beta)

lemma list_cuda_memory: "cuda_memory list_cuda (cuda_malloc list_cuda) (cuda_free list_cuda) (\<lambda>s. list_blocks (fst s))"
proof
  show "p \<noteq> 0 \<and> list_blocks (fst os') = insert (p, n) (list_blocks (fst os)) \<and> new_piece p n (list_blocks (fst os))"
    if "cuda_malloc list_cuda n os = ((cuda_success list_cuda, p), os')" for n os p os'
    using list_alloc_new list_cuda_malloc [OF that] unfolding list_cuda_consts by blast
  show "list_blocks (fst os') = list_blocks (fst os)"
    if "cuda_malloc list_cuda n os = ((e, p), os')" "e \<noteq> cuda_success list_cuda" for n os e p os'
    using list_alloc_fails list_cuda_malloc [OF that(1)] that(2) unfolding list_cuda_consts by blast
  show "list_blocks (fst os') = list_blocks (fst os) - {(p, n)}"
    if "(p, n) \<in> list_blocks (fst os)" "cuda_free list_cuda p os = (cuda_success list_cuda, os')" for p n os os'
    using list_free_back [OF that(1)] list_cuda_free [OF that(2)] by simp
qed (rule list_cuda_consts)

interpretation list_libc: libc_memory list_libc list_blocks
  by unfold_locales (auto simp: list_libc_def list_free_back dest!: list_alloc_new)

interpretation list_gpu: gpu_memory list_cuda "\<lambda>s. list_blocks (fst s)" ex_build
  by (intro gpu_memory.intro gpu_memory_axioms.intro list_cuda_memory) (simp_all add: list_cuda_consts ex_build_def)

interpretation list_pinned: pinned_memory list_cuda "\<lambda>s. list_blocks (fst s)" ex_build
  by (intro pinned_memory.intro pinned_memory_axioms.intro)
    (simp_all add: list_cuda_consts list_cuda_memory ex_build_def)

section \<open>The allocators keep the contract\<close>

text \<open>
  C36: With a C library whose \<open>posix_memalign\<close> and \<open>free\<close> do what they promise, both \<open>CPUAllocator\<close>s, that of
  \<open>bestfit_allocator\<close> and its copy in \<open>allocator_backends\<close>, are system allocators as \<open>BuddyAllocator\<close> needs them, in
  every build: what they hand out is new memory under index 0, apart from all they still own, and a release gives back
  that piece and no other.
\<close>

theorem cpu_allocator_contract:
  assumes "libc_memory lc blocks"
  shows "system_memory (cpu_allocator bd lc) (\<lambda>os. indexed 0 (blocks os)) \<and>
    system_memory (backend_allocator bd lc) (\<lambda>os. indexed 0 (blocks os))"
  using libc_memory.cpu_keeps [OF assms] libc_memory.backend_keeps [OF assms] by blast

theorem cpu_allocator_contract_witness:
  "system_memory (cpu_allocator ex_build list_libc) (\<lambda>os. indexed 0 (list_blocks os)) \<and>
   system_memory (backend_allocator ex_build list_libc) (\<lambda>os. indexed 0 (list_blocks os))"
  by (rule cpu_allocator_contract [OF list_libc.libc_memory_axioms])

text \<open>
  C37: With a CUDA driver that does what it promises of successful calls and is not being unloaded, and in a build with
  assertions, \<open>GPUAllocator\<close> and \<open>CUDAPinnedAllocator\<close> are system allocators as \<open>BuddyAllocator\<close> needs them, with the index
  0 for device memory and 1 for pinned memory.
\<close>

theorem cuda_allocators_contract:
  assumes "cuda_memory cu (cuda_malloc cu) (cuda_free cu) blocks" and "\<And>d os. blocks (cuda_set_device cu d os) = blocks os"
    and "cuda_memory cv (cuda_host_alloc cv) (cuda_free_host cv) pinned"
    and "\<And>p os. fst (cuda_free cu p os) \<noteq> cuda_unloading cu" and "\<And>p os. fst (cuda_free_host cv p os) \<noteq> cuda_unloading cv"
    and "\<not> ndebug bd"
  shows "system_memory (gpu_allocator bd cu) (\<lambda>g. indexed 0 (blocks (gpu_os g))) \<and>
    system_memory (pinned_allocator bd cv) (\<lambda>s. indexed 1 (pinned (pinned_os s)))"
proof -
  have "gpu_memory cu blocks bd"
    by (intro gpu_memory.intro gpu_memory_axioms.intro assms(1,2,4,6))
  moreover have "pinned_memory cv pinned bd"
    by (intro pinned_memory.intro pinned_memory_axioms.intro assms(3,5,6))
  ultimately show ?thesis using gpu_memory.gpu_keeps pinned_memory.pinned_keeps by blast
qed

theorem cuda_allocators_contract_witness:
  "system_memory (gpu_allocator ex_build list_cuda) (\<lambda>g. indexed 0 (list_blocks (fst (gpu_os g)))) \<and>
   system_memory (pinned_allocator ex_build list_cuda) (\<lambda>s. indexed 1 (list_blocks (fst (pinned_os s))))"
  by (rule cuda_allocators_contract [OF list_gpu.cuda_memory_axioms list_gpu.set_device list_pinned.cuda_memory_axioms
        list_gpu.gpu_loaded list_pinned.pinned_loaded list_gpu.gpu_checked])

end
