(* ===== verification/Buddy_History.thy ===== *)
theory Buddy_History
  imports Buddy_Refinement System_Contract
begin

text \<open>
  Histories of the best-fit allocator: the states that calls of
  \<open>Alloc\<close> and \<open>Free\<close> and writes of the clients lead to, and the invariant of these states. The chunks of the
  heap are exactly the pieces of memory owned from the system, and the blocks in use are exactly
  those of the pointers the clients hold.
\<close>

lemma layout_apart:
  assumes "layout L" "x \<in> set L" "y \<in> set L" "x \<noteq> y"
  shows "apart_blk x y"
proof -
  obtain xs ys where L: "L = xs @ x # ys" using assms(2) by (meson split_list)
  then have "y \<in> set xs \<union> set ys" using assms(3,4) by auto
  moreover have "\<forall>z \<in> set xs. apart_blk z x" "\<forall>z \<in> set ys. apart_blk x z"
    using assms(1) L by (simp_all add: layout_append layout_Cons)
  ultimately show ?thesis using apart_blk_sym [of x y] by blast
qed

lemma live_block: "(a, n) \<in> live A \<Longrightarrow> \<exists>t. (a, t, n) \<in> set (blocks A)"
  unfolding live_def by (force simp del: set_concat)

lemma wf_in_layout: "layout L \<Longrightarrow> x \<in> set L \<Longrightarrow> wf_blk x"
  by (simp add: layout_def)

section \<open>The memory of a chunk\<close>

fun bytes :: "blk list \<Rightarrow> u64" where
  "bytes [] = 0"
| "bytes ((a, t, n) # bs) = n + bytes bs"

text \<open>The piece of memory a chunk is: its address, its size and its index.\<close>

fun span :: "u64 \<times> blk list \<Rightarrow> addr \<times> u64 \<times> u64" where
  "span (i, bs) = (first_addr bs 0, bytes bs, i)"

lemma bytes_append [simp]: "bytes (xs @ ys) = bytes xs + bytes ys"
  by (induction xs rule: bytes.induct) (simp_all add: add.assoc)

lemma tiles_bounds:
  assumes "tiles a bs" "\<forall>x \<in> set bs. wf_blk x" "bs \<noteq> []"
  shows "unat a + unat (bytes bs) < 18446744073709551616 \<and>
    (\<forall>(x, t, n) \<in> set bs. unat a \<le> unat x \<and> unat x + unat n \<le> unat a + unat (bytes bs))"
  using assms
proof (induction a bs rule: tiles.induct)
  case (2 a b t n bs)
  show ?case
  proof (cases "bs = []")
    case True
    then show ?thesis using 2 by simp
  next
    case False
    have an: "unat (a + n) = unat a + unat n" using 2(2,3) by (intro unat_add_noov) simp
    have IH: "unat (a + n) + unat (bytes bs) < 18446744073709551616"
      "\<forall>(x, t, m) \<in> set bs. unat (a + n) \<le> unat x \<and> unat x + unat m \<le> unat (a + n) + unat (bytes bs)"
      using 2 False by simp_all
    then have "unat (n + bytes bs) = unat n + unat (bytes bs)" using an by (intro unat_add_noov) simp
    then show ?thesis using IH 2(2) an by fastforce
  qed
qed simp

lemma span_bounds:
  assumes ok: "heap_ok c A" and x: "x \<in> set A" and y: "(a, t, n) \<in> set (snd x)" and s: "span x = (q, m, i)"
  shows "unat q \<le> unat a" "unat a + unat n \<le> unat q + unat m"
proof -
  obtain bs where bs: "x = (i, bs)" using s by (cases x) simp
  have "\<forall>z \<in> set bs. wf_blk z" using ok x bs unfolding heap_ok_def layout_def by force
  moreover have "tiles q bs" using ok x bs s by (fastforce simp: heap_ok_def chunk_ok_def)
  ultimately have "\<forall>(x, t, n) \<in> set bs. unat q \<le> unat x \<and> unat x + unat n \<le> unat q + unat (bytes bs)"
    using tiles_bounds y bs by fastforce
  then show "unat q \<le> unat a" "unat a + unat n \<le> unat q + unat m" using y bs s by auto
qed

definition uniform :: "u64 \<Rightarrow> heap \<Rightarrow> bool" where
  "uniform mx A \<longleftrightarrow> (\<forall>(i, bs) \<in> set A. (\<exists>a n. bs = [(a, HUGE_CHUNK, n)]) \<or> bytes bs = mx)"

lemma uniform_simps [simp]:
  "uniform mx []"
  "uniform mx (A @ B) \<longleftrightarrow> uniform mx A \<and> uniform mx B"
  "uniform mx ((i, bs) # A) \<longleftrightarrow> ((\<exists>a n. bs = [(a, HUGE_CHUNK, n)]) \<or> bytes bs = mx) \<and> uniform mx A"
  by (simp_all add: uniform_def ball_Un)

lemma bytes_cut [simp]: "bytes (cut a sz n) = n"
  by (simp add: cut_def)

lemma first_addr_cut [simp]: "first_addr (cut a sz n) r = a"
  by (simp add: cut_def)

lemma span_cut [simp]:
  "span (i, xs @ cut a sz n @ ys) = span (i, xs @ (a, t, n) # ys)"
  "span (j, cut a sz n) = (a, n, j)"
  by simp_all

lemma heap_alloc_spans:
  assumes "heap_alloc mx gr sz A g A' a"
  shows "span ` set A' = (case g of None \<Rightarrow> span ` set A | Some r \<Rightarrow> insert r (span ` set A))"
  using assms by cases simp_all

lemma heap_alloc_uniform:
  assumes "heap_alloc mx gr sz A g A' a" and "uniform k A" and "g \<noteq> None \<Longrightarrow> sz \<le> mx \<Longrightarrow> k = gr"
  shows "uniform k A'"
  using assms(1)
proof cases
  case (reuse n B i xs ys C)
  have "\<nexists>a n. xs @ cut a sz n @ ys = [(a, HUGE_CHUNK, n)]" "xs @ (a, FREE_CHUNK, n) # ys \<noteq> [(b, HUGE_CHUNK, m)]" for b m
    by (auto simp: append_eq_Cons_conv cut_def split: if_splits)
  then show ?thesis using assms(2) reuse(1,3) by auto
next
  case (grow j)
  then show ?thesis using assms(2,3) by simp
next
  case (huge j)
  then show ?thesis using assms(2) by simp
qed

lemma join_right_bytes: "join_right n ys = (m, zs) \<Longrightarrow> m + bytes zs = n + bytes ys"
  by (auto simp: join_right_def add.assoc split: list.splits if_splits)

lemma join_left_bytes:
  assumes "join_left a m xs = (q, k, ws)"
  shows "bytes ws + k = bytes xs + m \<and> first_addr (ws @ (q, t, k) # zs) 0 = first_addr (xs @ (a, u, n) # ys) 0"
proof (cases xs rule: rev_cases)
  case (snoc vs x)
  obtain p v l where x: "x = (p, v, l)" by (cases x)
  show ?thesis using assms snoc x
    by (cases vs) (auto simp: join_left_def add.assoc split: if_splits)
qed (use assms in \<open>simp add: join_left_def\<close>)

lemma span_join:
  assumes "join_right n ys = (m, zs)" "join_left a m xs = (q, k, ws)"
  shows "span (i, ws @ (q, FREE_CHUNK, k) # zs) = span (i, xs @ (a, ARENA_CHUNK, n) # ys)"
proof -
  have "bytes ws + k = bytes xs + m" using join_left_bytes [OF assms(2)] by blast
  then have "bytes ws + (k + bytes zs) = bytes xs + (m + bytes zs)" by (simp only: add.assoc [symmetric])
  then have "bytes ws + (k + bytes zs) = bytes xs + (n + bytes ys)" by (simp only: join_right_bytes [OF assms(1)])
  then show ?thesis using join_left_bytes [OF assms(2)] by simp
qed

lemma span_fresh:
  assumes ok: "heap_ok c (B @ (i, [(a, t, n)]) # C)"
  shows "(a, m, j) \<notin> span ` (set B \<union> set C)"
proof
  assume "(a, m, j) \<in> span ` (set B \<union> set C)"
  then obtain k bs where bs: "(k, bs) \<in> set B \<union> set C" "first_addr bs 0 = a" by fastforce
  have "chunk_ok c (k, bs)" using ok bs(1) by (auto simp: heap_ok_def)
  then have "bs \<noteq> []" by (auto simp: chunk_ok_def kinds_def)
  then have "a \<in> addrs bs" using first_addr_in bs(2) by blast
  then have "a \<in> addrs (blocks B) \<union> addrs (blocks C)" using bs(1) by force
  then show False using addr_unique [of B i "[]" a t n "[]" C] ok by (simp add: heap_ok_def)
qed

lemma heap_free_spans:
  assumes "heap_free A (a, n) g A'" and "heap_ok c A"
  shows "case g of None \<Rightarrow> span ` set A' = span ` set A
    | Some i \<Rightarrow> (a, n, i) \<in> span ` set A \<and> span ` set A' = span ` set A - {(a, n, i)}"
  using assms(1)
proof cases
  case (huge B j C)
  have "(a, n, j) \<notin> span ` (set B \<union> set C)" using span_fresh assms(2) huge(1) by blast
  then have "insert (a, n, j) (span ` (set B \<union> set C)) - {(a, n, j)} = span ` (set B \<union> set C)" by simp
  then show ?thesis using huge by simp
next
  case (arena ys m zs xs q k ws B j C)
  then show ?thesis using span_join [OF arena(4,5), of j] by (simp del: span.simps)
qed

lemma heap_free_uniform:
  assumes "heap_free A (a, n) g A'" and "uniform mx A"
  shows "uniform mx A'"
  using assms(1)
proof cases
  case (arena ys m zs xs q k ws B i C)
  have "bytes (ws @ (q, FREE_CHUNK, k) # zs) = bytes (xs @ (a, ARENA_CHUNK, n) # ys)"
    using span_join [OF arena(4,5), of i] by simp
  then show ?thesis using assms(2) arena by (auto simp: append_eq_Cons_conv)
qed (use assms(2) in simp)

text \<open>
  The bytes of the arenas, all but the huge blocks. The two counters of the allocator add up to them; since blocks do not
  overlap the sum does not wrap around, and it is zero only when there is no arena.
\<close>

fun arena_size :: "blk \<Rightarrow> u64" where
  "arena_size (a, t, n) = (if t = HUGE_CHUNK then 0 else n)"

definition arena :: "heap \<Rightarrow> u64" where
  "arena A = (\<Sum>x \<leftarrow> blocks A. arena_size x)"

lemma arena_simps [simp]:
  "arena [] = 0" "arena (A @ B) = arena A + arena B"
  "arena ((i, bs) # A) = (\<Sum>x \<leftarrow> bs. arena_size x) + arena A"
  by (simp_all add: arena_def)

lemma arena_cut: "(\<Sum>x \<leftarrow> cut a sz n. arena_size x) = n"
  by (simp add: cut_def)

lemma heap_alloc_arena:
  assumes "heap_alloc mx gr sz A g A' a"
  shows "arena A' = arena A + (if mx < sz then 0 else case g of None \<Rightarrow> 0 | Some (q, m, j) \<Rightarrow> m)"
  using assms
proof cases
  case (reuse n B i xs ys C)
  then show ?thesis using arena_cut [of a sz n] leD [OF reuse(4)] by simp
next
  case (grow j)
  then show ?thesis using arena_cut [of a sz gr] leD [OF grow(3)] by simp
next
  case (huge j)
  then show ?thesis by simp
qed

lemma counters_arena:
  assumes "heap_alloc (max_chunk_size b) gr sz A g A' a" and "alloc_counted sz g b b'"
    and "total_used b + total_free b = arena A"
  shows "total_used b' + total_free b' = arena A'"
  using heap_alloc_arena [OF assms(1)] assms(2,3)
  by (cases g) (auto simp: alloc_counted_def algebra_simps split: prod.splits if_splits)

lemma join_right_arena: "join_right n ys = (m, zs) \<Longrightarrow> m + (\<Sum>x \<leftarrow> zs. arena_size x) = n + (\<Sum>x \<leftarrow> ys. arena_size x)"
  by (auto simp: join_right_def add.assoc split: list.splits if_splits)

lemma join_left_arena: "join_left a m xs = (q, k, ws) \<Longrightarrow> (\<Sum>x \<leftarrow> ws. arena_size x) + k = (\<Sum>x \<leftarrow> xs. arena_size x) + m"
  by (cases xs rule: rev_cases) (auto simp: join_left_def add.assoc split: if_splits)

lemma heap_free_arena:
  assumes "heap_free A (a, n) g A'"
  shows "arena A' = arena A"
  using assms
proof cases
  case (arena ys m zs xs q k ws B i C)
  let ?S = "\<lambda>xs. \<Sum>x \<leftarrow> xs. arena_size x"
  have "?S ws + (k + ?S zs) = (?S ws + k) + ?S zs" by (simp only: add.assoc)
  also have "\<dots> = ?S xs + (m + ?S zs)" by (simp only: join_left_arena [OF arena(5)] add.assoc)
  also have "\<dots> = ?S xs + (n + ?S ys)" by (simp only: join_right_arena [OF arena(4)])
  finally show ?thesis using arena(1,3) by simp
qed simp

definition cells :: "blk \<Rightarrow> nat set" where
  "cells x = {unat (fst x) ..< unat (fst x) + unat (snd (snd x))}"

lemma apart_cells: "apart_blk x y \<Longrightarrow> cells x \<inter> cells y = {}"
  by (cases x; cases y) (auto simp: cells_def)

lemma wf_cells: "wf_blk x \<Longrightarrow> cells x \<subseteq> {1 ..< 2 ^ 64} \<and> card (cells x) = unat (snd (snd x))"
proof (cases x)
  case (fields a t n)
  assume "wf_blk x"
  then have "0 < unat a" "unat a + unat n < 2 ^ 64" using fields by (simp_all add: unat_gt_0)
  have "k \<in> {1 ..< 2 ^ 64}" if "k \<in> cells x" for k
  proof -
    have "unat a \<le> k" "k < unat a + unat n" using that fields by (simp_all add: cells_def)
    then have "1 \<le> k" "k < 2 ^ 64" using \<open>0 < unat a\<close> \<open>unat a + unat n < 2 ^ 64\<close> by linarith+
    then show ?thesis by (simp only: atLeastLessThan_iff)
  qed
  then have "cells x \<subseteq> {1 ..< 2 ^ 64}" by blast
  then show ?thesis using fields by (simp add: cells_def)
qed

lemma layout_cells:
  "layout L \<Longrightarrow> (\<Sum>x \<leftarrow> L. unat (snd (snd x))) = card (\<Union> (cells ` set L)) \<and> \<Union> (cells ` set L) \<subseteq> {1 ..< 2 ^ 64}"
proof (induction L)
  case (Cons x L)
  then have x: "wf_blk x" "\<forall>y \<in> set L. apart_blk x y" and L: "layout L" by (simp_all add: layout_Cons)
  note IH = Cons.IH [OF L]
  have "cells x \<inter> \<Union> (cells ` set L) = {}" using x(2) apart_cells by blast
  moreover have "finite (\<Union> (cells ` set L))" "finite (cells x)" by (simp_all add: cells_def)
  ultimately have "card (cells x \<union> \<Union> (cells ` set L)) = card (cells x) + card (\<Union> (cells ` set L))"
    by (simp add: card_Un_disjoint)
  then show ?case using IH wf_cells [OF x(1)] by simp
qed simp

lemma word_sum_list: "(\<Sum>x \<leftarrow> L. f x) = (of_nat (\<Sum>x \<leftarrow> L. unat (f x)) :: u64)"
  by (induction L) simp_all

lemma unat_arena:
  assumes "layout (blocks A)"
  shows "unat (arena A) = (\<Sum>x \<leftarrow> blocks A. unat (arena_size x))"
proof -
  have "card (\<Union> (cells ` set (blocks A))) \<le> card {1 ..< (2 :: nat) ^ 64}"
    using layout_cells [OF assms] by (intro card_mono) auto
  then have "(\<Sum>x \<leftarrow> blocks A. unat (snd (snd x))) < 2 ^ 64" using layout_cells [OF assms] by simp
  moreover have "(\<Sum>x \<leftarrow> blocks A. unat (arena_size x)) \<le> (\<Sum>x \<leftarrow> blocks A. unat (snd (snd x)))"
    by (intro sum_list_mono) (auto split: prod.splits)
  ultimately show ?thesis
    unfolding arena_def word_sum_list [of arena_size] by (simp add: unat_of_nat)
qed

lemma no_arena:
  assumes ok: "heap_ok c A" and z: "arena A = 0"
  shows "uniform mx A"
proof -
  have l: "layout (blocks A)" using ok by (simp add: heap_ok_def)
  have h: "t = HUGE_CHUNK" if x: "(a, t, n) \<in> set (blocks A)" for a t n
  proof (rule ccontr)
    assume "t \<noteq> HUGE_CHUNK"
    moreover have "64 \<le> unat n" using wf_in_layout [OF l x] by simp
    moreover have "unat (arena_size (a, t, n)) \<in> set (map (\<lambda>x. unat (arena_size x)) (blocks A))"
      unfolding set_map using x by (rule imageI)
    then have "unat (arena_size (a, t, n)) \<le> (\<Sum>x \<leftarrow> blocks A. unat (arena_size x))" by (rule member_le_sum_list) simp
    moreover have "(\<Sum>x \<leftarrow> blocks A. unat (arena_size x)) = unat (arena A)" by (rule unat_arena [OF l, symmetric])
    moreover have "unat (arena A) = 0" by (simp only: z unat_0)
    ultimately show False by (simp only: arena_size.simps if_False)
  qed
  show ?thesis unfolding uniform_def
  proof (intro ballI, clarify)
    fix i bs assume m: "(i, bs) \<in> set A" "bytes bs \<noteq> mx"
    then have k: "kinds bs" using ok by (fastforce simp: heap_ok_def chunk_ok_def)
    then obtain x ys where bs: "bs = x # ys" by (cases bs) (auto simp: kinds_def)
    obtain a t n where x: "x = (a, t, n)" by (cases x)
    have "t = HUGE_CHUNK" using h [of a t n] m(1) bs x by force
    then show "\<exists>a n. bs = [(a, HUGE_CHUNK, n)]" using kinds_huge [of "[]" a n ys] k bs x by simp
  qed
qed

section \<open>Histories\<close>

definition client_write :: "addr \<Rightarrow> u64 \<Rightarrow> 'sys buddy \<Rightarrow> 'sys buddy" where
  "client_write x v b = b\<lparr>cache := (cache b)\<lparr>cpu_mem := (cpu_mem (cache b))(x := v)\<rparr>\<rparr>"

text \<open>
  The states after any history of calls, with the pointers in use and the sizes they were asked for; each \<open>Alloc\<close> may
  be that of a build without CUDA, or with CUDA and any answer of \<open>GpuMaxChunkSize()\<close>. The clients write eight-byte cells anywhere in the memory they were given.
\<close>

inductive history ::
  "'sys sys_allocator \<Rightarrow> ('sys \<Rightarrow> (addr \<times> u64 \<times> u64) set) \<Rightarrow> 'sys buddy \<Rightarrow> (addr \<times> u64) set \<Rightarrow> bool"
  for sa owned where
  start: "owned s = {} \<Longrightarrow> 0 < unat mi \<Longrightarrow> history sa owned (buddy_new sa memory s mi ma) {}"
| alloc: "history sa owned b L \<Longrightarrow> unat u + 64 + unat (min_chunk_size b) \<le> 18446744073709551616 \<Longrightarrow>
    buddy_alloc sa gm u b = Normal p b' \<Longrightarrow> history sa owned b' (if p = 0 then L else insert (p, u) L)"
| free: "history sa owned b L \<Longrightarrow> (p, u) \<in> L \<Longrightarrow> buddy_free sa p b = Normal () b' \<Longrightarrow>
    history sa owned b' (L - {(p, u)})"
| store: "history sa owned b L \<Longrightarrow> (p, u) \<in> L \<Longrightarrow> unat p \<le> unat x \<Longrightarrow> unat x + 8 \<le> unat p + unat u \<Longrightarrow>
    history sa owned (client_write x v b) L"

definition holds :: "heap \<Rightarrow> (addr \<times> u64) set \<Rightarrow> bool" where
  "holds A L \<longleftrightarrow> (\<forall>(p, u) \<in> L. \<exists>n. (mb_metadata p, n) \<in> live A \<and> unat u + 64 \<le> unat n) \<and>
     (\<forall>(p, u) \<in> L. \<forall>(q, v) \<in> L. p = q \<longrightarrow> u = v) \<and>
     (\<forall>a \<in> fst ` live A. \<exists>(p, u) \<in> L. mb_metadata p = a)"

definition hinv :: "('sys \<Rightarrow> (addr \<times> u64 \<times> u64) set) \<Rightarrow> 'sys buddy \<Rightarrow> (addr \<times> u64) set \<Rightarrow> heap \<Rightarrow> bool" where
  "hinv owned b L A \<longleftrightarrow> rep b A \<and> owned (system b) = span ` set A \<and> uniform (max_chunk_size b) A \<and>
     holds A L \<and> 0 < unat (min_chunk_size b) \<and> total_used b + total_free b = arena A"

lemma live_wf:
  assumes "rep b A" "(a, n) \<in> live A"
  shows "a \<noteq> 0" "64 \<le> unat n" "unat a + unat n < 18446744073709551616"
proof -
  obtain t where "(a, t, n) \<in> set (blocks A)" using assms(2) live_block by blast
  then have "wf_blk (a, t, n)" using wf_in_layout [OF rep_layout [OF assms(1)]] by blast
  then show "a \<noteq> 0" "64 \<le> unat n" "unat a + unat n < 18446744073709551616" by simp_all
qed

lemma unat_payload:
  assumes "rep b A" "(mb_metadata p, n) \<in> live A"
  shows "unat p = unat (mb_metadata p) + 64"
proof -
  have "unat (mb_metadata p + 64) = unat (mb_metadata p) + 64"
    using live_wf [OF assms] by (subst unat_add_noov) simp_all
  then show ?thesis by (simp add: mb_metadata_def sizeof_Desc_def)
qed

lemma read_desc_write:
  assumes "unat x < unat a \<or> unat a + 64 \<le> unat x" "unat a + 64 < 18446744073709551616"
  shows "read_desc (m(x := v)) a = read_desc m a"
proof -
  have "(m(x := v)) (a + of_nat k) = m (a + of_nat k)" if "k < 64" for k
  proof -
    have "unat (of_nat k :: addr) = k" using that by (simp add: unat_of_nat)
    then have "unat (a + of_nat k) = unat a + k" using assms(2) that by (subst unat_add_noov) simp_all
    then have "a + of_nat k \<noteq> x" using assms(1) that by auto
    then show ?thesis by simp
  qed
  from this [of 0] this [of 8] this [of 16] this [of 24] this [of 32] this [of 40] this [of 48] this [of 56]
  show ?thesis by (simp add: read_desc_def)
qed

lemma rep_client_write:
  assumes rep: "rep b A" and l: "(mb_metadata p, n) \<in> live A"
    and x: "unat p \<le> unat x" "unat x < unat (mb_metadata p) + unat n"
  shows "rep (client_write x v b) A"
proof -
  let ?c = "(cache b)\<lparr>cpu_mem := (cpu_mem (cache b))(x := v)\<rparr>"
  obtain t where t: "(mb_metadata p, t, n) \<in> set (blocks A)" using l live_block by blast
  note lay = rep_layout [OF rep]
  have "load ?c a = load (cache b) a" if a: "a \<in> addrs (blocks A)" for a
  proof -
    obtain u k where u: "(a, u, k) \<in> set (blocks A)" using a by fastforce
    have w: "64 \<le> unat k" "unat a + unat k < 18446744073709551616" using wf_in_layout [OF lay u] by simp_all
    have "unat x < unat a \<or> unat a + 64 \<le> unat x"
    proof (cases "a = mb_metadata p")
      case True
      then show ?thesis using x(1) unat_payload [OF rep l] by simp
    next
      case False
      then have "apart_blk (a, u, k) (mb_metadata p, t, n)" using layout_apart [OF lay u t] by simp
      then show ?thesis using w x unat_payload [OF rep l] by auto
    qed
    then have "read_desc ((cpu_mem (cache b))(x := v)) a = read_desc (cpu_mem (cache b)) a"
      using w by (intro read_desc_write) simp_all
    then show ?thesis by (simp add: load_def)
  qed
  then have "chain (load ?c) i 0 bs 0 = chain (load (cache b)) i 0 bs 0" if "(i, bs) \<in> set A" for i bs
    using that by (intro chain_cong) force
  then show ?thesis using rep by (fastforce simp: rep_def heap_ok_def chunk_ok_def client_write_def)
qed

lemma holdsI:
  assumes "\<And>p u. (p, u) \<in> L \<Longrightarrow> \<exists>n. (mb_metadata p, n) \<in> live A \<and> unat u + 64 \<le> unat n"
    and "\<And>p u v. (p, u) \<in> L \<Longrightarrow> (p, v) \<in> L \<Longrightarrow> u = v"
    and "\<And>a. a \<in> fst ` live A \<Longrightarrow> \<exists>(p, u) \<in> L. mb_metadata p = a"
  shows "holds A L"
  using assms unfolding holds_def by blast

lemma holdsD:
  assumes "holds A L"
  shows "(p, u) \<in> L \<Longrightarrow> \<exists>n. (mb_metadata p, n) \<in> live A \<and> unat u + 64 \<le> unat n"
    and "(p, u) \<in> L \<Longrightarrow> (p, v) \<in> L \<Longrightarrow> u = v"
    and "a \<in> fst ` live A \<Longrightarrow> \<exists>(p, u) \<in> L. mb_metadata p = a"
proof -
  note h = assms [unfolded holds_def]
  show "(p, u) \<in> L \<Longrightarrow> \<exists>n. (mb_metadata p, n) \<in> live A \<and> unat u + 64 \<le> unat n"
    using h [THEN conjunct1] by blast
  show "(p, u) \<in> L \<Longrightarrow> (p, v) \<in> L \<Longrightarrow> u = v" using h [THEN conjunct2, THEN conjunct1] by blast
  show "a \<in> fst ` live A \<Longrightarrow> \<exists>(p, u) \<in> L. mb_metadata p = a" using h [THEN conjunct2, THEN conjunct2] by blast
qed

lemma holds_insert:
  assumes L: "holds A L" and l: "live A' = insert (mb_metadata p, n) (live A)" "mb_metadata p \<notin> fst ` live A"
    and u: "unat u + 64 \<le> unat n"
  shows "holds A' (insert (p, u) L)"
proof (rule holdsI)
  have new: "q \<noteq> p" if "(q, v) \<in> L" for q v
    using holdsD(1) [OF L that] l(2) by (metis fst_conv image_eqI)
  show "\<exists>k. (mb_metadata q, k) \<in> live A' \<and> unat v + 64 \<le> unat k" if "(q, v) \<in> insert (p, u) L" for q v
    using that holdsD(1) [OF L, of q v] l(1) u by auto
  show "v = w" if "(q, v) \<in> insert (p, u) L" "(q, w) \<in> insert (p, u) L" for q v w
    using that new holdsD(2) [OF L, of q v w] by auto
  show "\<exists>(q, v) \<in> insert (p, u) L. mb_metadata q = a" if "a \<in> fst ` live A'" for a
    using that holdsD(3) [OF L, of a] l(1) by auto
qed

text \<open>The size a request is rounded to has room for its bytes and the descriptor.\<close>

lemma align_request:
  assumes "0 < unat m" "unat u + 64 + unat m \<le> 18446744073709551616"
  shows "\<exists>sz. align (u + sizeof_Desc) m = Inr sz \<and> unat u + 64 \<le> unat sz"
proof -
  have "unat (u + sizeof_Desc) = unat u + 64"
    using assms by (subst unat_add_noov) (simp_all add: sizeof_Desc_def)
  then show ?thesis using unat_align [OF assms(1), of "u + sizeof_Desc"] assms(2) by auto
qed

lemma heap_alloc_got: "heap_alloc mx gr sz A (Some (q, m, j)) A' a \<Longrightarrow> q = a"
  by (erule heap_alloc.cases) simp_all

lemma holds_remove:
  assumes L: "holds A L" and p: "(p, u) \<in> L" and l: "live A' = live A - {(mb_metadata p, n)}"
    and uniq: "\<And>m. (mb_metadata p, m) \<in> live A \<Longrightarrow> m = n"
  shows "holds A' (L - {(p, u)})"
proof (rule holdsI)
  show "\<exists>k. (mb_metadata q, k) \<in> live A' \<and> unat v + 64 \<le> unat k" if q: "(q, v) \<in> L - {(p, u)}" for q v
  proof -
    have "q \<noteq> p" using holdsD(2) [OF L p, of v] q by auto
    then have "mb_metadata q \<noteq> mb_metadata p" by (simp add: mb_metadata_def)
    then show ?thesis using holdsD(1) [OF L, of q v] q l by auto
  qed
  show "v = w" if "(q, v) \<in> L - {(p, u)}" "(q, w) \<in> L - {(p, u)}" for q v w
    using that holdsD(2) [OF L, of q v w] by blast
  show "\<exists>(q, v) \<in> L - {(p, u)}. mb_metadata q = a" if "a \<in> fst ` live A'" for a
  proof -
    have a: "a \<in> fst ` live A" "a \<noteq> mb_metadata p" using that l uniq by fastforce+
    obtain q v where q: "(q, v) \<in> L" "mb_metadata q = a" using holdsD(3) [OF L a(1)] by blast
    then have "(q, v) \<in> L - {(p, u)}" using a(2) by blast
    then show ?thesis using q(2) by blast
  qed
qed

lemma live_unique:
  assumes "layout (blocks A)" "(a, n) \<in> live A" "(a, m) \<in> live A"
  shows "m = n"
proof -
  obtain t u where t: "(a, t, n) \<in> set (blocks A)" "(a, u, m) \<in> set (blocks A)"
    using live_block assms(2,3) by blast
  have "64 \<le> unat n" "64 \<le> unat m" using wf_in_layout [OF assms(1)] t by fastforce+
  then show ?thesis using layout_apart [OF assms(1) t] by fastforce
qed

section \<open>The destructor\<close>

text \<open>A chunk without a block in use is one free block.\<close>

lemma idle_chunk:
  assumes "kinds bs" "coalesced bs" "live [(i, bs)] = {}"
  shows "\<exists>a n. bs = [(a, FREE_CHUNK, n)]"
proof -
  have fr: "\<forall>x \<in> set bs. free_blk x" using assms(3) by (induction bs rule: bytes.induct) (auto split: if_splits)
  have "bs \<noteq> []" using assms(1) by (simp add: kinds_def)
  then obtain x cs where x: "bs = x # cs" by (cases bs) auto
  have "cs = []" using assms(2) fr x by (cases cs) auto
  then show ?thesis using x fr by (cases x) auto
qed

lemma live_chunk: "x \<in> set A \<Longrightarrow> live [x] \<subseteq> live A"
  unfolding live_def set_map set_filter by (rule image_mono) auto

lemma idle_heap:
  assumes rep: "rep b A" and un: "uniform mx A" and idle: "live A = {}" and x: "x \<in> set A"
  shows "\<exists>i a. x = (i, [(a, FREE_CHUNK, mx)])"
proof -
  obtain i bs where bs: "x = (i, bs)" by (cases x)
  have "kinds bs" "coalesced bs" using rep x bs by (fastforce simp: rep_def heap_ok_def chunk_ok_def)+
  moreover have "live [(i, bs)] = {}" using live_chunk [OF x] idle bs by simp
  ultimately obtain a n where a: "bs = [(a, FREE_CHUNK, n)]" using idle_chunk by blast
  then have "n = mx" using un x bs by (auto simp: uniform_def)
  then show ?thesis using a bs by blast
qed

text \<open>A call of the system allocator that faults is a release of memory it owns.\<close>

definition release_faults :: "'sys sys_allocator \<Rightarrow> ('sys \<Rightarrow> (addr \<times> u64 \<times> u64) set) \<Rightarrow> bool" where
  "release_faults sa owned \<longleftrightarrow> (\<exists>p n i s e s'. (p, n, i) \<in> owned s \<and> sys_free sa p n i s = Fault e s')"

section \<open>The invariant of histories\<close>

lemma hinv_payload:
  assumes "hinv owned b L A" "(p, u) \<in> L"
  shows "\<exists>t n. (mb_metadata p, t, n) \<in> set (blocks A) \<and> unat u + 64 \<le> unat n \<and>
    unat p = unat (mb_metadata p) + 64 \<and> unat (mb_metadata p) + unat n < 18446744073709551616"
proof -
  have rep: "rep b A" and L: "holds A L" using assms(1) by (simp_all add: hinv_def)
  obtain n where n: "(mb_metadata p, n) \<in> live A" "unat u + 64 \<le> unat n" using holdsD(1) [OF L assms(2)] by blast
  obtain t where "(mb_metadata p, t, n) \<in> set (blocks A)" using n(1) live_block by blast
  then show ?thesis using n unat_payload [OF rep n(1)] live_wf(3) [OF rep n(1)] by blast
qed

text \<open>From here on the system allocator keeps its contract.\<close>

context system_memory
begin

lemma granted_owned:
  assumes "granted sa g s s'" "\<And>q m j. g = Some (q, m, j) \<Longrightarrow> q \<noteq> 0"
  shows "owned s' = (case g of None \<Rightarrow> owned s | Some r \<Rightarrow> insert r (owned s))"
  using assms alloc_new by (auto simp: granted_def split: option.splits)

lemma fresh:
  assumes ok: "heap_ok m A" and o: "owned s = span ` set A"
  shows "sys_fresh sa s A"
proof -
  have "fresh_for p n A" if al: "sys_alloc sa 0 n s = Normal (p, j) s'" "p \<noteq> 0" "64 \<le> unat n" for n p j s'
  proof -
    have k: "new_piece p n ((\<lambda>(q, m, i). (q, m)) ` owned s)" using alloc_new [OF al(1,2)] by blast
    have "\<forall>y \<in> set (blocks A). apart_blk (p, FREE_CHUNK, n) y"
    proof
      fix y assume "y \<in> set (blocks A)"
      moreover obtain a t l where y: "y = (a, t, l)" by (cases y)
      ultimately obtain x where x: "x \<in> set A" "(a, t, l) \<in> set (snd x)" by auto
      obtain q z i where s: "span x = (q, z, i)" by (cases "span x")
      then have "(q, z, i) \<in> owned s" using x(1) o by force
      then have "unat p + unat n \<le> unat q \<or> unat q + unat z \<le> unat p" using k by (force simp: new_piece_def)
      then show "apart_blk (p, FREE_CHUNK, n) y" using span_bounds [OF ok x s] y by auto
    qed
    then show ?thesis using al k by (simp add: fresh_for_def new_piece_def)
  qed
  then show ?thesis by (auto simp: sys_fresh_def split: outcome.splits prod.splits)
qed

lemma hinv_alloc:
  assumes h: "hinv owned b L A"
    and u: "unat u + 64 + unat (min_chunk_size b) \<le> 18446744073709551616"
    and run: "buddy_alloc sa gm u b = Normal p b'"
  shows "\<exists>A'. hinv owned b' (if p = 0 then L else insert (p, u) L) A'"
proof -
  have rep: "rep b A" and o: "owned (system b) = span ` set A" and un: "uniform (max_chunk_size b) A"
    and L: "holds A L" and m: "0 < unat (min_chunk_size b)" and c: "total_used b + total_free b = arena A"
    using h by (simp_all add: hinv_def)
  obtain sz where sz: "align (u + sizeof_Desc) (min_chunk_size b) = Inr sz" "unat u + 64 \<le> unat sz"
    using align_request [OF m u] by blast
  have ok: "heap_ok (cache b) A" using rep by (simp add: rep_def)
  from buddy_alloc_lemma [OF rep sz(1) _ fresh [OF ok o], of gm]
  have R: "alloc_refines sa gm sz b A (Normal p b')" using sz(2) run by simp
  then have mm: "0 < unat (min_chunk_size b')" using m by (simp add: alloc_refines_def)
  have un': "uniform (refill_size sa gm b) A"
    using un no_arena [OF ok] refill_size_changes [of sa gm b] c by (cases "refill_size sa gm b = max_chunk_size b") auto
  show ?thesis
  proof (cases "p = 0")
    case True
    obtain n j where "sys_alloc sa 0 n (system b) = Normal (0, j) (system b')" "rep b' A"
      "total_used b' = total_used b" "total_free b' = total_free b"
      "max_chunk_size b' = max_chunk_size b \<or> max_chunk_size b' = refill_size sa gm b"
      using R True by (auto simp: alloc_refines_def)
    then show ?thesis using True L mm o un un' alloc_null c by (auto simp: hinv_def)
  next
    case False
    obtain A' g where A': "heap_alloc (max_chunk_size b) (refill_size sa gm b) sz A g A' (mb_metadata p)" "rep b' A'"
        "granted sa g (system b) (system b')" "alloc_counted sz g b b'"
        "max_chunk_size b' = (if sz \<le> max_chunk_size b \<and> g \<noteq> None then refill_size sa gm b else max_chunk_size b)"
      using R False by (auto simp: alloc_refines_def)
    have "uniform (max_chunk_size b') A" using A'(5) un un' by simp
    from heap_alloc_uniform [OF A'(1) this] have un2: "uniform (max_chunk_size b') A'" using A'(5) by simp
    have count: "total_used b' + total_free b' = arena A'" by (rule counters_arena [OF A'(1,4) c])
    obtain n where n: "live A' = insert (mb_metadata p, n) (live A)" "mb_metadata p \<notin> fst ` live A" "sz \<le> n"
      using heap_alloc_live [OF A'(1)] rep_layout rep A'(2) by blast
    have "mb_metadata p \<noteq> 0" using live_wf(1) [OF A'(2)] n(1) by blast
    then have "q \<noteq> 0" if "g = Some (q, k, j)" for q k j
      using heap_alloc_got A'(1) that by metis
    then have "owned (system b') = span ` set A'"
      using granted_owned [OF A'(3)] heap_alloc_spans [OF A'(1)] unfolding o by simp
    moreover have "holds A' (insert (p, u) L)"
      using holds_insert [OF L n(1,2)] sz(2) n(3) by (simp add: word_le_nat_alt)
    ultimately show ?thesis using A'(2) False mm un2 count by (auto simp: hinv_def)
  qed
qed

lemma hinv_free:
  assumes h: "hinv owned b L A" and p: "(p, u) \<in> L"
    and run: "buddy_free sa p b = Normal x b'"
  shows "\<exists>A'. hinv owned b' (L - {(p, u)}) A'"
proof -
  have rep: "rep b A" and o: "owned (system b) = span ` set A" and un: "uniform (max_chunk_size b) A"
    and L: "holds A L" and m: "0 < unat (min_chunk_size b)" and c: "total_used b + total_free b = arena A"
    using h by (simp_all add: hinv_def)
  obtain n where n: "(mb_metadata p, n) \<in> live A" using holdsD(1) [OF L p] by blast
  have "free_refines sa (mb_metadata p) n b A (Normal x b')" using buddy_free_lemma [OF rep n, of sa] run by simp
  then obtain A' g where A': "heap_free A (mb_metadata p, n) g A'" "rep b' A'"
      "case g of None \<Rightarrow> system b' = system b \<and> total_used b' = total_used b - n \<and> total_free b' = total_free b + n
        | Some i \<Rightarrow> sys_free sa (mb_metadata p) n i (system b) = Normal () (system b') \<and>
            total_used b' = total_used b \<and> total_free b' = total_free b"
      "min_chunk_size b' = min_chunk_size b" "max_chunk_size b' = max_chunk_size b"
    unfolding free_refines_def outcome.case by blast
  have "heap_ok (cache b) A" using rep by (simp add: rep_def)
  note sp = heap_free_spans [OF A'(1) this]
  have "owned (system b') = span ` set A'"
  proof (cases g)
    case None
    then show ?thesis using A'(3) sp o by simp
  next
    case (Some i)
    then show ?thesis using A'(3) sp o free_back [of "mb_metadata p" n i "system b"] by simp
  qed
  moreover have "holds A' (L - {(p, u)})"
    using holds_remove [OF L p heap_free_live [OF A'(1) rep_layout [OF rep]]]
      live_unique [OF rep_layout [OF rep] n] by blast
  moreover have "uniform (max_chunk_size b') A'" using heap_free_uniform [OF A'(1) un] A'(5) by simp
  moreover have "total_used b' + total_free b' = arena A'"
    using heap_free_arena [OF A'(1)] A'(3) c by (cases g) simp_all
  ultimately show ?thesis using A'(2,4) m unfolding hinv_def by auto
qed

lemma history_hinv: "history sa owned b L \<Longrightarrow> \<exists>A. hinv owned b L A"
proof (induction rule: history.induct)
  case (start s mi memory ma)
  then show ?case
    by (intro exI [of _ "[]"]) (simp add: hinv_def rep_def heap_ok_def buddy_new_def holds_def)
next
  case (alloc b L u p b')
  then show ?case using hinv_alloc by blast
next
  case (free b L p u b')
  then show ?case using hinv_free by blast
next
  case (store b L p u x v)
  then obtain A where A: "hinv owned b L A" by blast
  then have rep: "rep b A" and L: "holds A L" by (simp_all add: hinv_def)
  obtain n where n: "(mb_metadata p, n) \<in> live A" "unat u + 64 \<le> unat n" using holdsD(1) [OF L store(2)] by blast
  have "unat x < unat (mb_metadata p) + unat n" using store(4) n(2) unat_payload [OF rep n(1)] by linarith
  then have "rep (client_write x v b) A" using rep_client_write [OF rep n(1) store(3)] by blast
  then show ?case using A by (auto simp: hinv_def client_write_def)
qed

lemma destroy_pool_lemma:
  assumes mx: "max_chunk_size b = mx"
    and ok: "heap_ok (cache b) A" and idle: "\<forall>x \<in> set A. \<exists>i a. x = (i, [(a, FREE_CHUNK, mx)])"
    and p: "distinct p" "set p = frees A" and o: "owned (system b) = span ` set A"
  shows "case destroy_pool sa p b of
      Normal u b' \<Rightarrow> owned (system b') = {} | Fault e b' \<Rightarrow> release_faults sa owned"
  using mx ok idle p o
proof (induction p arbitrary: A b)
  case Nil
  have "A = []"
  proof (cases A)
    case (Cons x A')
    then show ?thesis using Nil(3,5) by auto
  qed
  then show ?case using Nil(6) by simp
next
  case (Cons y p)
  obtain B i xs ys C where A0: "A = B @ (i, xs @ (isa_addr y, FREE_CHUNK, isa_size y) # ys) # C" "i = isa_index y"
    using Cons.prems(5) frees_member [of y A] by auto
  have "\<exists>j a. (i, xs @ (isa_addr y, FREE_CHUNK, isa_size y) # ys) = (j, [(a, FREE_CHUNK, mx)])"
    using Cons.prems(3) A0(1) by auto
  then have A: "A = B @ (i, [] @ (isa_addr y, FREE_CHUNK, mx) # []) # C" and "y = Isa i mx (isa_addr y)"
    using A0 by (auto simp: append_eq_Cons_conv intro: isa.expand)
  then obtain a where y: "y = Isa i mx a" and A: "A = B @ (i, [] @ (a, FREE_CHUNK, mx) # []) # C" by simp
  note l = heap_load [OF Cons.prems(2) [unfolded A]]
  have own: "(a, mx, i) \<in> owned (system b)" using Cons.prems(6) A by simp
  show ?case
  proof (cases "sys_free sa a mx i (system b)")
    case (Fault e s)
    then have "destroy_pool sa (y # p) b = Fault e (b\<lparr>system := s\<rparr>)"
      using l Cons.prems(1) y by (simp add: release_block_def mb_index_def load_field_blk on_system_def)
    moreover have "release_faults sa owned" using own Fault unfolding release_faults_def by blast
    ultimately show ?thesis by simp
  next
    case (Normal u s)
    let ?b = "b\<lparr>system := s, cache := invalidate (cache b) a, pool := p\<rparr>"
    have run: "destroy_pool sa (y # p) b = destroy_pool sa p ?b"
      using Normal l Cons.prems(1) y by (simp add: release_block_def mb_index_def load_field_blk on_system_def)
    have "layout (blocks A)" using Cons.prems(2) by (simp add: heap_ok_def)
    then have "y \<notin> frees (B @ C)" using frees_fresh(1,2) [of B i "[]" a FREE_CHUNK mx "[]" C] A y by simp
    moreover have "insert y (set p) = insert y (frees (B @ C))" using Cons.prems(5) A y by simp
    ultimately have "set p = frees (B @ C)" using Cons.prems(4) by (simp add: insert_ident del: frees_simps)
    moreover have "heap_ok (cache ?b) (B @ C)" using heap_drop Cons.prems(2) A by simp
    moreover have "(a, mx, i) \<notin> span ` (set B \<union> set C)" using span_fresh Cons.prems(2) A by simp
    then have "owned (system ?b) = span ` set (B @ C)"
      using free_back [OF own Normal] Cons.prems(6) A by (auto simp: image_Un)
    ultimately show ?thesis unfolding run using Cons.IH [of ?b "B @ C"] Cons.prems(1,3,4) A by auto
  qed
qed

lemma histories_safe:
  assumes "history sa owned b L" and "(p, u) \<in> L"
  shows "p \<noteq> 0 \<and> unat p + unat u < 2 ^ 64 \<and>
    (\<exists>(r, m, i) \<in> owned (system b). unat r + 64 \<le> unat p \<and> unat p + unat u \<le> unat r + unat m) \<and>
    (\<forall>(q, v) \<in> L. q \<noteq> p \<longrightarrow> unat p + unat u \<le> unat q \<or> unat q + unat v \<le> unat p)"
proof -
  obtain A where h: "hinv owned b L A" using history_hinv [OF assms(1)] by blast
  then have rep: "rep b A" and o: "owned (system b) = span ` set A" by (simp_all add: hinv_def)
  obtain t n where n: "(mb_metadata p, t, n) \<in> set (blocks A)" "unat u + 64 \<le> unat n"
      "unat p = unat (mb_metadata p) + 64" "unat (mb_metadata p) + unat n < 18446744073709551616"
    using hinv_payload [OF h assms(2)] by blast
  have "\<exists>(r, m, i) \<in> owned (system b). unat r + 64 \<le> unat p \<and> unat p + unat u \<le> unat r + unat m"
  proof -
    obtain x where x: "x \<in> set A" "(mb_metadata p, t, n) \<in> set (snd x)" using n(1) by auto
    obtain r m i where s: "span x = (r, m, i)" by (cases "span x")
    then have "(r, m, i) \<in> owned (system b)" using o x(1) by force
    moreover have "heap_ok (cache b) A" using rep by (simp add: rep_def)
    note span_bounds [OF this x s]
    ultimately show ?thesis using n(2,3) by (intro bexI [of _ "(r, m, i)"]) auto
  qed
  moreover have "unat p + unat u \<le> unat q \<or> unat q + unat v \<le> unat p" if q: "(q, v) \<in> L" "q \<noteq> p" for q v
  proof -
    obtain s k where k: "(mb_metadata q, s, k) \<in> set (blocks A)" "unat v + 64 \<le> unat k"
        "unat q = unat (mb_metadata q) + 64"
      using hinv_payload [OF h q(1)] by blast
    have "(mb_metadata p, t, n) \<noteq> (mb_metadata q, s, k)" using q(2) by (simp add: mb_metadata_def)
    with layout_apart [OF rep_layout [OF rep] n(1) k(1)]
    have "apart_blk (mb_metadata p, t, n) (mb_metadata q, s, k)" by blast
    then show ?thesis using n(2,3) k(2,3) by auto
  qed
  moreover have "p \<noteq> 0" using n(3) by auto
  moreover have "unat p + unat u < 2 ^ 64" using n(2-4) by simp
  ultimately show ?thesis by blast
qed

lemma histories_no_abort:
  assumes "history sa owned b L"
  shows "(\<forall>gm u e b'. unat u + 64 + unat (min_chunk_size b) \<le> 18446744073709551616 \<longrightarrow>
      buddy_alloc sa gm u b = Fault e b' \<longrightarrow> (\<exists>n s. sys_alloc sa 0 n (system b) = Fault e s) \<or>
        e = Assertion_Failed \<and> (\<exists>sz. align (u + sizeof_Desc) (min_chunk_size b) = Inr sz \<and>
          refill_size sa gm b < sz \<and> sz \<le> max_chunk_size b)) \<and>
    (\<forall>(p, u) \<in> L. \<forall>e b'. buddy_free sa p b = Fault e b' \<longrightarrow>
      (\<exists>n i s. sys_free sa (mb_metadata p) n i (system b) = Fault e s))"
proof -
  obtain A where h: "hinv owned b L A" using history_hinv [OF assms] by blast
  then have rep: "rep b A" and o: "owned (system b) = span ` set A" and L: "holds A L"
    and m: "0 < unat (min_chunk_size b)" by (simp_all add: hinv_def)
  have ok: "heap_ok (cache b) A" using rep by (simp add: rep_def)
  have "(\<exists>n s. sys_alloc sa 0 n (system b) = Fault e s) \<or>
      e = Assertion_Failed \<and> (\<exists>sz. align (u + sizeof_Desc) (min_chunk_size b) = Inr sz \<and>
        refill_size sa gm b < sz \<and> sz \<le> max_chunk_size b)"
    if u: "unat u + 64 + unat (min_chunk_size b) \<le> 18446744073709551616"
      and run: "buddy_alloc sa gm u b = Fault e b'" for gm u e b'
  proof -
    obtain sz where sz: "align (u + sizeof_Desc) (min_chunk_size b) = Inr sz" "unat u + 64 \<le> unat sz"
      using align_request [OF m u] by blast
    have "alloc_refines sa gm sz b A (Fault e b')"
      using buddy_alloc_lemma [OF rep sz(1) _ fresh [OF ok o], of gm] sz(2) run by simp
    then show ?thesis using sz(1) by (auto simp: alloc_refines_def)
  qed
  moreover have "\<exists>n i s. sys_free sa (mb_metadata p) n i (system b) = Fault e s"
    if p: "(p, u) \<in> L" and run: "buddy_free sa p b = Fault e b'" for p u e b'
  proof -
    obtain n where "(mb_metadata p, n) \<in> live A" using holdsD(1) [OF L p] by blast
    from buddy_free_lemma [OF rep this, of sa] run show ?thesis by (auto simp: free_refines_def)
  qed
  ultimately show ?thesis by blast
qed

lemma destructor_idle:
  assumes "history sa owned b {}"
  shows "case buddy_destroy sa b of
      Normal u b' \<Rightarrow> owned (system b') = {} | Fault e b' \<Rightarrow> release_faults sa owned"
proof -
  obtain A where h: "hinv owned b {} A" using history_hinv [OF assms] by blast
  then have rep: "rep b A" and un: "uniform (max_chunk_size b) A" by (simp_all add: hinv_def)
  have "live A = {}" using h holdsD(3) [of A "{}"] by (force simp: hinv_def)
  then have "\<forall>x \<in> set A. \<exists>i a. x = (i, [(a, FREE_CHUNK, max_chunk_size b)])" using idle_heap [OF rep un] by blast
  then show ?thesis
    using destroy_pool_lemma [OF refl, of b A "pool b"] rep h
    by (simp add: buddy_destroy_def rep_def hinv_def pool_ok_def)
qed

end

end
