(* ===== verification/Buddy_Properties.thy ===== *)
theory Buddy_Properties
  imports Buddy_History
begin

text \<open>
  The properties of the best-fit allocator: what each call of \<open>Alloc\<close> and \<open>Free\<close> does to the heap, what
  holds after any history of calls and of writes by the clients to their own memory, and what the
  destructor gives back.
\<close>

section \<open>Properties of the allocator\<close>

text \<open>The allocator of \<open>buddy_allocator_test.cc\<close>: CPU memory, a C library that never reuses memory.\<close>

definition ex_sa :: "u64 sys_allocator" where "ex_sa = cpu_allocator ex_build ex_libc"

definition ex_buddy :: "u64 buddy" where
  "ex_buddy = (buddy_new ex_sa (\<lambda>_. 0) 1048576 256 65536)
     \<lparr>cache := mb_init \<lparr>uses_gpu = False, cache_map = Map.empty, cpu_mem = \<lambda>_. 0\<rparr> ARENA_CHUNK 0 1024 0 0 4096,
      total_used := 1024\<rparr>"

definition ex_heap :: heap where "ex_heap = [(0, [(4096, ARENA_CHUNK, 1024)])]"

lemma ex_rep: "rep ex_buddy ex_heap"
  by (simp add: rep_def heap_ok_def chunk_ok_def ex_buddy_def ex_heap_def buddy_new_def mb_init_def
      md.load_save kinds_def layout_Cons)

lemma ex_live: "live ex_heap = {(4096, 1024)}"
  by (simp add: ex_heap_def)

lemma ex_fresh: "sys_fresh ex_sa (system ex_buddy) ex_heap"
  by (simp add: sys_fresh_def ex_sa_def cpu_allocator_def cpu_alloc_def aligned_malloc_def ex_build_def ex_libc_def
      c_assert_def use_pinned_memory_def ex_buddy_def buddy_new_def ex_heap_def fresh_for_def)

text \<open>
  \<open>align\<close> rounds up to the least multiple of the alignment, when that is less than \<open>2^64\<close>.
\<close>

lemma align_least_multiple:
  assumes "0 < unat m" and "unat x + unat m \<le> 18446744073709551616"
  shows "\<exists>sz. align x m = Inr sz \<and> unat m dvd unat sz \<and> unat x \<le> unat sz \<and> unat sz < unat x + unat m"
  using unat_align [OF assms] .

text \<open>
  C9: \<open>Alloc\<close> implements its specification, in a build without CUDA and with it. From a state that represents a heap, with
  a system allocator that hands out memory apart from the heap, an outcome of \<open>Alloc\<close> with the rounded size \<open>sz\<close> (at
  least a descriptor) is null with the heap as it was, or the change \<open>heap_alloc\<close>: the best-fitting free block, cut to \<open>sz\<close>
  when more than a descriptor remains, a fresh chunk of \<open>refill_size\<close> bytes when no free block is large enough, or a huge
  block of its own; the counters move by \<open>sz\<close>. It faults when the system allocator does, and otherwise only when
  \<open>GpuMaxChunkSize()\<close> has replaced the size of the new chunk by one that is too small for \<open>sz\<close>.
\<close>

theorem buddy_alloc_refines:
  assumes "rep b A"
    and "align (u + sizeof_Desc) (min_chunk_size b) = Inr sz" and "64 \<le> unat sz" and "sys_fresh sa (system b) A"
  shows "case buddy_alloc sa gm u b of
      Fault e b' \<Rightarrow> rep b' A \<and> (\<exists>n s. sys_alloc sa 0 n (system b) = Fault e s) \<or>
        e = Assertion_Failed \<and> refill_size sa gm b < sz \<and> sz \<le> max_chunk_size b \<and> (\<forall>x \<in> frees A. isa_size x < sz) \<and>
        (\<exists>q j s. sys_alloc sa 0 (refill_size sa gm b) (system b) = Normal (q, j) s \<and> q \<noteq> 0)
    | Normal p b' \<Rightarrow>
        if p = 0 then rep b' A \<and> (\<exists>n j. sys_alloc sa 0 n (system b) = Normal (0, j) (system b')) \<and>
          max_chunk_size b' \<in> {max_chunk_size b, refill_size sa gm b}
        else \<exists>A' g. heap_alloc (max_chunk_size b) (refill_size sa gm b) sz A g A' (mb_metadata p) \<and> rep b' A' \<and>
          granted sa g (system b) (system b') \<and> alloc_counted sz g b b' \<and>
          max_chunk_size b' = (if sz \<le> max_chunk_size b \<and> g \<noteq> None then refill_size sa gm b else max_chunk_size b)"
proof (cases "buddy_alloc sa gm u b")
  case (Normal p b')
  note R = buddy_alloc_lemma [OF assms, of gm, unfolded Normal alloc_refines_def outcome.case]
  show ?thesis unfolding Normal outcome.case
    using R by (cases "p = 0") (simp_all only: if_True if_False simp_thms)
next
  case (Fault e b')
  show ?thesis unfolding Fault outcome.case
    using buddy_alloc_lemma [OF assms, of gm, unfolded Fault alloc_refines_def outcome.case] .
qed

theorem buddy_alloc_refines_witness:
  "case buddy_alloc ex_sa None 1000 ex_buddy of
      Fault e b' \<Rightarrow> rep b' ex_heap
    | Normal p b' \<Rightarrow> if p = 0 then rep b' ex_heap else
        (\<exists>A' g. heap_alloc 65536 65536 1280 ex_heap g A' (mb_metadata p) \<and> rep b' A')"
proof -
  have "align (1000 + sizeof_Desc) (min_chunk_size ex_buddy) = Inr 1280"
    by (simp add: ex_buddy_def buddy_new_def align_def sizeof_Desc_def)
  moreover have "64 \<le> unat (1280 :: u64)" by simp
  moreover have "max_chunk_size ex_buddy = 65536" by (simp add: ex_buddy_def buddy_new_def)
  ultimately show ?thesis using buddy_alloc_refines [OF ex_rep _ _ ex_fresh, of 1000 1280 None]
    by (auto split: outcome.splits if_splits)
qed

text \<open>
  C10: \<open>Free\<close> of a block in use implements its specification: a huge block goes back to the system and leaves the
  heap; a block of an arena is joined with its free neighbours, the counters move by its size, and no
  two neighbouring blocks of the new heap are free. No assertion fails unless the system allocator's
  own does.
\<close>

theorem buddy_free_refines:
  assumes "rep b A" and "(mb_metadata p, n) \<in> live A"
  shows "case buddy_free sa p b of
      Fault e b' \<Rightarrow> rep b' A \<and> (\<exists>i s. sys_free sa (mb_metadata p) n i (system b) = Fault e s)
    | Normal u b' \<Rightarrow> \<exists>A' g. heap_free A (mb_metadata p, n) g A' \<and> rep b' A' \<and> (\<forall>x \<in> set A'. coalesced (snd x)) \<and>
        (case g of
           None \<Rightarrow> system b' = system b \<and> total_used b' = total_used b - n \<and> total_free b' = total_free b + n
         | Some i \<Rightarrow> sys_free sa (mb_metadata p) n i (system b) = Normal () (system b') \<and>
             total_used b' = total_used b \<and> total_free b' = total_free b)"
proof (cases "buddy_free sa p b")
  case (Normal u b')
  then show ?thesis
    using buddy_free_lemma [OF assms, of sa] unfolding free_refines_def by (auto simp: rep_def)
next
  case (Fault e b')
  then show ?thesis using buddy_free_lemma [OF assms, of sa] by (simp add: free_refines_def)
qed

theorem buddy_free_refines_witness:
  "case buddy_free ex_sa 4160 ex_buddy of
      Fault e b' \<Rightarrow> False
    | Normal u b' \<Rightarrow> (\<exists>A' g. heap_free ex_heap (4096, 1024) g A' \<and> rep b' A')"
proof -
  have "(mb_metadata 4160, 1024) \<in> live ex_heap" by (simp add: ex_live mb_metadata_def sizeof_Desc_def)
  from buddy_free_refines [OF ex_rep this, of ex_sa] show ?thesis
    by (auto simp: ex_sa_def cpu_allocator_def cpu_free_def mb_metadata_def sizeof_Desc_def split: outcome.splits)
qed

text \<open>
  C27: Freeing a block that is free already is caught: \<open>Free\<close> aborts in \<open>mark_as_free\<close> before it has changed anything.
\<close>

theorem buddy_double_free_aborts:
  assumes "rep b A" and "Isa i n (mb_metadata p) \<in> set (pool b)"
  shows "buddy_free sa p b = Fault Assertion_Failed b"
proof -
  have "Isa i n (mb_metadata p) \<in> frees A" using assms by (simp add: rep_def)
  then obtain B xs ys C where A: "A = B @ (i, xs @ (mb_metadata p, FREE_CHUNK, n) # ys) # C"
    by (auto simp: frees_member)
  have "heap_ok (cache b) A" using assms(1) by (simp add: rep_def)
  from heap_load [OF this [unfolded A]] show ?thesis
    by (simp add: buddy_free_def Let_def mb_fields load_field_blk mb_mark_as_free_def on_cache_def)
qed

definition ex_freed :: "u64 buddy" where
  "ex_freed = ex_buddy
     \<lparr>cache := mb_init (cache ex_buddy) FREE_CHUNK 0 1024 0 0 4096, pool := [Isa 0 1024 4096]\<rparr>"

theorem buddy_double_free_aborts_witness:
  "buddy_free ex_sa 4160 ex_freed = Fault Assertion_Failed ex_freed"
proof -
  have "rep ex_freed [(0, [(4096, FREE_CHUNK, 1024)])]"
    by (simp add: rep_def heap_ok_def chunk_ok_def ex_freed_def mb_init_def md.load_save kinds_def layout_Cons pool_ok_def)
  from buddy_double_free_aborts [OF this, of 0 1024 4160] show ?thesis
    by (simp add: ex_freed_def mb_metadata_def sizeof_Desc_def)
qed

lemma word_mod_lt: "(x :: u64) < y \<Longrightarrow> x mod y = x"
  by (rule word_unat_eq_iff [THEN iffD2]) (simp add: unat_mod word_less_nat_alt)

text \<open>
  C30: \<open>Alloc\<close> does not check that the size overflows: a request of \<open>2^64 - 63\<close> bytes or more is served
  exactly like a request of none, by one block of \<open>min_chunk_size\<close>.
\<close>

theorem oversized_request_wraps:
  assumes "- 63 \<le> u" and "64 \<le> min_chunk_size b"
  shows "buddy_alloc sa gm u b = buddy_alloc sa gm 0 b"
proof -
  let ?m = "min_chunk_size b"
  have u63: "18446744073709551553 \<le> unat u"
    using assms(1) by (simp add: word_le_nat_alt)
  have m: "64 \<le> unat ?m" "?m \<noteq> 0" using assms(2) by (auto simp: word_le_nat_alt)
  have w: "unat (u + 64) = unat u + 64 - 18446744073709551616"
  proof -
    have "18446744073709551616 \<le> unat u + 64" using u63 by simp
    then have "(unat u + 64) mod 18446744073709551616 = (unat u + 64 - 18446744073709551616) mod 18446744073709551616"
      by (rule le_mod_geq)
    also have "\<dots> = unat u + 64 - 18446744073709551616"
      by (rule mod_less) (use unat_lt_2_64 [of u] in linarith)
    finally show ?thesis by (simp add: unat_add_64)
  qed
  have "unat (u + 64) < 64" using w unat_lt_2_64 [of u] by linarith
  then have lt1: "u + 64 < ?m" using m(1) by (simp add: word_less_nat_alt)
  have "0 < unat (u + 64)" using w u63 by linarith
  then have lt: "u + 64 < ?m" "u + 64 \<noteq> 0" using lt1 by auto
  have "(u + 64) mod ?m = u + 64" using lt(1) by (rule word_mod_lt)
  then have "align (u + 64) ?m = Inr ?m" using lt(2) m(2) by (simp add: align_def Let_def)
  moreover have "align 64 ?m = Inr ?m"
  proof (cases "?m = 64")
    case False
    then have "64 < ?m" using assms(2) by simp
    then have "64 mod ?m = 64" by (rule word_mod_lt)
    then show ?thesis using m(2) by (simp add: align_def Let_def)
  qed (simp add: align_def)
  ultimately show ?thesis by (simp add: buddy_alloc_def sizeof_Desc_def)
qed

theorem oversized_request_wraps_witness:
  "buddy_alloc ex_sa None (- 1) ex_buddy = buddy_alloc ex_sa None 0 ex_buddy"
  by (rule oversized_request_wraps) (simp_all add: ex_buddy_def buddy_new_def)

section \<open>Properties of histories\<close>

text \<open>The CPU allocator on a C library that keeps a list of what it handed out.\<close>

definition ex_sys :: "os_list sys_allocator" where "ex_sys = cpu_allocator ex_build list_libc"

definition ex_owned :: "os_list \<Rightarrow> (addr \<times> u64 \<times> u64) set" where "ex_owned os = indexed 0 (list_blocks os)"

interpretation ex: system_memory ex_sys ex_owned
  unfolding ex_sys_def ex_owned_def by (rule list_libc.cpu.system_memory_axioms)

lemma ex_owned_simps [simp]:
  "ex_owned (a, []) = {}"
  "ex_owned (a, [(p, n)]) = {(p, n, 0)}"
  by (auto simp: ex_owned_def indexed_def list_blocks_def split: if_splits)

lemma ex_owned_empty: "ex_owned s = {} \<longleftrightarrow> snd s = []"
proof
  assume e: "ex_owned s = {}"
  show "snd s = []"
  proof (cases "snd s")
    case (Cons x xs)
    then have "(fst x, snd x, 0) \<in> ex_owned s" by (cases x) (simp add: ex_owned_def list_blocks_def)
    then show ?thesis using e by simp
  qed
qed (cases s, simp)

lemmas ex_sys_simps = ex_sys_def cpu_allocator_def cpu_alloc_def cpu_free_def aligned_malloc_def ex_build_def
  c_assert_def use_pinned_memory_def list_libc_def list_alloc_def

lemma ex_sys_free_returns: "sys_free ex_sys p n i s \<noteq> Fault e s'"
  by (simp add: ex_sys_def cpu_allocator_def cpu_free_def)

definition ex_start :: "os_list buddy" where
  "ex_start = buddy_new ex_sys (\<lambda>_. 0) (4096, []) 256 65536"

lemma ex_start_history: "history ex_sys ex_owned ex_start {}"
  unfolding ex_start_def by (rule history.start) simp_all

text \<open>
  C2: In every history from a new allocator, in a build without CUDA or with it, with clients that free only what they hold and write only
  where they may, the memory of each client is where it should be: every pointer in use is followed
  by the bytes that were asked for, inside one piece of memory owned from the system, and the
  bytes of two pointers in use never overlap.
\<close>

theorem histories_are_safe:
  assumes "system_memory sa owned" and "history sa owned b L" and "(p, u) \<in> L"
  shows "p \<noteq> 0 \<and> unat p + unat u < 2 ^ 64 \<and>
    (\<exists>(r, m, i) \<in> owned (system b). unat r + 64 \<le> unat p \<and> unat p + unat u \<le> unat r + unat m) \<and>
    (\<forall>(q, v) \<in> L. q \<noteq> p \<longrightarrow> unat p + unat u \<le> unat q \<or> unat q + unat v \<le> unat p)"
  by (rule system_memory.histories_safe [OF assms])

definition ex_served :: "os_list buddy" where
  "ex_served = ex_start\<lparr>system := (4096 + 100096, [(4096, 100096)]),
     cache := mb_init (cache ex_start) HUGE_CHUNK 0 100096 0 0 4096\<rparr>"

lemma ex_served_alloc: "buddy_alloc ex_sys None 100000 ex_start = Normal 4160 ex_served"
  by (simp add: buddy_alloc_def ex_start_def buddy_new_def align_def sizeof_Desc_def system_alloc_def
      on_system_def ex_sys_simps ex_served_def mb_data_def)

lemma ex_served_history: "history ex_sys ex_owned ex_served {(4160, 100000)}"
  using history.alloc [OF ex_start_history _ ex_served_alloc] by (simp add: ex_start_def buddy_new_def)

theorem histories_are_safe_witness:
  "history ex_sys ex_owned ex_served {(4160, 100000)} \<and>
   (\<exists>(r, m, i) \<in> {(4096, 100096, 0 :: u64)}. unat r + 64 \<le> unat (4160 :: addr) \<and>
      unat (4160 :: addr) + unat (100000 :: u64) \<le> unat (r :: addr) + unat (m :: u64))"
  using histories_are_safe [OF ex.system_memory_axioms ex_served_history, of 4160 100000] ex_served_history
  by (simp add: ex_served_def)

text \<open>
  C19: In every such history, of builds without CUDA and with it, no guard is found damaged and no block is found in the
  wrong state. The next \<open>Free\<close> of a pointer in use can fault only when the system allocator itself does. So can the next
  \<open>Alloc\<close> of a size that does not wrap around, but for one assertion: that of \<open>split\<close>, when \<open>GpuMaxChunkSize()\<close> has
  made the new chunk smaller than the request.
\<close>

theorem histories_never_abort:
  assumes "system_memory sa owned" and "history sa owned b L"
  shows "(\<forall>gm u e b'. unat u + 64 + unat (min_chunk_size b) \<le> 18446744073709551616 \<longrightarrow>
      buddy_alloc sa gm u b = Fault e b' \<longrightarrow> (\<exists>n s. sys_alloc sa 0 n (system b) = Fault e s) \<or>
        e = Assertion_Failed \<and> (\<exists>sz. align (u + sizeof_Desc) (min_chunk_size b) = Inr sz \<and>
          refill_size sa gm b < sz \<and> sz \<le> max_chunk_size b)) \<and>
    (\<forall>(p, u) \<in> L. \<forall>e b'. buddy_free sa p b = Fault e b' \<longrightarrow>
      (\<exists>n i s. sys_free sa (mb_metadata p) n i (system b) = Fault e s))"
  by (rule system_memory.histories_no_abort [OF assms])

theorem histories_never_abort_witness:
  "\<forall>e b'. buddy_free ex_sys 4160 ex_served \<noteq> Fault e b'"
  using histories_never_abort [OF ex.system_memory_axioms ex_served_history] ex_sys_free_returns by blast




text \<open>
  C11: When the clients have given back all they held, the destructor gives all memory back to the
  system: each piece exactly once, with the size and the index it was taken with. It faults only when
  the system allocator faults on the release of a piece it owns.
\<close>

theorem destructor_returns_all:
  assumes "system_memory sa owned" and "history sa owned b {}"
  shows "case buddy_destroy sa b of
      Normal u b' \<Rightarrow> owned (system b') = {} | Fault e b' \<Rightarrow> release_faults sa owned"
  by (rule system_memory.destructor_idle [OF assms])

text \<open>A history that ends with an idle chunk: \<open>Alloc(1000)\<close> of a new chunk, then its \<open>Free\<close>.\<close>

definition ex_taken :: "os_list buddy" where
  "ex_taken = (case buddy_alloc ex_sys None 1000 ex_start of Normal p b \<Rightarrow> b | Fault e b \<Rightarrow> b)"

definition ex_idle :: "os_list buddy" where
  "ex_idle = (case buddy_free ex_sys 4160 ex_taken of Normal p b \<Rightarrow> b | Fault e b \<Rightarrow> b)"

lemmas run_simps = Let_def mb_fields load_field_blk load_field_def md.load_save md.load_save_far far_def mb_init_def
  on_system_def on_cache_def sizeof_Desc_def mb_data_def mb_metadata_def mk_desc_def pool_insert_def pool_erase_def
  find_exist_chunk_def find_from.simps lower_bound_def mb_split_def mb_set_type_def mb_mark_as_free_def mb_merge_def

lemma ex_taken_alloc: "buddy_alloc ex_sys None 1000 ex_start = Normal 4160 ex_taken"
  by (simp add: ex_taken_def buddy_alloc_def ex_start_def buddy_new_def align_def refill_pool_def split_to_alloc_def
      ex_sys_simps run_simps)

lemma ex_taken_history: "history ex_sys ex_owned ex_taken {(4160, 1000)}"
  using history.alloc [OF ex_start_history _ ex_taken_alloc] by (simp add: ex_start_def buddy_new_def)

lemma ex_idle_free: "buddy_free ex_sys 4160 ex_taken = Normal () ex_idle"
proof -
  obtain A where h: "hinv ex_owned ex_taken {(4160, 1000)} A"
    using ex.history_hinv [OF ex_taken_history] by blast
  then have rep: "rep ex_taken A" and L: "holds A {(4160, 1000)}" by (simp_all add: hinv_def)
  obtain n where "(mb_metadata 4160, n) \<in> live A" using holdsD(1) [OF L, of 4160 1000] by auto
  from buddy_free_lemma [OF rep this, of ex_sys] show ?thesis
    using ex_sys_free_returns by (auto simp: free_refines_def ex_idle_def split: outcome.splits)
qed

lemma ex_idle_history: "history ex_sys ex_owned ex_idle {}"
  using history.free [OF ex_taken_history _ ex_idle_free, of 1000] by simp

theorem destructor_returns_all_witness:
  "case buddy_destroy ex_sys ex_idle of Normal u b' \<Rightarrow> snd (system b') = [] | Fault e b' \<Rightarrow> False"
proof -
  have "\<not> release_faults ex_sys ex_owned"
    using ex_sys_free_returns by (simp add: release_faults_def)
  then show ?thesis using destructor_returns_all [OF ex.system_memory_axioms ex_idle_history]
    by (simp add: ex_owned_empty split: outcome.splits)
qed

text \<open>
  C29: The destructor frees each entry of the pool with \<open>max_chunk_size\<close>, whatever the entry is. When clients still
  hold blocks and the first free block is only the rest of its chunk, the system is asked to take back
  an address inside a chunk, where no piece of memory begins.
\<close>

theorem destructor_frees_inside_chunk:
  assumes "rep b (B @ (i, x # xs @ (a, FREE_CHUNK, n) # ys) # C)" and "pool b = Isa i n a # p"
  shows "buddy_destroy sa b =
      obind (on_system (sys_free sa a (max_chunk_size b) i) b) (\<lambda>_ b.
        destroy_pool sa p (b\<lparr>cache := invalidate (cache b) a, pool := p\<rparr>)) \<and>
    a \<notin> (\<lambda>(j, bs). first_addr bs 0) ` set (B @ (i, x # xs @ (a, FREE_CHUNK, n) # ys) # C)"
proof -
  let ?A = "B @ (i, (x # xs) @ (a, FREE_CHUNK, n) # ys) # C"
  have ok: "heap_ok (cache b) ?A" using assms(1) by (simp add: rep_def)
  have l: "load (cache b) a = Inr (blk_desc i (last_addr 0 (x # xs)) FREE_CHUNK n (first_addr ys 0))"
    using heap_load [OF ok] .
  have bind: "obind (obind m f) g = obind m (\<lambda>a s. obind (f a s) g)"
    for m :: "('a buddy, unit) outcome" and f :: "unit \<Rightarrow> 'a buddy \<Rightarrow> ('a buddy, unit) outcome"
      and g :: "unit \<Rightarrow> 'a buddy \<Rightarrow> ('a buddy, unit) outcome"
    by (cases m) simp_all
  have "buddy_destroy sa b = obind (on_system (sys_free sa a (max_chunk_size b) i) b) (\<lambda>_ b.
        destroy_pool sa p (b\<lparr>cache := invalidate (cache b) a, pool := p\<rparr>))"
    using l assms(2) by (simp add: buddy_destroy_def release_block_def mb_index_def load_field_blk bind)
  moreover have "a \<notin> (\<lambda>(j, bs). first_addr bs 0) ` set ?A"
  proof
    assume "a \<in> (\<lambda>(j, bs). first_addr bs 0) ` set ?A"
    then obtain j bs where bs: "(j, bs) \<in> set ?A" "first_addr bs 0 = a" by fastforce
    have u: "a \<notin> addrs (blocks B)" "a \<notin> addrs (x # xs)" "a \<notin> addrs (blocks C)"
      using addr_unique [of B i "x # xs" a FREE_CHUNK n ys C] ok by (simp_all add: heap_ok_def)
    have "bs \<noteq> []" using ok bs(1) by (auto simp: heap_ok_def chunk_ok_def kinds_def)
    then have "a \<in> addrs bs" using first_addr_in bs(2) by blast
    then have "(j, bs) \<notin> set B \<union> set C" using u by force
    then have "bs = (x # xs) @ (a, FREE_CHUNK, n) # ys" using bs(1) by auto
    then show False using bs(2) u(2) by (cases x) auto
  qed
  ultimately show ?thesis by simp
qed

lemma ex_taken_pool: "pool ex_taken = [Isa 0 64256 5376] \<and> system ex_taken = (69632, [(4096, 65536)])"
  by (simp add: ex_taken_def buddy_alloc_def ex_start_def buddy_new_def align_def refill_pool_def split_to_alloc_def
      ex_sys_simps run_simps)

theorem destructor_frees_inside_chunk_witness:
  "\<exists>f. buddy_destroy ex_sys ex_taken =
    obind (on_system (sys_free ex_sys 5376 (max_chunk_size ex_taken) 0) ex_taken) f"
proof -
  obtain A where h: "hinv ex_owned ex_taken {(4160, 1000)} A"
    using ex.history_hinv [OF ex_taken_history] by blast
  then have rep: "rep ex_taken A" and o: "span ` set A = {(4096, 65536, 0)}"
    using ex_taken_pool by (auto simp: hinv_def)
  have "Isa 0 64256 5376 \<in> frees A" using rep ex_taken_pool by (auto simp: rep_def)
  then obtain B xs ys C where A: "A = B @ (0, xs @ (5376, FREE_CHUNK, 64256) # ys) # C"
    by (auto simp: frees_member)
  have "span (0, xs @ (5376, FREE_CHUNK, 64256) # ys) = (4096, 65536, 0)" using o A by (auto simp: image_iff)
  then obtain x zs where "xs = x # zs" by (cases xs) auto
  then show ?thesis
    using destructor_frees_inside_chunk [of ex_taken B 0 x zs 5376 64256 ys C "[]" ex_sys] rep A ex_taken_pool
    by auto
qed

lemma alloc_block_arena:
  assumes "heap_alloc mx gr sz A g A' a" "sz \<le> mx"
  shows "\<exists>n. (a, ARENA_CHUNK, n) \<in> set (blocks A') \<and> sz \<le> n"
  using assms by cases (auto simp: cut_def intro: leD)

text \<open>
  C28: \<open>Alloc\<close> charges the rounded size \<open>sz\<close> to \<open>total_used_\<close>, \<open>Free\<close> takes the size \<open>n\<close> of the block off it. The two differ
  when the block was not cut: after the pair, \<open>total_used_\<close> is smaller than before by \<open>n - sz\<close>.
\<close>

theorem used_counter_drifts:
  assumes "rep b A"
    and "align (u + sizeof_Desc) (min_chunk_size b) = Inr sz" and "64 \<le> unat sz" and "sys_fresh sa (system b) A"
    and "sz \<le> max_chunk_size b" and "buddy_alloc sa gm u b = Normal p b1" and "p \<noteq> 0"
  shows "\<exists>n. mb_total_size (cache b1) (mb_metadata p) = Inr n \<and> sz \<le> n \<and>
    (\<exists>b2. buddy_free sa p b1 = Normal () b2 \<and> total_used b2 = total_used b - (n - sz))"
proof -
  obtain A' g where A': "heap_alloc (max_chunk_size b) (refill_size sa gm b) sz A g A' (mb_metadata p)" "rep b1 A'"
      "alloc_counted sz g b b1"
    using buddy_alloc_lemma [OF assms(1-4), of gm] assms(6,7) by (auto simp: alloc_refines_def)
  have used: "total_used b1 = total_used b + sz" using A'(3) leD [OF assms(5)] by (simp add: alloc_counted_def)
  obtain n where n: "(mb_metadata p, ARENA_CHUNK, n) \<in> set (blocks A')" "sz \<le> n"
    using alloc_block_arena [OF A'(1) assms(5)] by blast
  then obtain i bs where bs: "(i, bs) \<in> set A'" "(mb_metadata p, ARENA_CHUNK, n) \<in> set bs" by auto
  obtain B C where B: "A' = B @ (i, bs) # C" using bs(1) by (meson split_list)
  obtain xs ys where x: "bs = xs @ (mb_metadata p, ARENA_CHUNK, n) # ys" using bs(2) by (meson split_list)
  have ok: "heap_ok (cache b1) (B @ (i, xs @ (mb_metadata p, ARENA_CHUNK, n) # ys) # C)"
    using A'(2) B x by (simp add: rep_def)
  have size: "mb_total_size (cache b1) (mb_metadata p) = Inr n"
    using heap_load [OF ok] by (simp add: mb_total_size_def load_field_blk)
  obtain b2 where "buddy_free sa p b1 = Normal () b2" "total_used b2 = total_used b1 - n"
    using free_arena_runs A'(2) B x by blast
  then show ?thesis using size n(2) used by (auto simp: algebra_simps)
qed

definition ex_tight :: "u64 buddy" where "ex_tight = ex_freed\<lparr>min_chunk_size := 64\<rparr>"

lemma ex_freed_rep: "rep ex_freed [(0, [(4096, FREE_CHUNK, 1024)])]"
  by (simp add: rep_def heap_ok_def chunk_ok_def ex_freed_def mb_init_def md.load_save kinds_def layout_Cons pool_ok_def)

lemma ex_tight_rep: "rep ex_tight [(0, [(4096, FREE_CHUNK, 1024)])]"
  using ex_freed_rep by (simp add: rep_def ex_tight_def)

lemma ex_tight_fresh: "sys_fresh ex_sa (system ex_tight) [(0, [(4096, FREE_CHUNK, 1024)])]"
  by (simp add: sys_fresh_def ex_sa_def cpu_allocator_def cpu_alloc_def aligned_malloc_def ex_build_def ex_libc_def
      c_assert_def use_pinned_memory_def ex_tight_def ex_freed_def ex_buddy_def buddy_new_def fresh_for_def)

definition ex_tight_taken :: "u64 buddy" where
  "ex_tight_taken = (case buddy_alloc ex_sa None 896 ex_tight of Normal p b \<Rightarrow> b | Fault e b \<Rightarrow> b)"

lemma ex_tight_alloc: "buddy_alloc ex_sa None 896 ex_tight = Normal 4160 ex_tight_taken"
  "mb_total_size (cache ex_tight_taken) 4096 = Inr 1024"
  by (simp_all add: ex_tight_taken_def buddy_alloc_def ex_tight_def ex_freed_def ex_buddy_def buddy_new_def align_def
      split_to_alloc_def run_simps Isa_le)

theorem used_counter_drifts_witness:
  "total_used ex_tight = 1024 \<and> (\<exists>b2. buddy_free ex_sa 4160 ex_tight_taken = Normal () b2 \<and> total_used b2 = 960)"
proof -
  have al: "align (896 + sizeof_Desc) (min_chunk_size ex_tight) = Inr 960"
    by (simp add: ex_tight_def align_def sizeof_Desc_def)
  have m: "total_used ex_tight = 1024" "960 \<le> max_chunk_size ex_tight"
    by (simp_all add: ex_tight_def ex_freed_def ex_buddy_def buddy_new_def)
  have "mb_metadata 4160 = 4096" by (simp add: mb_metadata_def sizeof_Desc_def)
  then show ?thesis
    using used_counter_drifts [OF ex_tight_rep al _ ex_tight_fresh m(2) ex_tight_alloc(1)] ex_tight_alloc(2) m(1)
    by auto
qed

end
