(* ===== verification/RW_Lock.thy ===== *)
theory RW_Lock
  imports Prelude
begin

text \<open>
  \<open>rw_lock/rw_lock.h\<close>: \<open>RWLock\<close> wraps a pthread lock and throws when a call reports an error;
  \<open>AutoWRLock\<close> and \<open>AutoRDLock\<close> take it in their constructor and give it back in their destructor. The
  pthread calls are not code of the repository: they are the fields of \<open>pthread_ops\<close>, functions on
  the state of the lock that return the error code; a call that blocks is a step that has not
  happened yet. A destructor may not throw (C++11 makes it \<open>noexcept\<close>): an error there
  terminates the program.
\<close>

section \<open>The lock and its guards\<close>

datatype lock_fault = RWLock_Exception string | Terminated

datatype ('l, 'a) lock_result = Done 'a 'l | Raised lock_fault 'l

record 'l pthread_ops =
  rwlock_init :: "'l \<Rightarrow> 'l"
  rwlock_destroy :: "'l \<Rightarrow> 'l"
  rwlock_rdlock :: "'l \<Rightarrow> int \<times> 'l"
  rwlock_wrlock :: "'l \<Rightarrow> int \<times> 'l"
  rwlock_unlock :: "'l \<Rightarrow> int \<times> 'l"

definition rwlock_new :: "'l pthread_ops \<Rightarrow> 'l \<Rightarrow> 'l" where
  "rwlock_new pt memory = rwlock_init pt memory"

definition rwlock_delete :: "'l pthread_ops \<Rightarrow> 'l \<Rightarrow> 'l" where
  "rwlock_delete pt l = rwlock_destroy pt l"

definition rd_lock :: "'l pthread_ops \<Rightarrow> 'l \<Rightarrow> ('l, unit) lock_result" where
  "rd_lock pt l = (case rwlock_rdlock pt l of (rc, l) \<Rightarrow>
     if rc \<noteq> 0 then Raised (RWLock_Exception ''aquire readlock failed.'') l else Done () l)"

definition wr_lock :: "'l pthread_ops \<Rightarrow> 'l \<Rightarrow> ('l, unit) lock_result" where
  "wr_lock pt l = (case rwlock_wrlock pt l of (rc, l) \<Rightarrow>
     if rc \<noteq> 0 then Raised (RWLock_Exception ''aquire writelock failed.'') l else Done () l)"

definition un_lock :: "'l pthread_ops \<Rightarrow> 'l \<Rightarrow> ('l, unit) lock_result" where
  "un_lock pt l = (case rwlock_unlock pt l of (rc, l) \<Rightarrow>
     if rc \<noteq> 0 then Raised (RWLock_Exception ''unlock failed.'') l else Done () l)"

text \<open>
  The guards: the constructor of each takes the lock, each in its own mode, and the destructor gives it back. An
  exception does not leave a destructor.
\<close>

fun no_except :: "('l, 'a) lock_result \<Rightarrow> ('l, 'a) lock_result" where
  "no_except (Done x l) = Done x l"
| "no_except (Raised e l) = Raised Terminated l"

definition auto_wr_new :: "'l pthread_ops \<Rightarrow> 'l \<Rightarrow> ('l, unit) lock_result" where
  "auto_wr_new pt l = wr_lock pt l"

definition auto_wr_delete :: "'l pthread_ops \<Rightarrow> 'l \<Rightarrow> ('l, unit) lock_result" where
  "auto_wr_delete pt l = no_except (un_lock pt l)"

definition auto_rd_new :: "'l pthread_ops \<Rightarrow> 'l \<Rightarrow> ('l, unit) lock_result" where
  "auto_rd_new pt l = rd_lock pt l"

definition auto_rd_delete :: "'l pthread_ops \<Rightarrow> 'l \<Rightarrow> ('l, unit) lock_result" where
  "auto_rd_delete pt l = no_except (un_lock pt l)"

text \<open>
  A scope that holds a guard: the constructor, the body, the destructor on every way out. When the
  constructor throws there is no object and no destructor runs.
\<close>

definition guard_scope ::
  "('l \<Rightarrow> ('l, unit) lock_result) \<Rightarrow> ('l \<Rightarrow> ('l, unit) lock_result) \<Rightarrow> ('l \<Rightarrow> ('l, 'a) lock_result) \<Rightarrow> 'l \<Rightarrow> ('l, 'a) lock_result" where
  "guard_scope lock unlock body l =
     (case lock l of
        Raised e l \<Rightarrow> Raised e l
      | Done _ l \<Rightarrow>
          (case body l of
             Done x l \<Rightarrow> (case unlock l of Done _ l \<Rightarrow> Done x l | Raised e l \<Rightarrow> Raised e l)
           | Raised Terminated l \<Rightarrow> Raised Terminated l
           | Raised e l \<Rightarrow> (case unlock l of Done _ l \<Rightarrow> Raised e l | Raised e' l \<Rightarrow> Raised e' l)))"

definition auto_wr_lock :: "'l pthread_ops \<Rightarrow> ('l \<Rightarrow> ('l, 'a) lock_result) \<Rightarrow> 'l \<Rightarrow> ('l, 'a) lock_result" where
  "auto_wr_lock pt = guard_scope (auto_wr_new pt) (auto_wr_delete pt)"

definition auto_rd_lock :: "'l pthread_ops \<Rightarrow> ('l \<Rightarrow> ('l, 'a) lock_result) \<Rightarrow> 'l \<Rightarrow> ('l, 'a) lock_result" where
  "auto_rd_lock pt = guard_scope (auto_rd_new pt) (auto_rd_delete pt)"

section \<open>What the guards promise\<close>

text \<open>
  What POSIX documents of the calls, in terms of the number of readers and of the writer holding the
  lock: a call that reports an error changes neither.
\<close>

definition pthread_contract :: "'l pthread_ops \<Rightarrow> ('l \<Rightarrow> nat) \<Rightarrow> ('l \<Rightarrow> bool) \<Rightarrow> bool" where
  "pthread_contract pt rds wrt \<longleftrightarrow>
     (\<forall>l. case rwlock_rdlock pt l of (rc, l') \<Rightarrow>
        if rc = 0 then \<not> wrt l \<and> \<not> wrt l' \<and> rds l' = Suc (rds l) else rds l' = rds l \<and> wrt l' = wrt l) \<and>
     (\<forall>l. case rwlock_wrlock pt l of (rc, l') \<Rightarrow>
        if rc = 0 then \<not> wrt l \<and> rds l = 0 \<and> wrt l' \<and> rds l' = 0 else rds l' = rds l \<and> wrt l' = wrt l) \<and>
     (\<forall>l. case rwlock_unlock pt l of (rc, l') \<Rightarrow>
        if rc = 0 then \<not> wrt l' \<and> rds l' = (if wrt l then rds l else rds l - 1)
        else rds l' = rds l \<and> wrt l' = wrt l)"

lemma no_except_Done [simp]: "no_except r = Done u l \<longleftrightarrow> r = Done u l"
  by (cases r) simp_all

lemma no_except_Raised: "no_except r = Raised e l \<Longrightarrow> e = Terminated"
  by (cases r) simp_all

lemma auto_rd_new_view:
  assumes "pthread_contract pt rds wrt"
  shows "auto_rd_new pt l = Done u l' \<Longrightarrow> \<not> wrt l \<and> \<not> wrt l' \<and> rds l' = Suc (rds l)"
    and "auto_rd_new pt l = Raised e l' \<Longrightarrow> rds l' = rds l \<and> wrt l' = wrt l"
  using assms [unfolded pthread_contract_def, THEN conjunct1, THEN spec [of _ l]]
  by (auto simp: auto_rd_new_def rd_lock_def split: prod.splits if_splits)

lemma auto_wr_new_view:
  assumes "pthread_contract pt rds wrt"
  shows "auto_wr_new pt l = Done u l' \<Longrightarrow> \<not> wrt l \<and> rds l = 0 \<and> wrt l' \<and> rds l' = 0"
    and "auto_wr_new pt l = Raised e l' \<Longrightarrow> rds l' = rds l \<and> wrt l' = wrt l"
  using assms [unfolded pthread_contract_def, THEN conjunct2, THEN conjunct1, THEN spec [of _ l]]
  by (auto simp: auto_wr_new_def wr_lock_def split: prod.splits if_splits)

lemma un_lock_view:
  assumes "pthread_contract pt rds wrt" and "un_lock pt l = Done u l'"
  shows "\<not> wrt l' \<and> rds l' = (if wrt l then rds l else rds l - 1)"
  using assms(1) [unfolded pthread_contract_def, THEN conjunct2, THEN conjunct2, THEN spec [of _ l]] assms(2)
  by (auto simp: un_lock_def split: prod.splits if_splits)

lemma guard_delete_view:
  assumes "pthread_contract pt rds wrt"
  shows "auto_rd_delete pt l = Done u l' \<Longrightarrow> \<not> wrt l' \<and> rds l' = (if wrt l then rds l else rds l - 1)"
    and "auto_wr_delete pt l = Done u l' \<Longrightarrow> \<not> wrt l' \<and> rds l' = (if wrt l then rds l else rds l - 1)"
  using un_lock_view [OF assms] by (simp_all add: auto_rd_delete_def auto_wr_delete_def)

fun lock_after :: "('l, 'a) lock_result \<Rightarrow> 'l" where
  "lock_after (Done x l) = l"
| "lock_after (Raised e l) = l"

text \<open>
  What the two guards share: when a constructor that succeeds is undone by the destructor, the scope
  gives back exactly what it took, whether its body returns or throws.
\<close>

lemma scope_balanced:
  assumes undo: "\<And>u v l l1 l2 l3. lock l = Done u l1 \<Longrightarrow> view l2 = view l1 \<Longrightarrow> unlock l2 = Done v l3 \<Longrightarrow> view l3 = view l"
    and refused: "\<And>e l l1. lock l = Raised e l1 \<Longrightarrow> view l1 = view l"
    and dies: "\<And>e l l1. unlock l = Raised e l1 \<Longrightarrow> e = Terminated"
    and body: "\<And>l. view (lock_after (body l)) = view l"
    and run: "guard_scope lock unlock body l = r" "\<And>l'. r \<noteq> Raised Terminated l'"
  shows "view (lock_after r) = view l"
proof (cases "lock l")
  case (Raised e l1)
  then show ?thesis using run(1) refused by (auto simp: guard_scope_def)
next
  case (Done u l1)
  note taken = Done
  define l2 where "l2 = lock_after (body l1)"
  have v: "view l2 = view l1" unfolding l2_def by (rule body)
  have ends: "(case unlock l2 of Done w l3 \<Rightarrow> lock_after r = l3 | Raised e l3 \<Rightarrow> False)"
  proof (cases "body l1")
    case (Done x l')
    then show ?thesis using run taken dies
      by (auto simp: guard_scope_def l2_def split: lock_result.splits)
  next
    case (Raised e l')
    then have "e \<noteq> Terminated" using run(1) run(2) [of l'] taken by (auto simp: guard_scope_def)
    then show ?thesis using Raised run taken dies
      by (cases e) (auto simp: guard_scope_def l2_def split: lock_result.splits)
  qed
  then obtain w l3 where "unlock l2 = Done w l3" "lock_after r = l3"
    by (auto split: lock_result.splits)
  then show ?thesis using undo [OF taken v] by simp
qed

text \<open>A pthread lock whose state is the number of readers and the writer flag; a call that would block reports \<open>EBUSY\<close>.\<close>

definition ex_pthread :: "(nat \<times> bool) pthread_ops" where
  "ex_pthread = \<lparr>rwlock_init = \<lambda>_. (0, False), rwlock_destroy = \<lambda>l. l,
     rwlock_rdlock = \<lambda>(n, w). if w then (16, (n, w)) else (0, (Suc n, w)),
     rwlock_wrlock = \<lambda>(n, w). if w \<or> n \<noteq> 0 then (16, (n, w)) else (0, (0, True)),
     rwlock_unlock = \<lambda>(n, w). if w then (0, (n, False)) else if n = 0 then (1, (n, w)) else (0, (n - 1, w))\<rparr>"

lemma ex_pthread_contract: "pthread_contract ex_pthread fst snd"
  by (auto simp: pthread_contract_def ex_pthread_def)

text \<open>
  C40: A scope under \<open>AutoWRLock\<close> or \<open>AutoRDLock\<close> is balanced: when its body leaves the lock as it found it, so
  does the whole scope, on a normal end, on an exception of the body and on a refused lock, unless
  the program is terminated.
\<close>

theorem guard_scopes_balanced:
  assumes "pthread_contract pt rds wrt"
    and "\<And>l. rds (lock_after (body l)) = rds l \<and> wrt (lock_after (body l)) = wrt l"
    and "r = auto_wr_lock pt body l \<or> r = auto_rd_lock pt body l" and "\<And>l'. r \<noteq> Raised Terminated l'"
  shows "rds (lock_after r) = rds l \<and> wrt (lock_after r) = wrt l"
proof -
  let ?view = "\<lambda>l. (rds l, wrt l)"
  have body: "?view (lock_after (body l)) = ?view l" for l using assms(2) by simp
  have "?view (lock_after r) = ?view l"
    using assms(3)
  proof
    assume r: "r = auto_wr_lock pt body l"
    show ?thesis
      by (rule scope_balanced [of "auto_wr_new pt" ?view "auto_wr_delete pt" body])
        (use auto_wr_new_view [OF assms(1)] guard_delete_view(2) [OF assms(1)] body r assms(4) in
          \<open>auto simp: auto_wr_lock_def auto_wr_delete_def no_except_Raised\<close>)
  next
    assume r: "r = auto_rd_lock pt body l"
    show ?thesis
      by (rule scope_balanced [of "auto_rd_new pt" ?view "auto_rd_delete pt" body])
        (use auto_rd_new_view [OF assms(1)] guard_delete_view(1) [OF assms(1)] body r assms(4) in
          \<open>auto simp: auto_rd_lock_def auto_rd_delete_def no_except_Raised\<close>)
  qed
  then show ?thesis by simp
qed

theorem guard_scopes_balanced_witness:
  "auto_wr_lock ex_pthread (\<lambda>l. Raised (RWLock_Exception ''body'') l) (0, False) =
     (Raised (RWLock_Exception ''body'') (0, False) :: (nat \<times> bool, unit) lock_result) \<and>
   fst (lock_after (auto_wr_lock ex_pthread (\<lambda>l. Raised (RWLock_Exception ''body'') l :: (nat \<times> bool, unit) lock_result) (0, False))) = 0"
proof -
  let ?b = "\<lambda>l. Raised (RWLock_Exception ''body'') l :: (nat \<times> bool, unit) lock_result"
  have r: "auto_wr_lock ex_pthread ?b (0, False) = Raised (RWLock_Exception ''body'') (0, False)"
    by (simp add: auto_wr_lock_def guard_scope_def auto_wr_new_def wr_lock_def auto_wr_delete_def un_lock_def ex_pthread_def)
  have "fst (lock_after (auto_wr_lock ex_pthread ?b (0, False))) = fst (0 :: nat, False)"
    using guard_scopes_balanced [OF ex_pthread_contract, of ?b _ "(0, False)"] r by simp
  with r show ?thesis by simp
qed

text \<open>
  An error of \<open>pthread_rwlock_unlock\<close> in the destructor of a guard does not reach the caller as the
  \<open>RWLockException\<close> that \<open>UNLock\<close> throws: destructors are \<open>noexcept\<close>, the program is terminated, although
  the body had ended normally.
\<close>

lemma failed_unlock_terminates:
  assumes "wr_lock pt l = Done () l1" and "body l1 = Done x l2" and "fst (rwlock_unlock pt l2) \<noteq> 0"
  shows "auto_wr_lock pt body l = Raised Terminated (snd (rwlock_unlock pt l2))"
  using assms
  by (cases "rwlock_unlock pt l2") (simp add: auto_wr_lock_def guard_scope_def auto_wr_new_def auto_wr_delete_def un_lock_def)

section \<open>Threads\<close>

text \<open>
  Any number of threads share a lock; each is outside or in one scope of one of the guards. A step is the constructor of
  a guard, which takes the lock or throws, or the destructor of the guard whose scope a thread is in. A constructor
  that waits for the lock, and a scope whose body is still running, are steps that have not happened yet.
\<close>

datatype pc = Outside | Reading | Writing

inductive thread_step :: "'l pthread_ops \<Rightarrow> 'l \<times> (nat \<Rightarrow> pc) \<Rightarrow> 'l \<times> (nat \<Rightarrow> pc) \<Rightarrow> bool" for pt where
  enter_read: "pcs i = Outside \<Longrightarrow> auto_rd_new pt l = Done () l' \<Longrightarrow> thread_step pt (l, pcs) (l', pcs(i := Reading))"
| enter_write: "pcs i = Outside \<Longrightarrow> auto_wr_new pt l = Done () l' \<Longrightarrow> thread_step pt (l, pcs) (l', pcs(i := Writing))"
| refuse_read: "pcs i = Outside \<Longrightarrow> auto_rd_new pt l = Raised e l' \<Longrightarrow> thread_step pt (l, pcs) (l', pcs)"
| refuse_write: "pcs i = Outside \<Longrightarrow> auto_wr_new pt l = Raised e l' \<Longrightarrow> thread_step pt (l, pcs) (l', pcs)"
| leave_read: "pcs i = Reading \<Longrightarrow> auto_rd_delete pt l = Done () l' \<Longrightarrow> thread_step pt (l, pcs) (l', pcs(i := Outside))"
| leave_write: "pcs i = Writing \<Longrightarrow> auto_wr_delete pt l = Done () l' \<Longrightarrow> thread_step pt (l, pcs) (l', pcs(i := Outside))"

inductive threads_reach :: "'l pthread_ops \<Rightarrow> ('l \<Rightarrow> nat) \<Rightarrow> ('l \<Rightarrow> bool) \<Rightarrow> 'l \<times> (nat \<Rightarrow> pc) \<Rightarrow> bool"
  for pt rds wrt where
  start: "rds l = 0 \<Longrightarrow> \<not> wrt l \<Longrightarrow> threads_reach pt rds wrt (l, \<lambda>_. Outside)"
| step: "threads_reach pt rds wrt s \<Longrightarrow> thread_step pt s t \<Longrightarrow> threads_reach pt rds wrt t"

text \<open>The invariant: the lock counts the readers and knows the writer.\<close>

definition lock_inv :: "('l \<Rightarrow> nat) \<Rightarrow> ('l \<Rightarrow> bool) \<Rightarrow> 'l \<times> (nat \<Rightarrow> pc) \<Rightarrow> bool" where
  "lock_inv rds wrt = (\<lambda>(l, pcs).
     finite {i. pcs i = Reading} \<and> rds l = card {i. pcs i = Reading} \<and>
     (if wrt l then \<exists>i. pcs = (\<lambda>_. Outside)(i := Writing) else \<forall>i. pcs i \<noteq> Writing))"

lemma readers_upd:
  "{j. j \<noteq> i \<longrightarrow> pcs j = Reading} = insert i {j. pcs j = Reading}"
  "{j. j \<noteq> i \<and> pcs j = Reading} = {j. pcs j = Reading} - {i}"
  by auto

lemma leave_read_inv:
  assumes "lock_inv rds wrt (l, pcs)" "pcs i = Reading" "\<not> wrt l'" "rds l' = (if wrt l then rds l else rds l - 1)"
  shows "lock_inv rds wrt (l', pcs(i := Outside))"
proof -
  have w: "\<not> wrt l" using assms(1,2) by (auto simp: lock_inv_def split: if_splits)
  then have r: "finite {i. pcs i = Reading}" "rds l = card {i. pcs i = Reading}" "\<forall>i. pcs i \<noteq> Writing"
    using assms(1) by (simp_all add: lock_inv_def)
  have "{j. (pcs(i := Outside)) j = Reading} = {j. pcs j = Reading} - {i}" by auto
  then show ?thesis using r w assms(2-4) by (simp add: lock_inv_def del: fun_upd_apply) (simp add: fun_upd_apply)
qed

lemma leave_write_inv:
  assumes "lock_inv rds wrt (l, pcs)" "pcs i = Writing" "\<not> wrt l'" "rds l' = (if wrt l then rds l else rds l - 1)"
  shows "lock_inv rds wrt (l', pcs(i := Outside))"
proof -
  have w: "wrt l" using assms(1,2) by (auto simp: lock_inv_def split: if_splits)
  then obtain j where j: "pcs = (\<lambda>_. Outside)(j := Writing)" using assms(1) by (auto simp: lock_inv_def)
  then have "i = j" using assms(2) by (auto split: if_splits)
  then show ?thesis using w assms j by (auto simp: lock_inv_def)
qed

lemma thread_step_inv:
  assumes c: "pthread_contract pt rds wrt" and "thread_step pt s t" and "lock_inv rds wrt s"
  shows "lock_inv rds wrt t"
  using assms(2,3)
proof cases
  case (enter_read pcs i l l')
  then show ?thesis using assms(3) auto_rd_new_view(1) [OF c enter_read(4)]
    by (auto simp: lock_inv_def readers_upd)
next
  case (enter_write pcs i l l')
  have "rds l = 0" "\<not> wrt l" "rds l' = 0" "wrt l'" using auto_wr_new_view(1) [OF c enter_write(4)] by auto
  moreover from this have "pcs = (\<lambda>_. Outside)"
    using assms(3) enter_write(1) by (auto simp: lock_inv_def) (metis pc.exhaust)
  ultimately show ?thesis using enter_write by (auto simp: lock_inv_def)
next
  case (refuse_read pcs i l e l')
  then show ?thesis using assms(3) auto_rd_new_view(2) [OF c refuse_read(4)] by (simp add: lock_inv_def)
next
  case (refuse_write pcs i l e l')
  then show ?thesis using assms(3) auto_wr_new_view(2) [OF c refuse_write(4)] by (simp add: lock_inv_def)
next
  case (leave_read pcs i l l')
  then show ?thesis using assms(3) leave_read_inv guard_delete_view(1) [OF c leave_read(4)] by metis
next
  case (leave_write pcs i l l')
  then show ?thesis using assms(3) leave_write_inv guard_delete_view(2) [OF c leave_write(4)] by metis
qed

lemma threads_reach_inv:
  assumes c: "pthread_contract pt rds wrt"
  shows "threads_reach pt rds wrt s \<Longrightarrow> lock_inv rds wrt s"
proof (induction rule: threads_reach.induct)
  case (start l)
  then show ?case by (simp add: lock_inv_def)
next
  case (step s t)
  then show ?case by (blast intro: thread_step_inv [OF c])
qed

text \<open>
  C25: The guards exclude: in every state that threads using \<open>AutoRDLock\<close> and \<open>AutoWRLock\<close> can reach, on a lock that
  keeps its contract, a thread in a write scope is alone.
\<close>

theorem writers_are_alone:
  assumes "pthread_contract pt rds wrt" and "threads_reach pt rds wrt (l, pcs)" and "pcs i = Writing" and "i \<noteq> j"
  shows "pcs j = Outside"
  using threads_reach_inv [OF assms(1,2)] assms(3,4) by (auto simp: lock_inv_def split: if_splits)

lemma ex_start_reached: "threads_reach ex_pthread fst snd ((0, False), \<lambda>_. Outside)"
  by (rule threads_reach.start) simp_all

theorem writers_are_alone_witness:
  "threads_reach ex_pthread fst snd ((0, True), (\<lambda>_. Outside)(3 := Writing)) \<and>
   ((\<lambda>_. Outside)(3 := Writing)) (5 :: nat) = Outside"
proof -
  have "thread_step ex_pthread ((0, False), \<lambda>_. Outside) ((0, True), (\<lambda>_. Outside)(3 := Writing))"
    by (rule thread_step.enter_write) (simp_all add: auto_wr_new_def wr_lock_def ex_pthread_def)
  then have r: "threads_reach ex_pthread fst snd ((0, True), (\<lambda>_. Outside)(3 := Writing))"
    by (rule threads_reach.step [OF ex_start_reached])
  show ?thesis using writers_are_alone [OF ex_pthread_contract r, of 3 5] r by simp
qed

section \<open>Liveness\<close>

text \<open>POSIX: a lock that is held can be given back, and one that nobody holds is granted.\<close>

definition pthread_serves :: "'l pthread_ops \<Rightarrow> ('l \<Rightarrow> nat) \<Rightarrow> ('l \<Rightarrow> bool) \<Rightarrow> bool" where
  "pthread_serves pt rds wrt \<longleftrightarrow>
     (\<forall>l. wrt l \<or> rds l \<noteq> 0 \<longrightarrow> fst (rwlock_unlock pt l) = 0) \<and>
     (\<forall>l. \<not> wrt l \<and> rds l = 0 \<longrightarrow> fst (rwlock_wrlock pt l) = 0)"

lemma ex_pthread_serves: "pthread_serves ex_pthread fst snd"
  by (auto simp: pthread_serves_def ex_pthread_def)

lemma served_unlock:
  assumes "pthread_serves pt rds wrt" "wrt l \<or> rds l \<noteq> 0"
  obtains l' where "un_lock pt l = Done () l'"
proof -
  have "fst (rwlock_unlock pt l) = 0" using assms unfolding pthread_serves_def by blast
  then have "un_lock pt l = Done () (snd (rwlock_unlock pt l))" by (simp add: un_lock_def case_prod_beta)
  then show thesis by (rule that)
qed

lemma served_wrlock:
  assumes "pthread_serves pt rds wrt" "\<not> wrt l" "rds l = 0"
  obtains l' where "auto_wr_new pt l = Done () l'"
proof -
  have "fst (rwlock_wrlock pt l) = 0" using assms unfolding pthread_serves_def by blast
  then have "auto_wr_new pt l = Done () (snd (rwlock_wrlock pt l))"
    by (simp add: auto_wr_new_def wr_lock_def case_prod_beta)
  then show thesis by (rule that)
qed

text \<open>The destructor of the guard that a thread holds would return.\<close>

fun can_leave :: "'l pthread_ops \<Rightarrow> 'l \<Rightarrow> pc \<Rightarrow> bool" where
  "can_leave pt l Outside \<longleftrightarrow> False"
| "can_leave pt l Reading \<longleftrightarrow> (\<exists>l'. auto_rd_delete pt l = Done () l')"
| "can_leave pt l Writing \<longleftrightarrow> (\<exists>l'. auto_wr_delete pt l = Done () l')"

lemma holder_can_leave:
  assumes "pthread_serves pt rds wrt" and i: "lock_inv rds wrt (l, pcs)" and j: "pcs j \<noteq> Outside"
  shows "can_leave pt l (pcs j)"
proof -
  have "wrt l \<or> rds l \<noteq> 0"
  proof (cases "wrt l")
    case False
    then have "finite {i. pcs i = Reading}" "rds l = card {i. pcs i = Reading}" "pcs j \<noteq> Writing"
      using i by (auto simp: lock_inv_def)
    moreover from this have "j \<in> {i. pcs i = Reading}" using j by (cases "pcs j") auto
    ultimately show ?thesis by auto
  qed simp
  then obtain l' where "un_lock pt l = Done () l'" by (rule served_unlock [OF assms(1)])
  then show ?thesis using j by (cases "pcs j") (simp_all add: auto_rd_delete_def auto_wr_delete_def)
qed

lemma holders_finite:
  assumes "lock_inv rds wrt (l, pcs)"
  shows "finite {j. pcs j \<noteq> Outside}"
proof (cases "wrt l")
  case True
  then obtain i where "pcs = (\<lambda>_. Outside)(i := Writing)" using assms by (auto simp: lock_inv_def)
  then have "{j. pcs j \<noteq> Outside} = {i}" by auto
  then show ?thesis by simp
next
  case False
  then have "finite {j. pcs j = Reading}" "\<forall>j. pcs j \<noteq> Writing" using assms by (simp_all add: lock_inv_def)
  moreover have "pcs j \<noteq> Outside \<longleftrightarrow> pcs j = Reading" for j using calculation(2) by (cases "pcs j") auto
  ultimately show ?thesis by simp
qed

text \<open>
  The infinite runs of the threads, with pauses. A run is fair when no thread can leave its scope for ever without doing
  so: bodies end and the scheduler passes over nobody.
\<close>

definition threads_run :: "'l pthread_ops \<Rightarrow> (nat \<Rightarrow> 'l \<times> (nat \<Rightarrow> pc)) \<Rightarrow> bool" where
  "threads_run pt \<sigma> \<longleftrightarrow> (\<forall>n. thread_step pt (\<sigma> n) (\<sigma> (Suc n)) \<or> \<sigma> (Suc n) = \<sigma> n)"

definition threads_fair :: "'l pthread_ops \<Rightarrow> (nat \<Rightarrow> 'l \<times> (nat \<Rightarrow> pc)) \<Rightarrow> bool" where
  "threads_fair pt \<sigma> \<longleftrightarrow> (\<forall>n j. \<exists>m \<ge> n. \<not> can_leave pt (fst (\<sigma> m)) (snd (\<sigma> m) j))"

lemma run_reached:
  assumes "threads_run pt \<sigma>" "threads_reach pt rds wrt (\<sigma> 0)"
  shows "threads_reach pt rds wrt (\<sigma> n)"
proof (induction n)
  case (Suc n)
  then show ?case using assms(1) threads_reach.step unfolding threads_run_def by metis
qed (rule assms(2))

text \<open>
  C26: The lock is not lost: in every fair run of threads that use the guards in which no more threads enter, a moment comes
  from which on all have left and the constructor of \<open>AutoWRLock\<close> succeeds. No destructor terminates the program on the
  way, whatever the order in which the threads leave.
\<close>

theorem fair_runs_free_the_lock:
  assumes "pthread_contract pt rds wrt" and "pthread_serves pt rds wrt"
    and "threads_reach pt rds wrt (\<sigma> 0)" and "threads_run pt \<sigma>" and "threads_fair pt \<sigma>"
    and "\<And>n j. snd (\<sigma> n) j = Outside \<Longrightarrow> snd (\<sigma> (Suc n)) j = Outside"
  shows "\<exists>n. \<forall>m \<ge> n. (\<forall>j. snd (\<sigma> m) j = Outside) \<and> (\<exists>l. auto_wr_new pt (fst (\<sigma> m)) = Done () l \<and> wrt l)"
proof -
  have inv: "lock_inv rds wrt (fst (\<sigma> n), snd (\<sigma> n))" for n
    using threads_reach_inv [OF assms(1) run_reached [OF assms(4,3)]] by simp
  have "\<exists>n. snd (\<sigma> n) j = Outside" for j
    using assms(5) holder_can_leave [OF assms(2) inv] unfolding threads_fair_def by blast
  then obtain f where f: "snd (\<sigma> (f j)) j = Outside" for j by metis
  have stays: "snd (\<sigma> m) j = Outside" if "n \<le> m" "snd (\<sigma> n) j = Outside" for n m j
    using that by (induction rule: dec_induct) (auto intro: assms(6))
  let ?H = "{j. snd (\<sigma> 0) j \<noteq> Outside}"
  define N where "N = Max (insert 0 (f ` ?H))"
  have fin: "finite (f ` ?H)" using holders_finite [OF inv [of 0]] by simp
  have out: "snd (\<sigma> m) j = Outside" if "N \<le> m" for m j
  proof (cases "j \<in> ?H")
    case True
    then have "f j \<le> m" using fin that Max_ge [of "insert 0 (f ` ?H)" "f j"] unfolding N_def by auto
    then show ?thesis using stays f by blast
  qed (use stays [of 0 m j] in simp)
  have "\<exists>l. auto_wr_new pt (fst (\<sigma> m)) = Done () l \<and> wrt l" if "N \<le> m" for m
  proof -
    have "\<not> wrt (fst (\<sigma> m))" "rds (fst (\<sigma> m)) = 0"
      using inv [of m] out [OF that] by (auto simp: lock_inv_def fun_eq_iff split: if_splits)
    then obtain l where "auto_wr_new pt (fst (\<sigma> m)) = Done () l" by (rule served_wrlock [OF assms(2)])
    then show ?thesis using auto_wr_new_view(1) [OF assms(1)] by blast
  qed
  then show ?thesis using out by blast
qed

definition ex_run :: "nat \<Rightarrow> (nat \<times> bool) \<times> (nat \<Rightarrow> pc)" where
  "ex_run n = (if n = 0 then ((1, False), (\<lambda>_. Outside)(3 := Reading)) else ((0, False), \<lambda>_. Outside))"

theorem fair_runs_free_the_lock_witness:
  "\<exists>n. \<forall>m \<ge> n. (\<forall>j. snd (ex_run m) j = Outside) \<and> (\<exists>l. auto_wr_new ex_pthread (fst (ex_run m)) = Done () l \<and> snd l)"
proof (rule fair_runs_free_the_lock [OF ex_pthread_contract ex_pthread_serves])
  have "thread_step ex_pthread ((0, False), \<lambda>_. Outside) ((1, False), (\<lambda>_. Outside)(3 := Reading))"
    by (rule thread_step.enter_read) (simp_all add: auto_rd_new_def rd_lock_def ex_pthread_def)
  then show "threads_reach ex_pthread fst snd (ex_run 0)"
    by (simp add: ex_run_def threads_reach.step [OF ex_start_reached])
  have "thread_step ex_pthread ((1, False), (\<lambda>_. Outside)(3 := Reading)) ((0, False), ((\<lambda>_. Outside)(3 := Reading))(3 := Outside))"
    by (rule thread_step.leave_read) (simp_all add: auto_rd_delete_def un_lock_def ex_pthread_def)
  moreover have "((\<lambda>_. Outside)(3 := Reading))(3 := Outside) = (\<lambda>_ :: nat. Outside)" by auto
  ultimately show "threads_run ex_pthread ex_run" by (simp add: threads_run_def ex_run_def)
  show "threads_fair ex_pthread ex_run" unfolding threads_fair_def
  proof (intro allI)
    fix n j
    have "\<not> can_leave ex_pthread (fst (ex_run (Suc n))) (snd (ex_run (Suc n)) j)" by (simp add: ex_run_def)
    then show "\<exists>m \<ge> n. \<not> can_leave ex_pthread (fst (ex_run m)) (snd (ex_run m) j)" using le_Suc_eq by blast
  qed
  show "snd (ex_run (Suc n)) j = Outside" for n j by (simp add: ex_run_def)
qed

end
